(* ===== verification/Prelude.thy ===== *)
theory Prelude
  imports Main "HOL-Library.Word"
begin

text \<open>
  Shared vocabulary of the development: the machine integer types of the code, memory
  buffers with explicit offsets, little-endian integers, double-ended queues as lists,
  and the theorem collections the component theories add to.

  A fixed-size array of bytes (\<open>boost::array< char, N >\<close>) is a total function from
  offsets to bytes. Its length is not part of the value: an operation that may leave the
  array checks the bound itself and says so in its result.
\<close>

type_synonym u8 = "8 word"
type_synonym u16 = "16 word"
type_synonym u32 = "32 word"
type_synonym u64 = "64 word"
type_synonym buffer = "nat \<Rightarrow> u8"

named_theorems op_defs "definitions of operations, unfolded by the component proofs"
named_theorems inv_defs "definitions of invariants"
named_theorems buf_simps "reading back what was written to a buffer"

section \<open>Buffers\<close>

definition zero_buffer :: buffer where
  "zero_buffer = (\<lambda>_. 0)"

definition blit :: "buffer \<Rightarrow> nat \<Rightarrow> u8 list \<Rightarrow> buffer" where
  "blit b off bs = (\<lambda>i. if off \<le> i \<and> i < off + length bs then bs ! (i - off) else b i)"

definition slice :: "buffer \<Rightarrow> nat \<Rightarrow> nat \<Rightarrow> u8 list" where
  "slice b off n = map b [off..<off + n]"

lemma length_slice [simp]: "length (slice b off n) = n"
  by (simp add: slice_def)

lemma nth_slice [simp]: "i < n \<Longrightarrow> slice b off n ! i = b (off + i)"
  by (simp add: slice_def)

lemma slice_0 [simp]: "slice b off 0 = []"
  by (simp add: slice_def)

lemma slice_Suc: "slice b off (Suc n) = b off # slice b (Suc off) n"
  by (simp add: slice_def upt_conv_Cons del: upt_Suc)

lemma blit_Nil [simp]: "blit b off [] = b"
  by (rule ext) (auto simp: blit_def)

lemma slice_eqI:
  "length bs = n \<Longrightarrow> (\<And>i. i < n \<Longrightarrow> b (off + i) = bs ! i) \<Longrightarrow> slice b off n = bs"
  by (rule nth_equalityI) auto

lemma slice_blit_at [buf_simps]:
  "off \<le> o' \<Longrightarrow> o' + n \<le> off + length bs \<Longrightarrow>
   slice (blit b off bs) o' n = take n (drop (o' - off) bs)"
  by (rule nth_equalityI) (auto simp: blit_def)

lemma slice_blit_same: "length bs = n \<Longrightarrow> slice (blit b off bs) off n = bs"
  by (simp add: slice_blit_at)

lemma slice_blit_disjoint [buf_simps]:
  "o' + n \<le> off \<or> off + length bs \<le> o' \<Longrightarrow>
   slice (blit b off bs) o' n = slice b o' n"
  by (rule nth_equalityI) (auto simp: blit_def)

lemma slice_append: "slice b off (m + n) = slice b off m @ slice b (off + m) n"
  by (rule nth_equalityI) (auto simp: nth_append)

lemma take_slice [buf_simps]: "m \<le> n \<Longrightarrow> take m (slice b off n) = slice b off m"
  by (rule nth_equalityI) auto

lemma drop_slice [buf_simps]: "m \<le> n \<Longrightarrow> drop m (slice b off n) = slice b (off + m) (n - m)"
  by (rule nth_equalityI) (auto simp: ac_simps)

lemma blit_slice_same [simp]: "blit b off (slice b off n) = b"
  by (rule ext) (auto simp: blit_def)

lemma blit_same_over: "length xs = length ys \<Longrightarrow> blit (blit b off xs) off ys = blit b off ys"
  by (rule ext) (auto simp: blit_def)

section \<open>Little-endian integers\<close>

fun enc_le :: "nat \<Rightarrow> nat \<Rightarrow> u8 list" where
  "enc_le 0 x = []"
| "enc_le (Suc n) x = word_of_nat (x mod 256) # enc_le n (x div 256)"

fun dec_le :: "u8 list \<Rightarrow> nat" where
  "dec_le [] = 0"
| "dec_le (b # bs) = unat b + 256 * dec_le bs"

lemma length_enc_le [simp]: "length (enc_le n x) = n"
  by (induction n arbitrary: x) auto

lemma unat_byte_bound: "unat (b :: u8) < 256"
  using unsigned_less [of b, where 'a = nat] by simp

lemma unat_byte_of_nat [simp]: "unat (word_of_nat (x mod 256) :: u8) = x mod 256"
  by (simp add: unat_of_nat)

lemma dec_enc_le: "dec_le (enc_le n x) = x mod 256 ^ n"
proof (induction n arbitrary: x)
  case 0
  then show ?case by simp
next
  case (Suc n)
  have "x mod 256 ^ Suc n = x mod 256 + 256 * (x div 256 mod 256 ^ n)"
    by (simp add: mod_mult2_eq)
  with Suc show ?case by simp
qed

lemma dec_le_bound: "dec_le bs < 256 ^ length bs"
proof (induction bs)
  case Nil
  then show ?case by simp
next
  case (Cons b bs)
  have "dec_le bs + 1 \<le> 256 ^ length bs" using Cons by simp
  then have "256 * (dec_le bs + 1) \<le> 256 * 256 ^ length bs"
    by (rule mult_le_mono2)
  then show ?case using unat_byte_bound [of b] by simp
qed

lemma enc_dec_le: "enc_le (length bs) (dec_le bs) = bs"
proof (induction bs)
  case Nil
  then show ?case by simp
next
  case (Cons b bs)
  then show ?case using unat_byte_bound [of b] by simp
qed

lemma dec_enc_le_word:
  assumes "LENGTH('a) \<le> 8 * n"
  shows "word_of_nat (dec_le (enc_le n (unat w))) = (w :: 'a::len word)"
proof -
  have "(2::nat) ^ LENGTH('a) \<le> 2 ^ (8 * n)"
    using assms by (rule power_increasing) simp
  then have "unat w < 256 ^ n"
    using unsigned_less [of w, where 'a = nat]
    by (simp add: power_mult del: unsigned_less)
  then show ?thesis by (simp add: dec_enc_le)
qed

lemma dec_enc_le_u16 [simp]: "word_of_nat (dec_le (enc_le 2 (unat w))) = (w :: u16)"
  by (rule dec_enc_le_word) simp

lemma dec_enc_le_u32 [simp]: "word_of_nat (dec_le (enc_le 4 (unat w))) = (w :: u32)"
  by (rule dec_enc_le_word) simp

lemma dec_enc_le_u64 [simp]: "word_of_nat (dec_le (enc_le 8 (unat w))) = (w :: u64)"
  by (rule dec_enc_le_word) simp

section \<open>Text\<close>

fun decimal :: "nat \<Rightarrow> string" where
  "decimal n = (if n < 10 then [char_of (48 + n)] else decimal (n div 10) @ [char_of (48 + n mod 10)])"

declare decimal.simps [simp del]

text \<open>What a function that takes a pointer to characters sees of a string.\<close>

definition c_string :: "string \<Rightarrow> string" where
  "c_string s = takeWhile (\<lambda>c. c \<noteq> CHR 0x00) s"

end
