(* ===== verification/Store.thy ===== *)
theory Store
  imports Prelude
begin

text \<open>
  Keyed stores. Several components keep a map or a set that refuses to insert a key twice and
  whose interface refuses some keys (an account id or a timer key of 0): the registry of
  connections by account id, the set of connected users and the map of pending timers. The
  locale \<open>keyed_store\<close> is the contract they share; each is interpreted in the theory of its
  component.

  The containers themselves (\<open>std::unordered_map\<close>, \<open>std::set\<close>) are lists in iteration
  order; the order in which the library iterates is not specified, and no property here
  depends on it.
\<close>

section \<open>Association lists as the maps of the code\<close>

definition try_emplace :: "'k \<Rightarrow> 'v \<Rightarrow> ('k \<times> 'v) list \<Rightarrow> bool \<times> ('k \<times> 'v) list" where
  "try_emplace k v m = (if map_of m k = None then (True, m @ [(k, v)]) else (False, m))"

definition erase_key :: "'k \<Rightarrow> ('k \<times> 'v) list \<Rightarrow> ('k \<times> 'v) list" where
  "erase_key k m = filter (\<lambda>e. fst e \<noteq> k) m"

lemma map_of_erase_key [simp]: "map_of (erase_key k m) = (map_of m)(k := None)"
  by (induction m) (auto simp: erase_key_def)

lemma map_of_try_emplace:
  "map_of (snd (try_emplace k v m)) =
     (if map_of m k = None then (map_of m)(k \<mapsto> v) else map_of m)"
proof -
  have "map_of (m @ [(k, v)]) j = (if map_of m j = None then map_of [(k, v)] j else map_of m j)" for j
    by (simp add: map_add_def split: option.split)
  then show ?thesis by (auto simp: try_emplace_def fun_eq_iff)
qed

lemma fst_try_emplace [simp]: "fst (try_emplace k v m) \<longleftrightarrow> map_of m k = None"
  by (simp add: try_emplace_def)

lemma distinct_try_emplace:
  "distinct (map fst m) \<Longrightarrow> distinct (map fst (snd (try_emplace k v m)))"
  by (auto simp: try_emplace_def map_of_eq_None_iff)

lemma distinct_erase_key: "distinct (map fst m) \<Longrightarrow> distinct (map fst (erase_key k m))"
  by (simp add: erase_key_def distinct_map_filter)

lemma set_erase_key: "set (erase_key k m) = {e \<in> set m. fst e \<noteq> k}"
  by (auto simp: erase_key_def)

section \<open>The interface\<close>

datatype ('k, 'v) store_op = Put 'k 'v | Remove 'k

text \<open>The store as a partial function: what inserting and removing must do to it.\<close>

fun spec_op :: "('k, 'v) store_op \<Rightarrow> ('k \<rightharpoonup> 'v) \<Rightarrow> ('k \<rightharpoonup> 'v)" where
  "spec_op (Put k v) f = (if f k = None then f(k \<mapsto> v) else f)"
| "spec_op (Remove k) f = f(k := None)"

fun op_key :: "('k, 'v) store_op \<Rightarrow> 'k" where
  "op_key (Put k v) = k"
| "op_key (Remove k) = k"

locale keyed_store =
  fixes find :: "'k \<Rightarrow> 'm \<Rightarrow> 'v option"
    and put :: "'k \<Rightarrow> 'v \<Rightarrow> 'm \<Rightarrow> bool \<times> 'm"
    and remove :: "'k \<Rightarrow> 'm \<Rightarrow> 'm"
    and valid :: "'k \<Rightarrow> bool"
    and ok :: "'m \<Rightarrow> bool"
  assumes ok_put: "ok m \<Longrightarrow> ok (snd (put k v m))"
    and ok_remove: "ok m \<Longrightarrow> ok (remove k m)"
    and put_fresh: "ok m \<Longrightarrow> valid k \<Longrightarrow> fst (put k v m) \<longleftrightarrow> find k m = None"
    and find_put: "ok m \<Longrightarrow> valid k \<Longrightarrow> valid j \<Longrightarrow>
      find j (snd (put k v m)) = (if j = k \<and> find k m = None then Some v else find j m)"
    and find_remove: "ok m \<Longrightarrow> valid k \<Longrightarrow> valid j \<Longrightarrow>
      find j (remove k m) = (if j = k then None else find j m)"
begin

definition view :: "'m \<Rightarrow> ('k \<rightharpoonup> 'v)" where
  "view m = (\<lambda>k. if valid k then find k m else None)"

lemma view_put:
  "ok m \<Longrightarrow> valid k \<Longrightarrow> view (snd (put k v m)) = spec_op (Put k v) (view m)"
  by (auto simp: view_def find_put)

lemma view_remove:
  "ok m \<Longrightarrow> valid k \<Longrightarrow> view (remove k m) = spec_op (Remove k) (view m)"
  by (auto simp: view_def find_remove)

fun run_op :: "('k, 'v) store_op \<Rightarrow> 'm \<Rightarrow> 'm" where
  "run_op (Put k v) m = snd (put k v m)"
| "run_op (Remove k) m = remove k m"

lemma ok_run_op: "ok m \<Longrightarrow> ok (run_op x m)"
  by (cases x) (simp_all add: ok_put ok_remove)

text \<open>Simulation: every sequence of operations on valid keys does to the store what it does
  to the partial function.\<close>

lemma run_refines:
  "ok m \<Longrightarrow> \<forall>x \<in> set xs. valid (op_key x) \<Longrightarrow>
   ok (fold run_op xs m) \<and> view (fold run_op xs m) = fold spec_op xs (view m)"
proof (induction xs arbitrary: m)
  case Nil
  then show ?case by simp
next
  case (Cons x xs)
  then have "view (run_op x m) = spec_op x (view m)"
    using view_put [OF Cons.prems(1)] view_remove [OF Cons.prems(1)] Cons.prems(2)
    by (cases x) auto
  with Cons show ?case by (simp add: ok_run_op)
qed

lemma remove_put:
  "ok m \<Longrightarrow> valid k \<Longrightarrow> find k m = None \<Longrightarrow> view (remove k (snd (put k v m))) = view m"
  by (simp add: view_remove view_put ok_put) (auto simp: view_def)

lemma find_after_put:
  "ok m \<Longrightarrow> valid k \<Longrightarrow> fst (put k v m) \<Longrightarrow> find k (snd (put k v m)) = Some v"
  by (simp add: find_put put_fresh)

lemma put_again: "ok m \<Longrightarrow> valid k \<Longrightarrow> \<not> fst (put k w (snd (put k v m)))"
  by (auto simp: put_fresh ok_put find_put)

end

end
