(* ===== verification/SessionManager.thy ===== *)
theory SessionManager
  imports Store
begin

text \<open>
  The registry of connections by account id: \<open>session_manager\<close>
  (\<^verbatim>\<open>project/server/session_manager.cpp\<close>). A connection is named by a number (its shared
  pointer); \<open>None\<close> is a null pointer. The account id of a connection is kept by the
  connection, so \<open>session_enter\<close> takes the function that reads it. Every operation of the
  class holds the lock of the map, so each is one step.
\<close>

type_synonym sid = nat
type_synonym registry = "(u64 \<times> sid) list"

definition registry_count :: "registry \<Rightarrow> nat" where
  "registry_count r = length r"

definition session_lookup :: "u64 \<Rightarrow> registry \<Rightarrow> sid option" where
  "session_lookup c r = (if c = 0 then None else map_of r c)"

definition is_exist :: "u64 \<Rightarrow> registry \<Rightarrow> bool" where
  "is_exist c r = (if c = 0 then False else map_of r c \<noteq> None)"

definition session_enter :: "(sid \<Rightarrow> u64) \<Rightarrow> sid option \<Rightarrow> registry \<Rightarrow> bool \<times> registry" where
  "session_enter compid_of p r =
     (case p of
        None \<Rightarrow> (False, r)
      | Some j \<Rightarrow> try_emplace (compid_of j) j r)"

definition session_leave :: "u64 \<Rightarrow> registry \<Rightarrow> registry" where
  "session_leave c r =
     (if c = 0 then r
      else case map_of r c of
        None \<Rightarrow> r
      | Some _ \<Rightarrow> erase_key c r)"

definition in_range_sessions :: "registry \<Rightarrow> sid list option" where
  "in_range_sessions r = (let v = map snd r in if v = [] then None else Some v)"

definition registry_users :: "registry \<Rightarrow> sid list option" where
  "registry_users r = (if r = [] then None else Some (map snd r))"

definition registry_ok :: "registry \<Rightarrow> bool" where
  "registry_ok r \<longleftrightarrow> distinct (map fst r)"

lemma map_of_session_leave:
  "map_of (session_leave c r) = (if c = 0 then map_of r else (map_of r)(c := None))"
  by (auto simp: session_leave_def fun_eq_iff split: option.split)

lemma session_leave_subset: "set (session_leave c r) \<subseteq> set r"
  by (auto simp: session_leave_def set_erase_key split: option.split)

interpretation reg: keyed_store session_lookup "\<lambda>c j. session_enter (\<lambda>_. c) (Some j)" session_leave
    "\<lambda>c. c \<noteq> 0" registry_ok
proof unfold_locales
  show "registry_ok m \<Longrightarrow> registry_ok (snd (session_enter (\<lambda>_. k) (Some v) m))" for m k v
    by (simp add: registry_ok_def session_enter_def distinct_try_emplace)
  show "registry_ok m \<Longrightarrow> registry_ok (session_leave k m)" for m k
    by (auto simp: registry_ok_def session_leave_def distinct_erase_key split: option.split)
qed (auto simp: session_enter_def session_lookup_def map_of_try_emplace map_of_session_leave)

text \<open>The registry refines a partial map from non-zero account ids to connections: any
  sequence of enters and leaves under non-zero ids keeps the keys distinct and changes the
  lookups as inserting when absent and removing do.\<close>

lemma registry_refines_map:
  assumes "distinct (map fst r)" and "\<forall>x \<in> set ops. op_key x \<noteq> 0"
    and "r' = fold (\<lambda>x. case x of Put c j \<Rightarrow> \<lambda>m. snd (session_enter (\<lambda>_. c) (Some j) m)
                               | Remove c \<Rightarrow> session_leave c) ops r"
  shows "distinct (map fst r') \<and>
    (\<lambda>c. session_lookup c r') = fold spec_op ops (\<lambda>c. session_lookup c r)"
proof -
  have op: "(\<lambda>x. case x of Put c j \<Rightarrow> \<lambda>m. snd (session_enter (\<lambda>_. c) (Some j) m)
                        | Remove c \<Rightarrow> session_leave c) = reg.run_op"
    by (rule ext) (simp add: fun_eq_iff split: store_op.split)
  have view: "reg.view m = (\<lambda>c. session_lookup c m)" for m
    unfolding reg.view_def by (auto simp: session_lookup_def)
  show ?thesis
    using reg.run_refines [of r ops] assms unfolding view op registry_ok_def by simp
qed

theorem registry_refines_map_witness:
  "session_lookup 7 (session_leave 5 (snd (session_enter (\<lambda>_. 7) (Some 1)
     (snd (session_enter (\<lambda>_. 5) (Some 0) []))))) = Some 1"
proof -
  let ?ops = "[Put 5 0, Put 7 1, Remove 5] :: (u64, sid) store_op list"
  let ?r = "session_leave 5 (snd (session_enter (\<lambda>_. 7) (Some 1)
     (snd (session_enter (\<lambda>_. 5) (Some 0) []))))"
  have "distinct (map fst ?r) \<and>
      (\<lambda>c. session_lookup c ?r) = fold spec_op ?ops (\<lambda>c. session_lookup c [])"
    by (rule registry_refines_map) simp_all
  then have "session_lookup 7 ?r = fold spec_op ?ops (\<lambda>c. session_lookup c []) 7" by metis
  then show ?thesis by (simp add: session_lookup_def)
qed

text \<open>The registry accepts the account id 0 that none of its other operations accepts: a
  connection entered under 0 is counted, is never found, and no leave removes it.\<close>

lemma registry_zero_leak:
  assumes "compid_of j = 0" and "map_of r 0 = None"
  shows "\<exists>r'. session_enter compid_of (Some j) r = (True, r') \<and>
    (0, j) \<in> set (session_leave 0 r') \<and> session_lookup 0 r' = None \<and>
    (\<forall>c. (0, j) \<in> set (session_leave c r'))"
  using assms
  by (auto simp: session_enter_def try_emplace_def session_leave_def session_lookup_def
      set_erase_key split: option.split)

theorem registry_zero_leak_witness:
  "\<exists>r'. session_enter (\<lambda>_. 0) (Some 3) [] = (True, r') \<and> (0, 3) \<in> set (session_leave 0 r')"
  using registry_zero_leak [of "\<lambda>_. 0" 3 "[]"] by auto

end
