(* ===== verification/Packet.thy ===== *)
theory Packet
  imports Prelude
begin

text \<open>
  The wire format, \<^verbatim>\<open>source/impl/network/packet/{header,inbound,outbound}.h\<close>: the packed
  16-byte header, the (identity) cipher, the receive buffer \<open>inbound\<close> and the send buffer
  \<open>outbound\<close>.

  A pointer argument is a \<open>buffer option\<close> (\<open>None\<close> is \<open>nullptr\<close>). The arrays of the
  classes are buffers; a write past the end of one is the result \<open>None\<close> of \<open>encode\<close>, and
  for \<open>inbound\<close> it is the length of the read that the session starts, which
  \<open>body_in_bounds\<close> compares with the array.
\<close>

section \<open>The header\<close>

record header =
  separator :: u32
  hdr_id :: u16
  hdr_seq :: u16
  hdr_size :: u32
  hdr_crc :: u32

definition header_init :: header where
  "header_init = \<lparr>separator = 0xffe3e4e5, hdr_id = 0, hdr_seq = 0, hdr_size = 0, hdr_crc = 2\<rparr>"

definition packet_size_c :: nat where
  "packet_size_c = 0xffff"

definition header_size_c :: nat where
  "header_size_c = 4 + 2 + 2 + 4 + 4"

definition body_size_c :: nat where
  "body_size_c = packet_size_c - header_size_c - 8"

definition raw_size_c :: nat where
  "raw_size_c = packet_size_c - header_size_c"

lemma packet_consts [simp]:
  "packet_size_c = 65535" "header_size_c = 16" "body_size_c = 65511" "raw_size_c = 65519"
  by (simp_all add: packet_size_c_def header_size_c_def body_size_c_def raw_size_c_def)

text \<open>The bytes of a header in memory (\<^verbatim>\<open>#pragma pack(1)\<close>, little endian), and the header
  read at the start of a byte buffer (\<open>reinterpret_cast< const header* >\<close>).\<close>

definition header_bytes :: "header \<Rightarrow> u8 list" where
  "header_bytes h =
     enc_le 4 (unat (separator h)) @ enc_le 2 (unat (hdr_id h)) @ enc_le 2 (unat (hdr_seq h)) @
     enc_le 4 (unat (hdr_size h)) @ enc_le 4 (unat (hdr_crc h))"

definition header_at :: "buffer \<Rightarrow> header" where
  "header_at b =
     \<lparr>separator = word_of_nat (dec_le (slice b 0 4)),
      hdr_id = word_of_nat (dec_le (slice b 4 2)),
      hdr_seq = word_of_nat (dec_le (slice b 6 2)),
      hdr_size = word_of_nat (dec_le (slice b 8 4)),
      hdr_crc = word_of_nat (dec_le (slice b 12 4))\<rparr>"

lemma length_header_bytes [simp]: "length (header_bytes h) = 16"
  by (simp add: header_bytes_def)

lemma header_at_blit [simp]: "header_at (blit b 0 (header_bytes h)) = h"
  by (cases h) (simp add: header_at_def slice_blit_at header_bytes_def)

lemma header_at_cong: "slice b 0 16 = slice c 0 16 \<Longrightarrow> header_at b = header_at c"
proof -
  assume eq: "slice b 0 16 = slice c 0 16"
  have "slice b k n = slice c k n" if "k + n \<le> 16" for k n
    using arg_cong [OF eq, of "\<lambda>s. take n (drop k s)"] that by (simp add: buf_simps)
  then show ?thesis by (simp add: header_at_def)
qed

section \<open>The cipher\<close>

text \<open>The AES code is commented out in this version: both directions copy their input and
  refuse a null pointer or a size of 0.\<close>

definition encrypt :: "buffer option \<Rightarrow> nat \<Rightarrow> u8 list option" where
  "encrypt source sz =
     (case source of
        None \<Rightarrow> None
      | Some src \<Rightarrow> if sz = 0 then None else Some (slice src 0 sz))"

definition decrypt :: "buffer option \<Rightarrow> nat \<Rightarrow> u8 list option" where
  "decrypt ciphertext sz =
     (case ciphertext of
        None \<Rightarrow> None
      | Some src \<Rightarrow> if sz = 0 then None else Some (slice src 0 sz))"

lemma decrypt_encrypt:
  "encrypt (Some src) n = Some c \<Longrightarrow> decrypt (Some (blit b 0 c)) n = Some (slice src 0 n)"
  by (auto simp: encrypt_def decrypt_def slice_blit_same split: if_splits)

section \<open>The receive buffer\<close>

record inbound =
  in_header :: buffer
  in_body_size :: u16
  in_raw :: buffer

definition inbound_new :: inbound where
  "inbound_new = \<lparr>in_header = zero_buffer, in_body_size = 0, in_raw = zero_buffer\<rparr>"

definition inbound_init :: "inbound \<Rightarrow> inbound" where
  "inbound_init p = p\<lparr>in_header := zero_buffer, in_body_size := 0\<rparr>"

definition header_ptr :: "inbound \<Rightarrow> header" where
  "header_ptr p = header_at (in_header p)"

definition decide :: "inbound \<Rightarrow> inbound" where
  "decide p =
     (let n = (if header_size_c \<le> unat (hdr_size (header_ptr p))
               then ucast (hdr_size (header_ptr p) - 16) else 0) :: u16;
          p' = p\<lparr>in_body_size := n\<rparr>
      in if unat n < raw_size_c then p'\<lparr>in_raw := (in_raw p')(unat n := 0)\<rparr> else p')"

definition body_decode :: "inbound \<Rightarrow> bool \<times> inbound" where
  "body_decode p =
     (case decrypt (Some (in_raw p)) (unat (in_body_size p)) of
        Some res \<Rightarrow> (True, p\<lparr>in_raw := blit (in_raw p) 0 (take (unat (in_body_size p)) res)\<rparr>)
      | None \<Rightarrow> (False, p))"

text \<open>The async_read of a body writes \<open>body_size\<close> bytes from the start of \<open>_raw_body\<close>,
  an array of \<open>_raw_size_\<close> bytes.\<close>

definition body_in_bounds :: "inbound \<Rightarrow> bool" where
  "body_in_bounds p \<longleftrightarrow> unat (in_body_size p) \<le> raw_size_c"

lemma header_ptr_decide [simp]: "header_ptr (decide p) = header_ptr p"
  by (simp add: decide_def header_ptr_def Let_def)

lemma in_header_decide [simp]: "in_header (decide p) = in_header p"
  by (simp add: decide_def Let_def)

lemma in_body_size_decide:
  "unat (in_body_size (decide p)) =
     (let n = unat (hdr_size (header_ptr p)) in if n < 16 then 0 else (n - 16) mod 65536)"
proof (cases "unat (hdr_size (header_ptr p)) < 16")
  case True
  then show ?thesis by (simp add: decide_def Let_def)
next
  case False
  let ?s = "hdr_size (header_ptr p)"
  have "unat (?s - 16) = unat ?s - 16"
    using False by (simp add: unat_sub word_le_nat_alt)
  then have "unat (ucast (?s - 16) :: u16) = (unat ?s - 16) mod 65536"
    by (simp add: unsigned_ucast_eq take_bit_eq_mod)
  with False show ?thesis by (simp add: decide_def Let_def)
qed

lemma body_decode_id: "snd (body_decode p) = p"
  by (auto simp: body_decode_def decrypt_def buf_simps split: option.splits if_splits)

lemma fst_body_decode: "fst (body_decode p) \<longleftrightarrow> in_body_size p \<noteq> 0"
  by (auto simp: body_decode_def decrypt_def unat_eq_zero split: option.splits if_splits)

section \<open>The send buffer\<close>

record outbound =
  buf_use_size :: nat
  out_buffers :: buffer
  out_header :: header

definition outbound_new :: outbound where
  "outbound_new = \<lparr>buf_use_size = 0, out_buffers = zero_buffer, out_header = header_init\<rparr>"

definition outbound_init :: "outbound \<Rightarrow> outbound" where
  "outbound_init p = p\<lparr>buf_use_size := 0\<rparr>"

text \<open>\<open>encode\<close> leaves the buffer alone when the body is null or empty, and has no bound
  check of its own: copying more than \<open>_raw_size_\<close> bytes behind the header leaves the
  array (\<open>None\<close>). The size is a \<open>size_t\<close>, the header field 32 bits wide.\<close>

definition encode :: "outbound \<Rightarrow> u16 \<Rightarrow> buffer option \<Rightarrow> nat \<Rightarrow> outbound option" where
  "encode p id_packet body sz =
     (if sz = 0 \<or> body = None then Some p
      else case encrypt body sz of
        None \<Rightarrow> Some p
      | Some res \<Rightarrow>
          if header_size_c + length res > packet_size_c then None
          else
            let h = (out_header p)\<lparr>hdr_id := id_packet,
                                    hdr_size := 16 + word_of_nat (length res)\<rparr>
            in Some \<lparr>buf_use_size = unat (hdr_size h),
                     out_buffers = blit (blit (out_buffers p) 0 (header_bytes h)) 16 res,
                     out_header = h\<rparr>)"

text \<open>What an async_write of the buffer puts on the wire.\<close>

definition wire :: "outbound \<Rightarrow> u8 list" where
  "wire p = slice (out_buffers p) 0 (buf_use_size p)"

lemma encode_Some:
  assumes "0 < n" "n \<le> 65519"
  shows "encode p i (Some src) n =
    (let h = (out_header p)\<lparr>hdr_id := i, hdr_size := word_of_nat (16 + n)\<rparr>
     in Some \<lparr>buf_use_size = 16 + n,
              out_buffers = blit (blit (out_buffers p) 0 (header_bytes h)) 16 (slice src 0 n),
              out_header = h\<rparr>)"
proof -
  have "unat (word_of_nat (16 + n) :: u32) = 16 + n"
    using assms by (simp only: unat_of_nat) simp
  then show ?thesis using assms by (simp add: encode_def encrypt_def Let_def)
qed

lemma wire_encode:
  assumes "0 < n" "n \<le> 65519" "encode p i (Some src) n = Some q"
  shows "wire q = header_bytes (out_header q) @ slice src 0 n"
    and "out_header q = (out_header p)\<lparr>hdr_id := i, hdr_size := word_of_nat (16 + n)\<rparr>"
    and "buf_use_size q = 16 + n"
  using assms
  by (auto simp: encode_Some Let_def wire_def slice_append slice_blit_same buf_simps)

section \<open>Properties of the packet layer\<close>

text \<open>What a completed async_read of the header, or of the body, leaves in the buffers.\<close>

definition fill_header :: "inbound \<Rightarrow> u8 list \<Rightarrow> inbound" where
  "fill_header p bs = p\<lparr>in_header := blit (in_header p) 0 bs\<rparr>"

definition fill_body :: "inbound \<Rightarrow> u8 list \<Rightarrow> inbound" where
  "fill_body p bs = p\<lparr>in_raw := blit (in_raw p) 0 bs\<rparr>"

lemma header_ptr_fill [simp]:
  "header_ptr (fill_header p (header_bytes h)) = h"
  "header_ptr (fill_body p bs) = header_ptr p"
  by (simp_all add: header_ptr_def fill_header_def fill_body_def)

lemma in_body_size_fill_body [simp]: "in_body_size (fill_body p bs) = in_body_size p"
  by (simp add: fill_body_def)

lemma slice_fill_body: "length bs = n \<Longrightarrow> slice (in_raw (fill_body p bs)) 0 n = bs"
  by (simp add: fill_body_def slice_blit_same)

text \<open>C27. Round trip over the wire: a body of 1 to 65519 bytes encoded by the sender, split
  by the receiver into 16 header bytes and the rest, is decided to have its own size, stays
  in bounds of the receive buffer and is read back with its packet id and contents.\<close>

theorem encode_decide_roundtrip:
  assumes "0 < n" and "n \<le> raw_size_c"
  shows "\<exists>q. encode p i (Some src) n = Some q \<and>
    (let ib = decide (fill_header r (take 16 (wire q)));
         ib' = snd (body_decode (fill_body ib (drop 16 (wire q))))
     in hdr_id (header_ptr ib') = i \<and> unat (in_body_size ib) = n \<and> body_in_bounds ib \<and>
        length (drop 16 (wire q)) = n \<and> slice (in_raw ib') 0 n = slice src 0 n)"
proof -
  have n: "n \<le> 65519" using assms(2) by simp
  obtain q where q: "encode p i (Some src) n = Some q"
    using encode_Some [OF assms(1) n] by (simp add: Let_def)
  note w = wire_encode [OF assms(1) n q]
  have "unat (word_of_nat (16 + n) :: u32) = 16 + n"
    using n by (simp only: unat_of_nat) simp
  then have "unat (in_body_size (decide (fill_header r (header_bytes (out_header q))))) = n"
    using n assms(1) by (simp add: in_body_size_decide w(2) Let_def)
  with q n show ?thesis
    by (simp add: w(1,2) Let_def body_decode_id body_in_bounds_def slice_fill_body)
qed

theorem encode_decide_roundtrip_witness:
  "\<exists>q. encode outbound_new 1000 (Some (\<lambda>i. word_of_nat i)) 3 = Some q \<and>
    (let ib = decide (fill_header inbound_new (take 16 (wire q)));
         ib' = snd (body_decode (fill_body ib (drop 16 (wire q))))
     in hdr_id (header_ptr ib') = 1000 \<and> unat (in_body_size ib) = 3 \<and> body_in_bounds ib \<and>
        length (drop 16 (wire q)) = 3 \<and>
        slice (in_raw ib') 0 3 = slice (\<lambda>i. word_of_nat i) 0 3)"
  by (rule encode_decide_roundtrip) simp_all

text \<open>The body length taken from a received header fits the receive buffer exactly when
  the header's size field is below 16 or, minus 16 and modulo 65536, at most 65519: the
  16-bit cast in \<open>decide\<close> does not bound the length by the buffer.\<close>

lemma decide_in_bounds_iff:
  "body_in_bounds (decide p) \<longleftrightarrow>
     \<not> (16 \<le> unat (hdr_size (header_ptr p)) \<and>
        65519 < (unat (hdr_size (header_ptr p)) - 16) mod 65536)"
  by (auto simp: body_in_bounds_def in_body_size_decide Let_def)

text \<open>Encoding leaves the send buffer's array exactly when the body is present and longer
  than 65519 bytes; the caller's size is not checked.\<close>

lemma encode_overflow_iff:
  "encode p i b n = None \<longleftrightarrow> b \<noteq> None \<and> raw_size_c < n"
  by (auto simp: encode_def encrypt_def Let_def split: option.splits)

end
