(* ===== verification/PacketPool.thy ===== *)
theory PacketPool
  imports Packet
begin

text \<open>
  The packet pools of a connection. The server's \<open>primitive_session\<close>
  (\<^verbatim>\<open>source/impl/network/server/{primitive_session.h,server.cpp}\<close>) keeps one deque of send
  buffers and one of receive buffers; the client keeps its own
  (\<^verbatim>\<open>project/dummy/{base_session,base_handler}.cpp\<close>). The contract they share is the locale
  \<open>packet_pool\<close>, interpreted on all four.

  The first argument of an allocation says whether the heap has memory: without it
  \<open>operator new\<close> throws, the code catches, logs and returns no packet.
\<close>

section \<open>The interface\<close>

locale packet_pool =
  fixes alloc :: "bool \<Rightarrow> 'p list \<Rightarrow> 'p option \<times> 'p list"
    and dealloc :: "'p \<Rightarrow> 'p list \<Rightarrow> 'p list"
    and clean :: "'p \<Rightarrow> bool"
    and limit :: nat
  assumes alloc_pooled: "alloc m (p # ps) = (Some p, ps)"
    and alloc_fresh: "\<exists>p. alloc True [] = (Some p, []) \<and> clean p"
    and alloc_exhausted: "alloc False [] = (None, [])"
    and dealloc_room:
      "length ps < limit \<Longrightarrow> \<exists>p'. dealloc p ps = ps @ [p'] \<and> clean p'"
    and dealloc_full: "limit \<le> length ps \<Longrightarrow> dealloc p ps = ps"
begin

definition pool_ok :: "'p list \<Rightarrow> bool" where
  "pool_ok ps \<longleftrightarrow> length ps \<le> limit \<and> (\<forall>p \<in> set ps. clean p)"

lemma alloc_cases:
  obtains (pooled) p ps' where "ps = p # ps'" "alloc m ps = (Some p, ps')"
  | (fresh) p where "ps = []" "m" "alloc m ps = (Some p, [])" "clean p"
  | (none) "ps = []" "\<not> m" "alloc m ps = (None, [])"
proof (cases ps)
  case Nil
  then show thesis using alloc_fresh alloc_exhausted fresh none by (cases m) auto
next
  case (Cons p ps')
  then show thesis using alloc_pooled pooled by simp
qed

lemma pool_ok_alloc: "pool_ok ps \<Longrightarrow> pool_ok (snd (alloc m ps))"
  by (rule alloc_cases [of ps m]) (auto simp: pool_ok_def)

lemma alloc_clean: "pool_ok ps \<Longrightarrow> fst (alloc m ps) = Some p \<Longrightarrow> clean p"
  by (rule alloc_cases [of ps m]) (auto simp: pool_ok_def)

lemma alloc_succeeds: "m \<or> ps \<noteq> [] \<Longrightarrow> fst (alloc m ps) \<noteq> None"
  by (rule alloc_cases [of ps m]) auto

lemma pool_ok_dealloc: "pool_ok ps \<Longrightarrow> pool_ok (dealloc p ps)"
  using dealloc_room [of ps p] dealloc_full [of ps p]
  by (cases "length ps < limit") (auto simp: pool_ok_def)

lemma length_dealloc: "length (dealloc p ps) = (if length ps < limit then Suc (length ps) else length ps)"
  using dealloc_room [of ps p] dealloc_full [of ps p] by (cases "length ps < limit") auto

text \<open>Any sequence of allocations (\<open>Inl\<close>) and returns (\<open>Inr\<close>) keeps the pool bounded and
  clean.\<close>

fun pool_run :: "(bool + 'p) list \<Rightarrow> 'p list \<Rightarrow> 'p list" where
  "pool_run [] ps = ps"
| "pool_run (Inl m # ops) ps = pool_run ops (snd (alloc m ps))"
| "pool_run (Inr p # ops) ps = pool_run ops (dealloc p ps)"

lemma pool_ok_run: "pool_ok ps \<Longrightarrow> pool_ok (pool_run ops ps)"
  by (induction ops ps rule: pool_run.induct) (simp_all add: pool_ok_alloc pool_ok_dealloc)

end

section \<open>The server's pools\<close>

definition default_pool_size :: nat where "default_pool_size = 4"

definition max_pool_size :: nat where "max_pool_size = 8"

lemma pool_sizes: "default_pool_size = 4" "max_pool_size = 8"
  by (simp_all add: default_pool_size_def max_pool_size_def)

text \<open>The constructor's loop: each round makes one send buffer and then one receive
  buffer; an allocation that throws ends its round only. \<open>mem i\<close> says whether round \<open>i\<close>
  gets its send buffer and its receive buffer.\<close>

definition clamp_pool_size :: "nat \<Rightarrow> nat" where
  "clamp_pool_size n =
     (if n < default_pool_size \<or> max_pool_size < n then default_pool_size else n)"

fun fill_pools :: "(nat \<Rightarrow> bool \<times> bool) \<Rightarrow> nat \<Rightarrow> outbound list \<times> inbound list" where
  "fill_pools mem 0 = ([], [])"
| "fill_pools mem (Suc i) =
     (let (outs, ins) = fill_pools mem i
      in (if fst (mem i) then outs @ [outbound_init outbound_new] else outs,
          if fst (mem i) \<and> snd (mem i) then ins @ [inbound_init inbound_new] else ins))"

definition new_pools :: "(nat \<Rightarrow> bool \<times> bool) \<Rightarrow> nat \<Rightarrow> outbound list \<times> inbound list" where
  "new_pools mem n = fill_pools mem (clamp_pool_size n)"

definition alloc_outbound :: "bool \<Rightarrow> outbound list \<Rightarrow> outbound option \<times> outbound list" where
  "alloc_outbound mem pool =
     (case pool of
        p # ps \<Rightarrow> (Some p, ps)
      | [] \<Rightarrow> if mem then (Some (outbound_init outbound_new), []) else (None, []))"

definition dealloc_outbound :: "outbound \<Rightarrow> outbound list \<Rightarrow> outbound list" where
  "dealloc_outbound p pool =
     (if default_pool_size \<le> length pool then pool else pool @ [outbound_init p])"

definition alloc_inbound :: "bool \<Rightarrow> inbound list \<Rightarrow> inbound option \<times> inbound list" where
  "alloc_inbound mem pool =
     (case pool of
        p # ps \<Rightarrow> (Some p, ps)
      | [] \<Rightarrow> if mem then (Some (inbound_init inbound_new), []) else (None, []))"

definition dealloc_inbound :: "inbound \<Rightarrow> inbound list \<Rightarrow> inbound list" where
  "dealloc_inbound p pool =
     (if max_pool_size \<le> length pool then pool else pool @ [inbound_init p])"

definition outbound_clean :: "outbound \<Rightarrow> bool" where
  "outbound_clean p \<longleftrightarrow> buf_use_size p = 0"

definition inbound_clean :: "inbound \<Rightarrow> bool" where
  "inbound_clean p \<longleftrightarrow> in_header p = zero_buffer \<and> in_body_size p = 0"

lemma clean_init [simp]: "outbound_clean (outbound_init p)" "inbound_clean (inbound_init q)"
  by (simp_all add: outbound_clean_def outbound_init_def inbound_clean_def inbound_init_def)

interpretation out_pool: packet_pool alloc_outbound dealloc_outbound outbound_clean default_pool_size
  by unfold_locales (auto simp: alloc_outbound_def dealloc_outbound_def)

interpretation in_pool: packet_pool alloc_inbound dealloc_inbound inbound_clean max_pool_size
  by unfold_locales (auto simp: alloc_inbound_def dealloc_inbound_def)

lemma clamp_pool_size_bounds: "4 \<le> clamp_pool_size n \<and> clamp_pool_size n \<le> 8"
  by (simp add: clamp_pool_size_def pool_sizes)

lemma fill_pools_props:
  "length (fst (fill_pools mem i)) \<le> i \<and> length (snd (fill_pools mem i)) \<le> length (fst (fill_pools mem i)) \<and>
   (\<forall>p \<in> set (fst (fill_pools mem i)). outbound_clean p) \<and>
   (\<forall>p \<in> set (snd (fill_pools mem i)). inbound_clean p)"
  by (induction i) (auto simp: Let_def split: prod.splits)

text \<open>With memory for every round both pools hold the requested number of buffers.\<close>

lemma fill_pools_full:
  "(\<And>i. mem i = (True, True)) \<Longrightarrow>
   length (fst (fill_pools mem n)) = n \<and> length (snd (fill_pools mem n)) = n"
  by (induction n) (auto simp: Let_def split: prod.splits)

text \<open>A server connection's receive pool: whatever sequence of allocations and returns
  follows its construction, it holds at most 8 buffers, every one reset to a zero header and
  a zero body size, and while memory is available an allocation gives a reset buffer.\<close>

lemma inbound_pool_invariant:
  assumes "pool = foldl (\<lambda>ps r. case r of Inl m \<Rightarrow> snd (alloc_inbound m ps)
                                      | Inr p \<Rightarrow> dealloc_inbound p ps)
                    (snd (new_pools mem n)) ops"
  shows "length pool \<le> max_pool_size \<and> (\<forall>p \<in> set pool. inbound_clean p) \<and>
    (\<exists>p. fst (alloc_inbound True pool) = Some p \<and> inbound_clean p)"
proof -
  have run: "foldl (\<lambda>ps r. case r of Inl m \<Rightarrow> snd (alloc_inbound m ps)
                                 | Inr p \<Rightarrow> dealloc_inbound p ps) ps ops =
             in_pool.pool_run ops ps" for ps
    by (induction ops ps rule: in_pool.pool_run.induct) simp_all
  have "in_pool.pool_ok (snd (new_pools mem n))"
    using fill_pools_props [of mem "clamp_pool_size n"] clamp_pool_size_bounds [of n]
    unfolding in_pool.pool_ok_def new_pools_def by (auto simp: pool_sizes)
  then have ok: "in_pool.pool_ok pool"
    by (simp add: assms run in_pool.pool_ok_run)
  then have "length pool \<le> max_pool_size \<and> (\<forall>p \<in> set pool. inbound_clean p)"
    unfolding in_pool.pool_ok_def .
  then show ?thesis
    using in_pool.alloc_succeeds [of True pool] in_pool.alloc_clean [OF ok] by auto
qed

theorem inbound_pool_invariant_witness:
  "\<exists>pool. pool = dealloc_inbound inbound_new (snd (alloc_inbound True
     (snd (new_pools (\<lambda>_. (True, True)) 4)))) \<and> length pool \<le> max_pool_size"
  using inbound_pool_invariant [of _ "\<lambda>_. (True, True)" 4 "[Inl True, Inr inbound_new]"]
  by simp

end
