(* ===== verification/ServerSession.thy ===== *)
theory ServerSession
  imports PacketPool
begin

text \<open>
  One server connection: \<open>tcp_session\<close> (\<^verbatim>\<open>source/impl/network/server/tcp_session.ipp\<close>) with
  its bases \<open>primitive_session\<close> and \<open>interface_session\<close> (\<^verbatim>\<open>server.cpp\<close>) and the
  account id of the application's \<open>session\<close> (\<^verbatim>\<open>project/server/session.cpp\<close>).

  The asio runtime is the environment of the model, kept as the operations it still has to
  complete: \<open>reads\<close> and \<open>writes\<close> are the asynchronous operations in flight,
  \<open>strand\<close> the functions queued on the connection's strand and \<open>deallocs\<close> the send
  buffers whose return to the pool was posted to the io_context. A function dispatched from
  inside the strand runs at once, from outside it is queued (\<open>in_strand\<close>). Test and
  update of the atomic flag in \<open>on_close\<close> are one step here. Log output is left out.

  \<open>fault\<close> records the first behaviour the language gives no meaning to: an access
  outside an array, or an exception that leaves a handler and terminates the process.
  \<open>trace\<close> is a history variable that no operation reads: the packets queued for sending,
  the writes started and the packets routed, in order, and the handler's enter and leave
  calls.
\<close>

section \<open>State\<close>

datatype error_code = Eof | Connection_reset | Connection_aborted | Operation_aborted | Other_error int

datatype fault = Out_of_bounds | Terminate

datatype read_op = Read_header | Read_body nat

datatype write_op = Write_queued outbound | Write_fast outbound

datatype task = Task_user_enter | Task_close | Task_user_leave | Task_send outbound | Task_fast_send outbound

datatype observation =
    Obs_queued outbound
  | Obs_write outbound
  | Obs_fast_write outbound
  | Obs_route inbound
  | Obs_enter
  | Obs_leave

record session =
  compid :: u64
  socket_ip :: string
  socket_port :: u16
  keep_alive_flag :: bool
  is_connected :: bool
  cur_inbound :: "inbound option"
  inbound_q :: "inbound list"
  outbound_q :: "outbound list"
  inbound_pool :: "inbound list"
  outbound_pool :: "outbound list"
  sock_open :: bool
  reads :: "read_op list"
  writes :: "write_op list"
  strand :: "task list"
  deallocs :: "outbound list"
  fault :: "fault option"
  trace :: "observation list"

definition emit :: "observation \<Rightarrow> session \<Rightarrow> session" where
  "emit x s = s\<lparr>trace := trace s @ [x]\<rparr>"

definition session_new :: "(nat \<Rightarrow> bool \<times> bool) \<Rightarrow> session" where
  "session_new mem =
     (let (outs, ins) = new_pools mem default_pool_size
      in \<lparr>compid = 0, socket_ip = [], socket_port = 0, keep_alive_flag = False,
          is_connected = False, cur_inbound = None, inbound_q = [], outbound_q = [],
          inbound_pool = ins, outbound_pool = outs, sock_open = True, reads = [], writes = [],
          strand = [], deallocs = [], fault = None, trace = []\<rparr>)"

definition raise_fault :: "fault \<Rightarrow> session \<Rightarrow> session" where
  "raise_fault f s = (if fault s = None then s\<lparr>fault := Some f\<rparr> else s)"

definition set_compid :: "u64 \<Rightarrow> session \<Rightarrow> bool \<times> session" where
  "set_compid c s = (if c = 0 then (False, s) else (True, s\<lparr>compid := c\<rparr>))"

definition set_keep_alive_flag :: "session \<Rightarrow> session" where
  "set_keep_alive_flag s = s\<lparr>keep_alive_flag := True\<rparr>"

definition init_keep_alive_flag :: "session \<Rightarrow> session" where
  "init_keep_alive_flag s = s\<lparr>keep_alive_flag := False\<rparr>"

section \<open>Closing\<close>

text \<open>The function \<open>on_close\<close> dispatches to the strand: cancel, shut down and close the
  socket (whose errors are only logged), then post the handler's \<open>on_user_leave\<close>.\<close>

definition close_task :: "session \<Rightarrow> session" where
  "close_task s = s\<lparr>sock_open := False, strand := strand s @ [Task_user_leave]\<rparr>"

definition on_close :: "bool \<Rightarrow> session \<Rightarrow> session" where
  "on_close in_strand s =
     (if \<not> is_connected s then s
      else let s1 = s\<lparr>is_connected := False\<rparr>
           in if in_strand then close_task s1 else s1\<lparr>strand := strand s1 @ [Task_close]\<rparr>)"

section \<open>Receiving\<close>

definition session_alloc_inbound :: "bool \<Rightarrow> session \<Rightarrow> inbound option \<times> session" where
  "session_alloc_inbound mem s =
     (let (p, ps) = alloc_inbound mem (inbound_pool s) in (p, s\<lparr>inbound_pool := ps\<rparr>))"

definition async_read_header :: "session \<Rightarrow> session" where
  "async_read_header s = s\<lparr>reads := reads s @ [Read_header]\<rparr>"

definition async_read_body :: "nat \<Rightarrow> session \<Rightarrow> session" where
  "async_read_body n s =
     (let s1 = s\<lparr>reads := reads s @ [Read_body n]\<rparr>
      in if raw_size_c < n then raise_fault Out_of_bounds s1 else s1)"

definition start :: "bool \<Rightarrow> string \<Rightarrow> u16 \<Rightarrow> session \<Rightarrow> session" where
  "start mem ip port s =
     (let s1 = s\<lparr>socket_ip := ip, socket_port := port, is_connected := True\<rparr>;
          (p, s2) = session_alloc_inbound mem s1
      in case p of
           None \<Rightarrow> on_close False s2
         | Some q \<Rightarrow>
             let s3 = async_read_header (s2\<lparr>cur_inbound := Some q\<rparr>)
             in s3\<lparr>strand := strand s3 @ [Task_user_enter]\<rparr>)"

text \<open>The end of \<open>read_header\<close> (a packet without a body) and of \<open>read_body\<close>: the
  finished packet is taken out, a fresh buffer is allocated and the next header is read; when
  the scope ends the packet is routed, so it is part of the result.\<close>

definition next_header :: "bool \<Rightarrow> inbound \<Rightarrow> session \<Rightarrow> session \<times> inbound option" where
  "next_header mem done s =
     (let (p, s1) = session_alloc_inbound mem (s\<lparr>cur_inbound := None\<rparr>)
      in case p of
           None \<Rightarrow> (on_close True s1, Some done)
         | Some q \<Rightarrow>
             let s2 = s1\<lparr>cur_inbound := Some q\<rparr>
             in if \<not> is_connected s2 then (s2, Some done)
                else (async_read_header s2, Some done))"

definition read_header :: "bool \<Rightarrow> error_code option \<Rightarrow> nat \<Rightarrow> session \<Rightarrow> session \<times> inbound option" where
  "read_header mem ec bytes_transferred s =
     (case cur_inbound s of
        None \<Rightarrow> (on_close True s, None)
      | Some p \<Rightarrow>
          if ec \<noteq> None then (on_close True s, None)
          else if bytes_transferred = 0 then
            (if \<not> is_connected s then (s, None)
             else (async_read_header (s\<lparr>cur_inbound := Some (inbound_init p)\<rparr>), None))
          else if header_size_c \<noteq> bytes_transferred then (on_close True s, None)
          else
            let s1 = set_keep_alive_flag s; p1 = decide p; s2 = s1\<lparr>cur_inbound := Some p1\<rparr>
            in if 0 < unat (in_body_size p1) then
                 (if \<not> is_connected s2 then (s2, None)
                  else (async_read_body (unat (in_body_size p1)) s2, None))
               else next_header mem p1 s2)"

definition read_body :: "bool \<Rightarrow> error_code option \<Rightarrow> nat \<Rightarrow> session \<Rightarrow> session \<times> inbound option" where
  "read_body mem ec bytes_transferred s =
     (case cur_inbound s of
        None \<Rightarrow> (on_close True s, None)
      | Some p \<Rightarrow>
          if ec \<noteq> None then (on_close True s, None)
          else if bytes_transferred \<noteq> unat (in_body_size p) then (on_close True s, None)
          else next_header mem (snd (body_decode p)) s)"

text \<open>\<open>route\<close> queues the packet; the flag says that \<open>route_poll\<close> is dispatched, which
  from inside the strand is a call.\<close>

definition route :: "inbound option \<Rightarrow> session \<Rightarrow> bool \<times> session" where
  "route p s =
     (case p of
        None \<Rightarrow> (False, on_close True s)
      | Some q \<Rightarrow>
          let s1 = s\<lparr>inbound_q := inbound_q s @ [q]\<rparr>
          in (\<not> 1 < length (inbound_q s1), s1))"

definition session_dealloc_inbound :: "inbound \<Rightarrow> session \<Rightarrow> session" where
  "session_dealloc_inbound p s = s\<lparr>inbound_pool := dealloc_inbound p (inbound_pool s)\<rparr>"

text \<open>\<open>route_poll\<close> over the state \<open>'w\<close> that the handler's \<open>on_route\<close> works on, with
  this connection read by \<open>get\<close> and changed by \<open>upd\<close>. The handler's result is \<open>None\<close>
  when an exception leaves it. The code calls itself while the queue is not empty; \<open>n\<close>
  bounds the calls.\<close>

fun route_poll ::
  "nat \<Rightarrow> ('w \<Rightarrow> session) \<Rightarrow> ((session \<Rightarrow> session) \<Rightarrow> 'w \<Rightarrow> 'w) \<Rightarrow>
   ('w \<Rightarrow> inbound \<Rightarrow> bool option \<times> 'w) \<Rightarrow> 'w \<Rightarrow> 'w" where
  "route_poll 0 get upd on_route w = w"
| "route_poll (Suc n) get upd on_route w =
     (case inbound_q (get w) of
        [] \<Rightarrow> w
      | p # ps \<Rightarrow>
          let w1 = upd (\<lambda>s. emit (Obs_route p) (s\<lparr>inbound_q := ps\<rparr>)) w
          in case on_route w1 p of
               (None, w2) \<Rightarrow> upd (raise_fault Terminate) w2
             | (Some ok, w2) \<Rightarrow>
                 let w3 = (if \<not> ok then upd (on_close True) w2 else w2);
                     w4 = upd (session_dealloc_inbound p) w3
                 in if inbound_q (get w4) = [] then w4
                    else route_poll n get upd on_route w4)"

section \<open>Sending\<close>

definition session_alloc_outbound :: "bool \<Rightarrow> session \<Rightarrow> outbound option \<times> session" where
  "session_alloc_outbound mem s =
     (let (p, ps) = alloc_outbound mem (outbound_pool s) in (p, s\<lparr>outbound_pool := ps\<rparr>))"

definition async_write_front :: "session \<Rightarrow> session" where
  "async_write_front s =
     (case outbound_q s of
        [] \<Rightarrow> s
      | p # _ \<Rightarrow> emit (Obs_write p) (s\<lparr>writes := writes s @ [Write_queued p]\<rparr>))"

definition send_task :: "outbound \<Rightarrow> session \<Rightarrow> session" where
  "send_task out s =
     (let s1 = emit (Obs_queued out) (s\<lparr>outbound_q := outbound_q s @ [out]\<rparr>)
      in if 1 < length (outbound_q s1) then s1
         else if \<not> is_connected s1 then s1
         else async_write_front s1)"

definition on_send :: "bool \<Rightarrow> outbound option \<Rightarrow> session \<Rightarrow> bool \<times> session" where
  "on_send in_strand out s =
     (case out of
        None \<Rightarrow> (False, s)
      | Some p \<Rightarrow>
          if \<not> is_connected s then (False, s)
          else if in_strand then (True, send_task p s)
          else (True, s\<lparr>strand := strand s @ [Task_send p]\<rparr>))"

definition fast_send_task :: "outbound \<Rightarrow> session \<Rightarrow> session" where
  "fast_send_task out s =
     (if \<not> is_connected s then s
      else emit (Obs_fast_write out) (s\<lparr>writes := writes s @ [Write_fast out]\<rparr>))"

definition on_fast_send :: "bool \<Rightarrow> outbound option \<Rightarrow> session \<Rightarrow> bool \<times> session" where
  "on_fast_send in_strand out s =
     (case out of
        None \<Rightarrow> (False, s)
      | Some p \<Rightarrow>
          if \<not> is_connected s then (False, s)
          else if in_strand then (True, fast_send_task p s)
          else (True, s\<lparr>strand := strand s @ [Task_fast_send p]\<rparr>))"

definition send :: "bool \<Rightarrow> bool \<Rightarrow> u16 \<Rightarrow> buffer option \<Rightarrow> nat \<Rightarrow> session \<Rightarrow> bool \<times> session" where
  "send in_strand mem packet_id body n s =
     (if \<not> is_connected s then (False, s)
      else case session_alloc_outbound mem s of
        (None, s1) \<Rightarrow> (False, s1)
      | (Some out, s1) \<Rightarrow>
          (case encode out packet_id body n of
             None \<Rightarrow> (False, raise_fault Out_of_bounds s1)
           | Some out1 \<Rightarrow> on_send in_strand (Some out1) s1))"

definition fast_send :: "bool \<Rightarrow> u16 \<Rightarrow> buffer option \<Rightarrow> nat \<Rightarrow> session \<Rightarrow> bool \<times> session" where
  "fast_send in_strand packet_id body n s =
     (if \<not> is_connected s then (False, s)
      else case encode outbound_new packet_id body n of
             None \<Rightarrow> (False, raise_fault Out_of_bounds s)
           | Some out \<Rightarrow> on_fast_send in_strand (Some out) s)"

text \<open>The completion of a queued write: the front packet leaves the queue, its return to the
  pool is posted, and the next one is written.\<close>

definition write_done :: "error_code option \<Rightarrow> session \<Rightarrow> session" where
  "write_done ec s =
     (let s1 = (if ec \<noteq> None then on_close True s else s)
      in case outbound_q s1 of
           [] \<Rightarrow> on_close True s1
         | pk # q \<Rightarrow>
             let s2 = s1\<lparr>outbound_q := q, deallocs := deallocs s1 @ [pk]\<rparr>
             in if ec = None \<and> q \<noteq> [] \<and> is_connected s2 then async_write_front s2 else s2)"

definition run_dealloc :: "session \<Rightarrow> session" where
  "run_dealloc s =
     (case deallocs s of
        [] \<Rightarrow> s
      | p # ps \<Rightarrow> s\<lparr>deallocs := ps, outbound_pool := dealloc_outbound p (outbound_pool s)\<rparr>)"

end
