(* ===== verification/SessionStep.thy ===== *)
theory SessionStep
  imports ServerSession
begin

text \<open>
  A connection as a state machine: the calls a handler or another thread can make on it
  (\<open>api\<close>), the events of the runtime, one rule per kind of event, and the invariant that
  every reachable state satisfies. The handler is left open: what its \<open>on_route\<close>,
  \<open>on_user_enter\<close> and \<open>on_user_leave\<close> do with the connection is an arbitrary list of
  calls, carried by the event.
\<close>

section \<open>Events and steps\<close>

datatype api =
    Api_send bool u16 "buffer option" nat
  | Api_fast_send u16 "buffer option" nat
  | Api_close
  | Api_set_compid u64
  | Api_set_keep_alive
  | Api_init_keep_alive

fun api_call :: "bool \<Rightarrow> api \<Rightarrow> session \<Rightarrow> session" where
  "api_call in_strand (Api_send mem i b n) s = snd (send in_strand mem i b n s)"
| "api_call in_strand (Api_fast_send i b n) s = snd (fast_send in_strand i b n s)"
| "api_call in_strand Api_close s = on_close in_strand s"
| "api_call in_strand (Api_set_compid c) s = snd (set_compid c s)"
| "api_call in_strand Api_set_keep_alive s = set_keep_alive_flag s"
| "api_call in_strand Api_init_keep_alive s = init_keep_alive_flag s"

definition handler_calls :: "api list \<Rightarrow> session \<Rightarrow> session" where
  "handler_calls calls s = fold (api_call True) calls s"

fun run_task :: "api list \<Rightarrow> task \<Rightarrow> session \<Rightarrow> session" where
  "run_task calls Task_user_enter s = handler_calls calls (emit Obs_enter s)"
| "run_task calls Task_user_leave s = handler_calls calls (emit Obs_leave s)"
| "run_task calls Task_close s = close_task s"
| "run_task calls (Task_send p) s = send_task p s"
| "run_task calls (Task_fast_send p) s = fast_send_task p s"

text \<open>Routing a finished packet to the handler: its result and its calls.\<close>

definition deliver :: "(bool option \<times> api list) \<Rightarrow> inbound option \<Rightarrow> session \<Rightarrow> session" where
  "deliver h r s =
     (case r of
        None \<Rightarrow> s
      | Some p \<Rightarrow>
          let (poll, s1) = route (Some p) s
          in if poll
             then route_poll (length (inbound_q s1)) (\<lambda>x. x) (\<lambda>f. f)
                    (\<lambda>x q. (fst h, handler_calls (snd h) x)) s1
             else s1)"

definition finish_header ::
  "bool \<Rightarrow> error_code option \<Rightarrow> u8 list \<Rightarrow> (bool option \<times> api list) \<Rightarrow> session \<Rightarrow> session" where
  "finish_header mem ec bs h s =
     (let s1 = s\<lparr>cur_inbound := map_option (\<lambda>p. fill_header p bs) (cur_inbound s)\<rparr>;
          (s2, r) = read_header mem ec (length bs) s1
      in deliver h r s2)"

definition finish_body ::
  "bool \<Rightarrow> error_code option \<Rightarrow> u8 list \<Rightarrow> (bool option \<times> api list) \<Rightarrow> session \<Rightarrow> session" where
  "finish_body mem ec bs h s =
     (let s1 = s\<lparr>cur_inbound := map_option (\<lambda>p. fill_body p bs) (cur_inbound s)\<rparr>;
          (s2, r) = read_body mem ec (length bs) s1
      in deliver h r s2)"

datatype event =
    Ev_api api
  | Ev_task "api list"
  | Ev_header bool "error_code option" "u8 list" "bool option \<times> api list"
  | Ev_body bool "error_code option" "u8 list" "bool option \<times> api list"
  | Ev_write "error_code option" outbound
  | Ev_fast_write outbound
  | Ev_dealloc

text \<open>asio's contract for \<open>async_read\<close>: at most the bytes asked for, all of them without an
  error. A process whose behaviour is undefined, or that terminated, takes no step.\<close>

inductive sess_step :: "session \<Rightarrow> event \<Rightarrow> session \<Rightarrow> bool" where
  step_api: "fault s = None \<Longrightarrow> sess_step s (Ev_api a) (api_call False a s)"
| step_task: "fault s = None \<Longrightarrow> strand s = t # ts \<Longrightarrow>
    sess_step s (Ev_task calls) (run_task calls t (s\<lparr>strand := ts\<rparr>))"
| step_header: "fault s = None \<Longrightarrow> reads s = Read_header # rs \<Longrightarrow>
    length bs \<le> header_size_c \<Longrightarrow> ec = None \<longrightarrow> length bs = header_size_c \<Longrightarrow>
    sess_step s (Ev_header mem ec bs h) (finish_header mem ec bs h (s\<lparr>reads := rs\<rparr>))"
| step_body: "fault s = None \<Longrightarrow> reads s = Read_body n # rs \<Longrightarrow>
    length bs \<le> n \<Longrightarrow> ec = None \<longrightarrow> length bs = n \<Longrightarrow>
    sess_step s (Ev_body mem ec bs h) (finish_body mem ec bs h (s\<lparr>reads := rs\<rparr>))"
| step_write: "fault s = None \<Longrightarrow> writes s = xs @ Write_queued p # ys \<Longrightarrow>
    sess_step s (Ev_write ec p) (write_done ec (s\<lparr>writes := xs @ ys\<rparr>))"
| step_fast_write: "fault s = None \<Longrightarrow> writes s = xs @ Write_fast p # ys \<Longrightarrow>
    sess_step s (Ev_fast_write p) (s\<lparr>writes := xs @ ys\<rparr>)"
| step_dealloc: "fault s = None \<Longrightarrow> deallocs s \<noteq> [] \<Longrightarrow> sess_step s Ev_dealloc (run_dealloc s)"

inductive sess_run :: "session \<Rightarrow> event list \<Rightarrow> session \<Rightarrow> bool" where
  run_Nil: "sess_run s [] s"
| run_snoc: "sess_run s es t \<Longrightarrow> sess_step t e u \<Longrightarrow> sess_run s (es @ [e]) u"

inductive_cases sess_step_cases: "sess_step s e t"
inductive_simps sess_run_Nil_iff [simp]: "sess_run s [] t"

text \<open>The states of a connection: \<open>start\<close> on a new object, then any run.\<close>

definition reachable :: "session \<Rightarrow> bool" where
  "reachable t \<longleftrightarrow> (\<exists>mems mem ip port es. sess_run (start mem ip port (session_new mems)) es t)"

lemma reachable_induct [consumes 1, case_names start step]:
  assumes "reachable t"
    and "\<And>mems mem ip port. P (start mem ip port (session_new mems))"
    and "\<And>s e t. reachable s \<Longrightarrow> P s \<Longrightarrow> sess_step s e t \<Longrightarrow> P t"
  shows "P t"
proof -
  from assms(1) obtain mems mem ip port es
    where "sess_run (start mem ip port (session_new mems)) es t"
    by (auto simp: reachable_def)
  then have "reachable t \<and> P t"
  proof (induction "start mem ip port (session_new mems)" es t rule: sess_run.induct)
    case run_Nil
    show ?case unfolding reachable_def using assms(2) sess_run.run_Nil by blast
  next
    case (run_snoc es t e u)
    then show ?case unfolding reachable_def using assms(3) [unfolded reachable_def] sess_run.run_snoc
      by blast
  qed
  then show ?thesis ..
qed

lemma reachable_step: "reachable s \<Longrightarrow> sess_step s e t \<Longrightarrow> reachable t"
  unfolding reachable_def using sess_run.run_snoc by blast

lemma reachable_start: "reachable (start mem ip port (session_new mems))"
  unfolding reachable_def using sess_run.run_Nil by blast

section \<open>The invariant\<close>

fun queued_writes :: "write_op list \<Rightarrow> outbound list" where
  "queued_writes [] = []"
| "queued_writes (Write_queued p # ws) = p # queued_writes ws"
| "queued_writes (Write_fast p # ws) = queued_writes ws"

fun queued_obs :: "observation list \<Rightarrow> outbound list" where
  "queued_obs [] = []"
| "queued_obs (Obs_queued p # xs) = p # queued_obs xs"
| "queued_obs (_ # xs) = queued_obs xs"

fun write_obs :: "observation list \<Rightarrow> outbound list" where
  "write_obs [] = []"
| "write_obs (Obs_write p # xs) = p # write_obs xs"
| "write_obs (_ # xs) = write_obs xs"

fun leave_tasks :: "task list \<Rightarrow> nat" where
  "leave_tasks [] = 0"
| "leave_tasks (t # ts) = (if t = Task_close \<or> t = Task_user_leave then 1 else 0) + leave_tasks ts"

fun leave_obs :: "observation list \<Rightarrow> nat" where
  "leave_obs [] = 0"
| "leave_obs (x # xs) = (if x = Obs_leave then 1 else 0) + leave_obs xs"

lemma queued_writes_append [simp]: "queued_writes (xs @ ys) = queued_writes xs @ queued_writes ys"
  by (induction xs rule: queued_writes.induct) auto

lemma queued_obs_append [simp]: "queued_obs (xs @ ys) = queued_obs xs @ queued_obs ys"
  by (induction xs rule: queued_obs.induct) auto

lemma write_obs_append [simp]: "write_obs (xs @ ys) = write_obs xs @ write_obs ys"
  by (induction xs rule: write_obs.induct) auto

lemma leave_tasks_append [simp]: "leave_tasks (xs @ ys) = leave_tasks xs + leave_tasks ys"
  by (induction xs) auto

lemma leave_obs_append [simp]: "leave_obs (xs @ ys) = leave_obs xs + leave_obs ys"
  by (induction xs) auto

text \<open>The reader: one read in flight for the current buffer, unless the connection is closed.\<close>

definition reader_ok :: "session \<Rightarrow> bool" where
  "reader_ok s \<longleftrightarrow>
     (reads s = [] \<and> \<not> is_connected s) \<or>
     (reads s = [Read_header] \<and> cur_inbound s \<noteq> None) \<or>
     (\<exists>n p. reads s = [Read_body n] \<and> cur_inbound s = Some p \<and> n = unat (in_body_size p) \<and> 0 < n \<and>
        (n \<le> raw_size_c \<or> fault s \<noteq> None))"

text \<open>The writer: at most one queued write in flight, for the front of the queue; an open
  connection with packets waiting is writing; writes start in the order of queueing.\<close>

definition writer_ok :: "session \<Rightarrow> bool" where
  "writer_ok s \<longleftrightarrow>
     (queued_writes (writes s) = [] \<and> (is_connected s \<longrightarrow> outbound_q s = []) \<and>
        queued_obs (trace s) = write_obs (trace s) @ outbound_q s) \<or>
     (\<exists>p q. queued_writes (writes s) = [p] \<and> outbound_q s = p # q \<and>
        queued_obs (trace s) = write_obs (trace s) @ q)"

text \<open>The closer: the connection is open, or its leave is under way, or has been reported.\<close>

definition closer_ok :: "session \<Rightarrow> bool" where
  "closer_ok s \<longleftrightarrow>
     leave_tasks (strand s) + leave_obs (trace s) + (if is_connected s then 1 else 0) = 1"

definition pools_ok :: "session \<Rightarrow> bool" where
  "pools_ok s \<longleftrightarrow> in_pool.pool_ok (inbound_pool s) \<and> out_pool.pool_ok (outbound_pool s)"

definition session_inv :: "session \<Rightarrow> bool" where
  "session_inv s \<longleftrightarrow>
     reader_ok s \<and> writer_ok s \<and> closer_ok s \<and> pools_ok s \<and> inbound_q s = []"

lemmas session_ok_defs = session_inv_def reader_ok_def writer_ok_def closer_ok_def pools_ok_def

section \<open>Every operation keeps it\<close>

lemma raise_fault_simps [simp]:
  "is_connected (raise_fault f s) = is_connected s" "cur_inbound (raise_fault f s) = cur_inbound s"
  "inbound_q (raise_fault f s) = inbound_q s" "outbound_q (raise_fault f s) = outbound_q s"
  "inbound_pool (raise_fault f s) = inbound_pool s" "outbound_pool (raise_fault f s) = outbound_pool s"
  "reads (raise_fault f s) = reads s" "writes (raise_fault f s) = writes s"
  "strand (raise_fault f s) = strand s" "deallocs (raise_fault f s) = deallocs s"
  "trace (raise_fault f s) = trace s" "\<exists>g. fault (raise_fault f s) = Some g"
  by (auto simp: raise_fault_def)

lemma session_inv_raise_fault [simp]: "session_inv s \<Longrightarrow> session_inv (raise_fault f s)"
  by (auto simp: session_ok_defs)

lemma emit_simps [simp]:
  "is_connected (emit x s) = is_connected s" "cur_inbound (emit x s) = cur_inbound s"
  "inbound_q (emit x s) = inbound_q s" "outbound_q (emit x s) = outbound_q s"
  "inbound_pool (emit x s) = inbound_pool s" "outbound_pool (emit x s) = outbound_pool s"
  "reads (emit x s) = reads s" "writes (emit x s) = writes s" "strand (emit x s) = strand s"
  "deallocs (emit x s) = deallocs s" "fault (emit x s) = fault s" "trace (emit x s) = trace s @ [x]"
  by (simp_all add: emit_def)

lemma session_inv_on_close: "session_inv s \<Longrightarrow> session_inv (on_close b s)"
  by (auto simp: on_close_def close_task_def Let_def session_ok_defs)

lemma session_inv_send_task: "session_inv s \<Longrightarrow> session_inv (send_task p s)"
  by (auto simp: send_task_def async_write_front_def Let_def session_ok_defs neq_Nil_conv
      split: list.splits)

lemma session_inv_fast_send_task: "session_inv s \<Longrightarrow> session_inv (fast_send_task p s)"
  by (auto simp: fast_send_task_def session_ok_defs)

lemma session_inv_alloc_outbound:
  "session_inv s \<Longrightarrow> session_inv (snd (session_alloc_outbound mem s))"
  using out_pool.pool_ok_alloc
  by (auto simp: session_alloc_outbound_def session_ok_defs split: prod.splits)
    (metis snd_conv)+

lemma session_inv_on_send: "session_inv s \<Longrightarrow> session_inv (snd (on_send b p s))"
  by (auto simp: on_send_def session_inv_send_task split: option.splits)
    (auto simp: session_ok_defs)

lemma session_inv_on_fast_send: "session_inv s \<Longrightarrow> session_inv (snd (on_fast_send b p s))"
  by (auto simp: on_fast_send_def session_inv_fast_send_task split: option.splits)
    (auto simp: session_ok_defs)

lemma session_inv_send: "session_inv s \<Longrightarrow> session_inv (snd (send b mem i body n s))"
  using session_inv_alloc_outbound [of s mem]
  by (auto simp: send_def session_inv_on_send split: prod.splits option.splits)

lemma session_inv_fast_send: "session_inv s \<Longrightarrow> session_inv (snd (fast_send b i body n s))"
  by (auto simp: fast_send_def session_inv_on_fast_send split: option.splits)

lemma session_inv_api: "session_inv s \<Longrightarrow> session_inv (api_call b a s)"
proof (cases a)
  case (Api_set_compid c)
  then show "session_inv s \<Longrightarrow> ?thesis" by (auto simp: set_compid_def session_ok_defs)
next
  case Api_set_keep_alive
  then show "session_inv s \<Longrightarrow> ?thesis" by (auto simp: set_keep_alive_flag_def session_ok_defs)
next
  case Api_init_keep_alive
  then show "session_inv s \<Longrightarrow> ?thesis" by (auto simp: init_keep_alive_flag_def session_ok_defs)
qed (simp_all add: session_inv_send session_inv_fast_send session_inv_on_close)

lemma session_inv_calls: "session_inv s \<Longrightarrow> session_inv (handler_calls calls s)"
  unfolding handler_calls_def
  by (induction calls arbitrary: s) (simp_all add: session_inv_api)

text \<open>While a read handler runs, the read it completes is no longer in flight and the next one
  not yet started.\<close>

definition reader_busy :: "session \<Rightarrow> bool" where
  "reader_busy s \<longleftrightarrow>
     reads s = [] \<and> writer_ok s \<and> closer_ok s \<and> pools_ok s \<and> inbound_q s = []"

lemma reader_busy_on_close: "reader_busy s \<Longrightarrow> session_inv (on_close b s)"
  by (auto simp: reader_busy_def on_close_def close_task_def Let_def session_ok_defs)

lemma reader_busy_closed: "reader_busy s \<Longrightarrow> \<not> is_connected s \<Longrightarrow> session_inv s"
  by (simp add: reader_busy_def session_ok_defs)

lemma reader_busy_read_header:
  "reader_busy s \<Longrightarrow> cur_inbound s \<noteq> None \<Longrightarrow> session_inv (async_read_header s)"
  by (auto simp: reader_busy_def async_read_header_def session_ok_defs)

lemma reader_busy_read_body:
  "reader_busy s \<Longrightarrow> cur_inbound s = Some p \<Longrightarrow> n = unat (in_body_size p) \<Longrightarrow> 0 < n \<Longrightarrow>
   session_inv (async_read_body n s)"
  by (auto simp: reader_busy_def async_read_body_def session_ok_defs Let_def)

lemma reader_busy_update [simp]:
  "reader_busy (s\<lparr>cur_inbound := q\<rparr>) = reader_busy s"
  "reader_busy (s\<lparr>keep_alive_flag := k\<rparr>) = reader_busy s"
  by (auto simp: reader_busy_def session_ok_defs)

lemma reader_busy_alloc:
  assumes "reader_busy s"
  shows "reader_busy (snd (session_alloc_inbound mem s))"
  using assms in_pool.pool_ok_alloc [of "inbound_pool s" mem]
  by (auto simp: session_alloc_inbound_def reader_busy_def session_ok_defs split: prod.splits)

lemma session_alloc_inbound_frame [simp]:
  "is_connected (snd (session_alloc_inbound mem s)) = is_connected s"
  "cur_inbound (snd (session_alloc_inbound mem s)) = cur_inbound s"
  by (simp_all add: session_alloc_inbound_def split: prod.split)

lemma session_inv_next_header:
  assumes "reader_busy s"
  shows "session_inv (fst (next_header mem p s))"
proof -
  have "reader_busy (snd (session_alloc_inbound mem (s\<lparr>cur_inbound := None\<rparr>)))"
    using assms by (simp add: reader_busy_alloc)
  then show ?thesis
    by (cases "session_alloc_inbound mem (s\<lparr>cur_inbound := None\<rparr>)")
      (simp add: next_header_def Let_def reader_busy_on_close reader_busy_closed
        reader_busy_read_header split: option.split)
qed

lemma session_inv_read_header:
  "reader_busy s \<Longrightarrow> session_inv (fst (read_header mem ec n s))"
  by (simp add: read_header_def Let_def set_keep_alive_flag_def reader_busy_on_close
      reader_busy_closed reader_busy_read_header reader_busy_read_body session_inv_next_header
      split: option.split)

lemma session_inv_read_body:
  "reader_busy s \<Longrightarrow> session_inv (fst (read_body mem ec n s))"
  by (simp add: read_body_def reader_busy_on_close session_inv_next_header split: option.split)

lemma inbound_q_on_close [simp]: "inbound_q (on_close b s) = inbound_q s"
  by (simp add: on_close_def close_task_def Let_def)

lemma inbound_q_calls: "session_inv s \<Longrightarrow> inbound_q (handler_calls calls s) = []"
  using session_inv_calls by (auto simp: session_inv_def)

lemma inbound_q_same: "inbound_q s = q \<Longrightarrow> s\<lparr>inbound_q := q\<rparr> = s"
  by (cases s) simp

text \<open>A packet is delivered when no other waits, so the handler is called once and at once.\<close>

lemma deliver_Some:
  assumes "session_inv s"
  shows "deliver h (Some p) s =
    (let s2 = handler_calls (snd h) (emit (Obs_route p) s)
     in case fst h of
          None \<Rightarrow> raise_fault Terminate s2
        | Some ok \<Rightarrow> session_dealloc_inbound p (if ok then s2 else on_close True s2))"
proof -
  have q: "inbound_q s = []" using assms by (simp add: session_inv_def)
  have "session_inv (emit (Obs_route p) s)"
    using assms by (auto simp: session_ok_defs)
  then have "inbound_q (handler_calls (snd h) (emit (Obs_route p) s)) = []"
    by (rule inbound_q_calls)
  then show ?thesis
    using q by (cases "fst h")
      (auto simp: inbound_q_same deliver_def route_def Let_def session_dealloc_inbound_def)
qed

lemma session_inv_route_obs: "session_inv s \<Longrightarrow> session_inv (emit (Obs_route p) s)"
  by (auto simp: session_ok_defs)

lemma session_inv_dealloc_inbound: "session_inv s \<Longrightarrow> session_inv (session_dealloc_inbound p s)"
  using in_pool.pool_ok_dealloc by (auto simp: session_dealloc_inbound_def session_ok_defs)

lemma session_inv_deliver: "session_inv s \<Longrightarrow> session_inv (deliver h r s)"
proof (cases r)
  case None
  then show "session_inv s \<Longrightarrow> ?thesis" by (simp add: deliver_def)
next
  case (Some p)
  assume "session_inv s"
  with Some show ?thesis
    by (simp add: deliver_Some Let_def session_inv_calls session_inv_route_obs
        session_inv_dealloc_inbound session_inv_on_close split: option.split)
qed

lemma session_inv_finish_header:
  assumes "reader_busy s"
  shows "session_inv (finish_header mem ec bs h s)"
proof -
  let ?s = "s\<lparr>cur_inbound := map_option (\<lambda>p. fill_header p bs) (cur_inbound s)\<rparr>"
  have "session_inv (fst (read_header mem ec (length bs) ?s))"
    using assms by (simp add: session_inv_read_header)
  then show ?thesis
    by (auto simp: finish_header_def Let_def session_inv_deliver split: prod.splits)
qed

lemma session_inv_finish_body:
  assumes "reader_busy s"
  shows "session_inv (finish_body mem ec bs h s)"
proof -
  let ?s = "s\<lparr>cur_inbound := map_option (\<lambda>p. fill_body p bs) (cur_inbound s)\<rparr>"
  have "session_inv (fst (read_body mem ec (length bs) ?s))"
    using assms by (simp add: session_inv_read_body)
  then show ?thesis
    by (auto simp: finish_body_def Let_def session_inv_deliver split: prod.splits)
qed

lemma session_inv_write_done:
  assumes "session_inv s" "writes s = xs @ Write_queued p # ys"
  shows "session_inv (write_done ec (s\<lparr>writes := xs @ ys\<rparr>))"
proof -
  obtain q where q: "outbound_q s = p # q" "queued_writes (xs @ ys) = []"
    "queued_obs (trace s) = write_obs (trace s) @ q"
    using assms by (auto simp: session_inv_def writer_ok_def Cons_eq_append_conv append_eq_Cons_conv)
  show ?thesis
    using assms(1) q
    by (auto simp: write_done_def on_close_def close_task_def async_write_front_def Let_def
        session_ok_defs split: list.splits)
qed

lemma session_inv_task:
  assumes "session_inv s" "strand s = t # ts"
  shows "session_inv (run_task calls t (s\<lparr>strand := ts\<rparr>))"
proof (cases t)
  case Task_user_enter
  then have "session_inv (emit Obs_enter (s\<lparr>strand := ts\<rparr>))"
    using assms by (auto simp: session_ok_defs)
  with Task_user_enter show ?thesis by (simp add: session_inv_calls)
next
  case Task_user_leave
  then have "session_inv (emit Obs_leave (s\<lparr>strand := ts\<rparr>))"
    using assms by (auto simp: session_ok_defs)
  with Task_user_leave show ?thesis by (simp add: session_inv_calls)
next
  case Task_close
  with assms show ?thesis by (auto simp: close_task_def session_ok_defs)
next
  case (Task_send p)
  then have "session_inv (s\<lparr>strand := ts\<rparr>)" using assms by (auto simp: session_ok_defs)
  with Task_send show ?thesis by (simp add: session_inv_send_task)
next
  case (Task_fast_send p)
  then have "session_inv (s\<lparr>strand := ts\<rparr>)" using assms by (auto simp: session_ok_defs)
  with Task_fast_send show ?thesis by (simp add: session_inv_fast_send_task)
qed

lemma session_inv_run_dealloc: "session_inv s \<Longrightarrow> session_inv (run_dealloc s)"
  using out_pool.pool_ok_dealloc
  by (auto simp: run_dealloc_def session_ok_defs split: list.splits)

lemma session_inv_step:
  assumes "sess_step s e t" "session_inv s"
  shows "session_inv t"
  using assms
proof (cases rule: sess_step.cases)
  case (step_header rs bs ec mem h)
  then have "reader_busy (s\<lparr>reads := rs\<rparr>)"
    using assms(2) by (auto simp: reader_busy_def session_ok_defs)
  with step_header show ?thesis by (simp add: session_inv_finish_header)
next
  case (step_body n rs bs ec mem h)
  then have "reader_busy (s\<lparr>reads := rs\<rparr>)"
    using assms(2) by (auto simp: reader_busy_def session_ok_defs)
  with step_body show ?thesis by (simp add: session_inv_finish_body)
next
  case (step_fast_write xs p ys)
  then show ?thesis using assms(2) by (auto simp: session_ok_defs)
qed (use assms(2) in \<open>simp_all add: session_inv_api session_inv_task session_inv_write_done
      session_inv_run_dealloc\<close>)

lemma session_inv_start: "session_inv (start mem ip port (session_new mems))"
proof -
  have "in_pool.pool_ok (snd (new_pools mems default_pool_size))"
    "out_pool.pool_ok (fst (new_pools mems default_pool_size))"
    using fill_pools_props [of mems 4]
    unfolding in_pool.pool_ok_def out_pool.pool_ok_def new_pools_def clamp_pool_size_def
    by (auto simp: pool_sizes)
  then show ?thesis
    using in_pool.pool_ok_alloc [of "snd (new_pools mems default_pool_size)" mem]
    by (auto simp: start_def session_new_def session_alloc_inbound_def async_read_header_def
        on_close_def Let_def session_ok_defs split: prod.splits option.splits)
qed

lemma reachable_inv: "reachable s \<Longrightarrow> session_inv s"
  by (induction rule: reachable_induct) (auto intro: session_inv_start session_inv_step)

end
