(* ===== verification/Messages.thy ===== *)
theory Messages
  imports Packet
begin

text \<open>
  The application protocol, \<^verbatim>\<open>project/server/packet.h\<close> (the client's copy is the same
  text): the packet ids and the packed structs. A message is a value of one datatype with a
  constructor per struct; \<open>msg_bytes\<close> is the struct's memory image and \<open>msg_at\<close> the
  struct read at the start of a body buffer, as the handlers' \<open>reinterpret_cast\<close> does,
  whatever the body's length. A character array is a byte list of the array's length.
\<close>

definition max_acc_token :: nat where "max_acc_token = 200"

definition max_domain_name :: nat where "max_domain_name = 128"

datatype message =
    CS_HEART_BEAT u64
  | SC_HEART_BEAT u16 u64
  | CS_TOTAL_USERCOUNT u64
  | SC_TOTAL_USERCOUNT u64 u16
  | CS_SERVER_LOGIN u64 u8 "u8 list" u32
  | SC_SERVER_LOGIN u8
  | CS_SERVER_ACCESS u64
  | SC_SERVER_ACCESS u16 u64 "u8 list" u16 u64 u32
  | SC_USER_LOGOUT u64
  | CS_USER_LOOKUP u64
  | SC_USER_LOOKUP u64 u8
  | CS_SOME_DATA u64 "u8 list"
  | SC_SOME_DATA u64 u16 "u8 list"

fun msg_id :: "message \<Rightarrow> u16" where
  "msg_id (CS_HEART_BEAT _) = 1000"
| "msg_id (SC_HEART_BEAT _ _) = 1001"
| "msg_id (CS_TOTAL_USERCOUNT _) = 1100"
| "msg_id (SC_TOTAL_USERCOUNT _ _) = 1101"
| "msg_id (CS_SERVER_LOGIN _ _ _ _) = 5017"
| "msg_id (SC_SERVER_LOGIN _) = 5018"
| "msg_id (CS_SERVER_ACCESS _) = 5019"
| "msg_id (SC_SERVER_ACCESS _ _ _ _ _ _) = 5020"
| "msg_id (SC_USER_LOGOUT _) = 53000"
| "msg_id (CS_USER_LOOKUP _) = 53001"
| "msg_id (SC_USER_LOOKUP _ _) = 53002"
| "msg_id (CS_SOME_DATA _ _) = 53003"
| "msg_id (SC_SOME_DATA _ _ _) = 53004"

fun msg_bytes :: "message \<Rightarrow> u8 list" where
  "msg_bytes (CS_HEART_BEAT c) = enc_le 8 (unat c)"
| "msg_bytes (SC_HEART_BEAT r c) = enc_le 2 (unat r) @ enc_le 8 (unat c)"
| "msg_bytes (CS_TOTAL_USERCOUNT c) = enc_le 8 (unat c)"
| "msg_bytes (SC_TOTAL_USERCOUNT c n) = enc_le 8 (unat c) @ enc_le 2 (unat n)"
| "msg_bytes (CS_SERVER_LOGIN c f k v) = enc_le 8 (unat c) @ [f] @ k @ enc_le 4 (unat v)"
| "msg_bytes (SC_SERVER_LOGIN b) = [b]"
| "msg_bytes (CS_SERVER_ACCESS c) = enc_le 8 (unat c)"
| "msg_bytes (SC_SERVER_ACCESS r c ip p t v) =
     enc_le 2 (unat r) @ enc_le 8 (unat c) @ ip @ enc_le 2 (unat p) @ enc_le 8 (unat t) @
     enc_le 4 (unat v)"
| "msg_bytes (SC_USER_LOGOUT c) = enc_le 8 (unat c)"
| "msg_bytes (CS_USER_LOOKUP c) = enc_le 8 (unat c)"
| "msg_bytes (SC_USER_LOOKUP c e) = enc_le 8 (unat c) @ [e]"
| "msg_bytes (CS_SOME_DATA c name) = enc_le 8 (unat c) @ name"
| "msg_bytes (SC_SOME_DATA c e hi) = enc_le 8 (unat c) @ enc_le 2 (unat e) @ hi"

fun msg_sizeof :: "message \<Rightarrow> nat" where
  "msg_sizeof (CS_HEART_BEAT _) = 8"
| "msg_sizeof (SC_HEART_BEAT _ _) = 2 + 8"
| "msg_sizeof (CS_TOTAL_USERCOUNT _) = 8"
| "msg_sizeof (SC_TOTAL_USERCOUNT _ _) = 8 + 2"
| "msg_sizeof (CS_SERVER_LOGIN _ _ _ _) = 8 + 1 + max_acc_token + 4"
| "msg_sizeof (SC_SERVER_LOGIN _) = 1"
| "msg_sizeof (CS_SERVER_ACCESS _) = 8"
| "msg_sizeof (SC_SERVER_ACCESS _ _ _ _ _ _) = 2 + 8 + max_domain_name + 2 + 8 + 4"
| "msg_sizeof (SC_USER_LOGOUT _) = 8"
| "msg_sizeof (CS_USER_LOOKUP _) = 8"
| "msg_sizeof (SC_USER_LOOKUP _ _) = 8 + 1"
| "msg_sizeof (CS_SOME_DATA _ _) = 8 + 10"
| "msg_sizeof (SC_SOME_DATA _ _ _) = 8 + 2 + 100"

text \<open>The array members have the lengths the structs declare.\<close>

fun msg_wf :: "message \<Rightarrow> bool" where
  "msg_wf (CS_SERVER_LOGIN _ _ k _) = (length k = max_acc_token)"
| "msg_wf (SC_SERVER_ACCESS _ _ ip _ _ _) = (length ip = max_domain_name)"
| "msg_wf (CS_SOME_DATA _ name) = (length name = 10)"
| "msg_wf (SC_SOME_DATA _ _ hi) = (length hi = 100)"
| "msg_wf _ = True"

definition rd16 :: "buffer \<Rightarrow> nat \<Rightarrow> u16" where
  "rd16 b k = word_of_nat (dec_le (slice b k 2))"

definition rd32 :: "buffer \<Rightarrow> nat \<Rightarrow> u32" where
  "rd32 b k = word_of_nat (dec_le (slice b k 4))"

definition rd64 :: "buffer \<Rightarrow> nat \<Rightarrow> u64" where
  "rd64 b k = word_of_nat (dec_le (slice b k 8))"

definition msg_at :: "u16 \<Rightarrow> buffer \<Rightarrow> message option" where
  "msg_at i b =
     (if i = 1000 then Some (CS_HEART_BEAT (rd64 b 0))
      else if i = 1001 then Some (SC_HEART_BEAT (rd16 b 0) (rd64 b 2))
      else if i = 1100 then Some (CS_TOTAL_USERCOUNT (rd64 b 0))
      else if i = 1101 then Some (SC_TOTAL_USERCOUNT (rd64 b 0) (rd16 b 8))
      else if i = 5017 then
        Some (CS_SERVER_LOGIN (rd64 b 0) (b 8) (slice b 9 max_acc_token) (rd32 b 209))
      else if i = 5018 then Some (SC_SERVER_LOGIN (b 0))
      else if i = 5019 then Some (CS_SERVER_ACCESS (rd64 b 0))
      else if i = 5020 then
        Some (SC_SERVER_ACCESS (rd16 b 0) (rd64 b 2) (slice b 10 max_domain_name) (rd16 b 138)
                (rd64 b 140) (rd32 b 148))
      else if i = 53000 then Some (SC_USER_LOGOUT (rd64 b 0))
      else if i = 53001 then Some (CS_USER_LOOKUP (rd64 b 0))
      else if i = 53002 then Some (SC_USER_LOOKUP (rd64 b 0) (b 8))
      else if i = 53003 then Some (CS_SOME_DATA (rd64 b 0) (slice b 8 10))
      else if i = 53004 then Some (SC_SOME_DATA (rd64 b 0) (rd16 b 8) (slice b 10 100))
      else None)"

lemma length_msg_bytes: "msg_wf m \<Longrightarrow> length (msg_bytes m) = msg_sizeof m"
  by (cases m) auto

text \<open>A struct on the sender's stack, as the buffer its address points to.\<close>

definition struct_buffer :: "message \<Rightarrow> buffer" where
  "struct_buffer m = blit zero_buffer 0 (msg_bytes m)"

lemma slice_struct_buffer: "msg_wf m \<Longrightarrow> slice (struct_buffer m) 0 (msg_sizeof m) = msg_bytes m"
  by (simp add: struct_buffer_def slice_blit_same length_msg_bytes)

lemma msg_sizeof_bounds: "0 < msg_sizeof m \<and> msg_sizeof m \<le> 213"
  by (cases m) (auto simp: max_acc_token_def max_domain_name_def)

lemma blit_at: "i < length bs \<Longrightarrow> blit b 0 bs i = bs ! i"
  by (simp add: blit_def)

lemmas msg_read_simps =
  rd16_def rd32_def rd64_def slice_blit_at blit_at nth_append max_acc_token_def max_domain_name_def

lemma msg_at_blit:
  assumes "msg_wf m"
  shows "msg_at (msg_id m) (blit b 0 (msg_bytes m)) = Some m"
  using assms by (cases m) (simp_all add: msg_at_def msg_read_simps)

lemma msg_at_slice_cong:
  assumes "slice b 0 213 = slice c 0 213"
  shows "msg_at i b = msg_at i c"
proof -
  have s: "slice b k n = slice c k n" if "k + n \<le> 213" for k n
    using arg_cong [OF assms, of "\<lambda>s. take n (drop k s)"] that by (simp add: buf_simps)
  have "b k = c k" if "k < 213" for k
    using s [of k 1] that by (simp add: slice_Suc)
  then show ?thesis
    by (simp add: msg_at_def rd16_def rd32_def rd64_def s max_acc_token_def max_domain_name_def)
qed



end
