(* ===== verification/ServerHandler.thy ===== *)
theory ServerHandler
  imports SessionManager SessionStep Messages
begin

text \<open>
  The handler of the server: the set of connected users and the keep-alive sweep of the
  network library's \<open>handler\<close> (\<^verbatim>\<open>source/impl/network/server/handler.ipp\<close>), and the
  application's \<open>handler\<close> (\<^verbatim>\<open>project/server/handler.cpp\<close>) with one function per packet.

  \<open>world\<close> is the whole server: every connection ever accepted by its number, the registry of
  account ids, the user set, the broadcasts posted to the task io_context, the three
  repeating timers and the acceptor's members (used in \<open>Acceptor\<close>). Code that runs on connection \<open>j\<close>'s strand calls \<open>j\<close> from inside the
  strand and any other connection from outside it; code of a timer or of the task io_context
  calls all of them from outside.

  A handler's result is \<open>None\<close> when an exception leaves it. \<open>mem\<close> says whether the reply's
  send buffer can be allocated.
\<close>

section \<open>State\<close>

record world =
  accepted :: nat
  sess :: "sid \<Rightarrow> session"
  registry :: registry
  user_set :: "sid list"
  logout_posts :: "u64 list"
  keep_alive_on :: bool
  sec60_on :: bool
  sec1_on :: bool
  acc_open :: bool
  acc_waiting :: bool
  acc_shutdown :: bool
  listen_port :: u16
  crashed :: bool

definition world_new :: world where
  "world_new = \<lparr>accepted = 0, sess = (\<lambda>_. session_new (\<lambda>_. (True, True))), registry = [],
     user_set = [], logout_posts = [], keep_alive_on = False, sec60_on = False, sec1_on = False,
     acc_open = False, acc_waiting = False, acc_shutdown = False, listen_port = 0, crashed = False\<rparr>"

definition on_session :: "sid \<Rightarrow> (session \<Rightarrow> session) \<Rightarrow> world \<Rightarrow> world" where
  "on_session j f w = w\<lparr>sess := (sess w)(j := f (sess w j))\<rparr>"

text \<open>\<open>session_->send( id, &pk, sizeof( pk ) )\<close> and \<open>fast_send\<close> for a struct.\<close>

definition send_struct :: "bool \<Rightarrow> bool \<Rightarrow> sid \<Rightarrow> message \<Rightarrow> world \<Rightarrow> world" where
  "send_struct in_strand mem j m =
     on_session j (\<lambda>s. snd (send in_strand mem (msg_id m) (Some (struct_buffer m)) (msg_sizeof m) s))"

definition fast_send_struct :: "bool \<Rightarrow> sid \<Rightarrow> message \<Rightarrow> world \<Rightarrow> world" where
  "fast_send_struct in_strand j m =
     on_session j (\<lambda>s. snd (fast_send in_strand (msg_id m) (Some (struct_buffer m)) (msg_sizeof m) s))"

section \<open>The user set\<close>

definition is_session :: "sid \<Rightarrow> sid list \<Rightarrow> bool" where
  "is_session j us \<longleftrightarrow> j \<in> set us"

definition user_emplace :: "sid \<Rightarrow> sid list \<Rightarrow> bool \<times> sid list" where
  "user_emplace j us = (if j \<in> set us then (False, us) else (True, us @ [j]))"

definition user_erase :: "sid \<Rightarrow> sid list \<Rightarrow> sid list" where
  "user_erase j us = filter (\<lambda>k. k \<noteq> j) us"

interpretation users: keyed_store "\<lambda>j us. if is_session j us then Some () else None"
    "\<lambda>j u. user_emplace j" user_erase "\<lambda>_. True" distinct
  by unfold_locales (auto simp: is_session_def user_emplace_def user_erase_def split: if_splits)

definition base_on_user_enter :: "sid \<Rightarrow> world \<Rightarrow> bool \<times> world" where
  "base_on_user_enter j w =
     (if is_session j (user_set w) then (False, w)
      else case user_emplace j (user_set w) of
        (False, _) \<Rightarrow> (False, w)
      | (True, us) \<Rightarrow> (True, on_session j set_keep_alive_flag (w\<lparr>user_set := us\<rparr>)))"

definition base_on_user_leave :: "sid \<Rightarrow> world \<Rightarrow> bool \<times> world" where
  "base_on_user_leave j w =
     (if \<not> is_session j (user_set w) then (False, w)
      else (True, w\<lparr>user_set := user_erase j (user_set w)\<rparr>))"

text \<open>The keep-alive timer's function: a user heard from since the last sweep loses the mark,
  the others are closed.\<close>

definition keep_alive_one :: "sid \<Rightarrow> world \<Rightarrow> world" where
  "keep_alive_one j w =
     (if keep_alive_flag (sess w j) then on_session j init_keep_alive_flag w
      else on_session j (on_close False) w)"

definition keep_alive_sweep :: "world \<Rightarrow> bool \<times> world" where
  "keep_alive_sweep w = (True, fold keep_alive_one (user_set w) w)"

definition base_on_start :: "world \<Rightarrow> world" where
  "base_on_start w = w\<lparr>keep_alive_on := True\<rparr>"

definition base_on_stop :: "world \<Rightarrow> world" where
  "base_on_stop w = w\<lparr>user_set := [], keep_alive_on := False\<rparr>"

section \<open>The application's handler\<close>

definition default_connect_size :: nat where "default_connect_size = 5000"

definition handler_on_start :: "world \<Rightarrow> world" where
  "handler_on_start w = base_on_start (w\<lparr>sec1_on := True, sec60_on := True\<rparr>)"

definition handler_on_stop :: "world \<Rightarrow> world" where
  "handler_on_stop w = base_on_stop (w\<lparr>sec60_on := False\<rparr>)"

definition handler_on_user_enter :: "sid \<Rightarrow> world \<Rightarrow> bool \<times> world" where
  "handler_on_user_enter j w =
     (if default_connect_size \<le> registry_count (registry w) then (False, w)
      else base_on_user_enter j w)"

definition logout_broadcast :: "u64 \<Rightarrow> world \<Rightarrow> world" where
  "logout_broadcast c w =
     (case registry_users (registry w) of
        None \<Rightarrow> w
      | Some v \<Rightarrow> fold (\<lambda>k. fast_send_struct False k (SC_USER_LOGOUT c)) v w)"

definition handler_on_user_leave :: "sid \<Rightarrow> world \<Rightarrow> bool \<times> world" where
  "handler_on_user_leave j w =
     (let c = compid (sess w j);
          w1 = (if c \<noteq> 0
                then w\<lparr>registry := session_leave c (registry w), logout_posts := logout_posts w @ [c]\<rparr>
                else w)
      in base_on_user_leave j w1)"

definition dispatch_CS_HEART_BEAT :: "sid \<Rightarrow> u64 \<Rightarrow> world \<Rightarrow> bool option \<times> world" where
  "dispatch_CS_HEART_BEAT j c w = (Some True, w)"

definition dispatch_CS_TOTAL_USERCOUNT :: "bool \<Rightarrow> sid \<Rightarrow> u64 \<Rightarrow> world \<Rightarrow> bool option \<times> world" where
  "dispatch_CS_TOTAL_USERCOUNT mem j c w =
     (if c = 0 then (Some False, w)
      else (Some True,
            send_struct True mem j
              (SC_TOTAL_USERCOUNT c (word_of_nat (registry_count (registry w)))) w))"

definition dispatch_CS_SERVER_LOGIN :: "bool \<Rightarrow> sid \<Rightarrow> u64 \<Rightarrow> world \<Rightarrow> bool option \<times> world" where
  "dispatch_CS_SERVER_LOGIN mem j c w =
     (if c = 0 then (Some False, w)
      else
        let w1 = (case session_lookup c (registry w) of
                    None \<Rightarrow> w
                  | Some user \<Rightarrow>
                      on_session user (on_close (user = j))
                        (w\<lparr>registry := session_leave (compid (sess w user)) (registry w)\<rparr>))
        in (Some True, send_struct True mem j (SC_SERVER_LOGIN 1) w1))"

definition access_reply :: "u16 \<Rightarrow> u64 \<Rightarrow> message" where
  "access_reply result c = SC_SERVER_ACCESS result c (replicate max_domain_name 0) 0 0 0"

text \<open>On every path but success the function that runs at the end of the scope sends the
  error reply.\<close>

definition dispatch_CS_SERVER_ACCESS :: "bool \<Rightarrow> sid \<Rightarrow> u64 \<Rightarrow> world \<Rightarrow> bool option \<times> world" where
  "dispatch_CS_SERVER_ACCESS mem j c w =
     (case session_lookup c (registry w) of
        Some _ \<Rightarrow> (Some False, send_struct True mem j (access_reply 0 c) w)
      | None \<Rightarrow>
          let w1 = on_session j (\<lambda>s. snd (set_compid c s)) w
          in case session_enter (\<lambda>k. compid (sess w1 k)) (Some j) (registry w1) of
               (False, _) \<Rightarrow> (Some False, send_struct True mem j (access_reply 0 c) w1)
             | (True, r) \<Rightarrow>
                 (Some True, send_struct True mem j (access_reply 1 c) (w1\<lparr>registry := r\<rparr>)))"

definition dispatch_CS_USER_LOOKUP :: "bool \<Rightarrow> sid \<Rightarrow> u64 \<Rightarrow> world \<Rightarrow> bool option \<times> world" where
  "dispatch_CS_USER_LOOKUP mem j c w =
     (if c = 0 then (Some True, send_struct True mem j (SC_USER_LOOKUP c 1) w)
      else case session_lookup c (registry w) of
        None \<Rightarrow> (Some True, send_struct True mem j (SC_USER_LOOKUP c 1) w)
      | Some _ \<Rightarrow> (Some True, send_struct True mem j (SC_USER_LOOKUP c 0) w))"

definition some_data_text :: "u8 list" where
  "some_data_text =
     map of_char ''The operation completed successfully'' @ replicate (100 - 36) 0"

text \<open>An empty name is logged with a format of three directives and two arguments; converting
  it to text throws \<open>boost::io::too_few_args\<close>, and nothing on the way catches it.\<close>

definition dispatch_CS_SOME_DATA :: "sid \<Rightarrow> u64 \<Rightarrow> u8 list \<Rightarrow> world \<Rightarrow> bool option \<times> world" where
  "dispatch_CS_SOME_DATA j c name w =
     (if compid (sess w j) \<noteq> c then (Some True, w)
      else if takeWhile (\<lambda>b. b \<noteq> 0) name = [] then (None, w)
      else case in_range_sessions (registry w) of
        None \<Rightarrow> (Some True, w)
      | Some v \<Rightarrow>
          (Some True,
           fold (\<lambda>k. fast_send_struct (k = j) k (SC_SOME_DATA (compid (sess w j)) 0 some_data_text)) v w))"

definition handler_on_route :: "bool \<Rightarrow> sid \<Rightarrow> world \<Rightarrow> inbound \<Rightarrow> bool option \<times> world" where
  "handler_on_route mem j w p =
     (case msg_at (hdr_id (header_ptr p)) (in_raw p) of
        Some (CS_HEART_BEAT c) \<Rightarrow> dispatch_CS_HEART_BEAT j c w
      | Some (CS_TOTAL_USERCOUNT c) \<Rightarrow> dispatch_CS_TOTAL_USERCOUNT mem j c w
      | Some (CS_SERVER_LOGIN c _ _ _) \<Rightarrow> dispatch_CS_SERVER_LOGIN mem j c w
      | Some (CS_SERVER_ACCESS c) \<Rightarrow> dispatch_CS_SERVER_ACCESS mem j c w
      | Some (CS_USER_LOOKUP c) \<Rightarrow> dispatch_CS_USER_LOOKUP mem j c w
      | Some (CS_SOME_DATA c name) \<Rightarrow> dispatch_CS_SOME_DATA j c name w
      | _ \<Rightarrow> (Some False, w))"

lemma on_session_simps [simp]:
  "sess (on_session j f w) k = (if k = j then f (sess w j) else sess w k)"
  "accepted (on_session j f w) = accepted w" "registry (on_session j f w) = registry w"
  "user_set (on_session j f w) = user_set w" "logout_posts (on_session j f w) = logout_posts w"
  "keep_alive_on (on_session j f w) = keep_alive_on w" "crashed (on_session j f w) = crashed w"
  by (simp_all add: on_session_def)

end
