(* ===== verification/Acceptor.thy ===== *)
theory Acceptor
  imports ServerHandler
begin

text \<open>
  The acceptor (\<^verbatim>\<open>source/impl/network/server/acceptor.ipp\<close>). \<open>acc_waiting\<close> says that an
  \<open>async_accept\<close> is in flight. The connection object made ahead of it is not touched until
  the accept completes, so it is numbered and entered into the world only then. The results
  of the operating system (binding the port, setting the socket options) and of the heap are
  arguments; \<open>crashed\<close> records an exception that leaves the completion handler.
\<close>

definition listen_start :: "bool \<Rightarrow> bool \<Rightarrow> u16 \<Rightarrow> world \<Rightarrow> bool \<times> world" where
  "listen_start bind_ok mem port w =
     (if \<not> bind_ok then (False, w\<lparr>acc_open := False\<rparr>)
      else
        let w1 = handler_on_start (w\<lparr>acc_open := True\<rparr>)
        in if \<not> mem then (False, w1)
           else (True, w1\<lparr>acc_waiting := True, listen_port := port\<rparr>))"

definition acceptor_stop :: "world \<Rightarrow> world" where
  "acceptor_stop w =
     (let w1 = handler_on_stop (w\<lparr>acc_shutdown := True\<rparr>)
      in if acc_open w1 then w1\<lparr>acc_open := False\<rparr> else w1)"

text \<open>The completion of an accept: without an error the options are set (each may throw) and
  the connection is started; in every case the next accept is begun unless the acceptor was
  stopped or the next connection object cannot be allocated.\<close>

definition accept ::
  "error_code option \<Rightarrow> bool \<Rightarrow> (nat \<Rightarrow> bool \<times> bool) \<Rightarrow> bool \<Rightarrow> string \<Rightarrow> u16 \<Rightarrow> bool \<Rightarrow> world \<Rightarrow> world" where
  "accept ec options_ok mems start_mem ip port next_mem w =
     (let w0 = w\<lparr>acc_waiting := False\<rparr>
      in if ec = None \<and> \<not> options_ok then w0\<lparr>crashed := True\<rparr>
         else
           let w1 = (if ec = None
                     then w0\<lparr>accepted := Suc (accepted w0),
                             sess := (sess w0)(accepted w0 := start start_mem ip port (session_new mems))\<rparr>
                     else w0)
           in if acc_shutdown w1 then w1
              else if next_mem then w1\<lparr>acc_waiting := True\<rparr> else w1)"

text \<open>The acceptor keeps listening: a completed accept, with or without an error, leaves the
  next one in flight unless the acceptor was stopped, an option could not be set, or the next
  connection object could not be allocated; and exactly a successful one adds a connection,
  started and reading its first header (or closed at once without a buffer).\<close>

lemma accept_continues:
  assumes "w' = accept ec options_ok mems start_mem ip port next_mem w"
  shows "(acc_waiting w' \<longleftrightarrow> \<not> (ec = None \<and> \<not> options_ok) \<and> \<not> acc_shutdown w \<and> next_mem) \<and>
    accepted w' = accepted w + (if ec = None \<and> options_ok then 1 else 0) \<and>
    (ec = None \<and> options_ok \<longrightarrow>
       sess w' (accepted w) = start start_mem ip port (session_new mems)) \<and>
    (\<forall>k < accepted w. sess w' k = sess w k)"
  using assms by (auto simp: accept_def Let_def)

theorem accept_continues_witness:
  "accepted (accept None True (\<lambda>_. (True, True)) True ''10.0.0.1'' 4000 True world_new) = 1 \<and>
   acc_waiting (accept None True (\<lambda>_. (True, True)) True ''10.0.0.1'' 4000 True world_new)"
  using accept_continues [OF refl, of None True "\<lambda>_. (True, True)" True "''10.0.0.1''" 4000 True world_new]
  by (simp add: world_new_def)

end
