(* ===== verification/SessionProps.thy ===== *)
theory SessionProps
  imports SessionStep Messages
begin

text \<open>
  What the invariant of a connection gives: the reader is never stalled and never doubled,
  queued writes are serialised and in order, the leave is reported once; which inputs keep
  the connection free of undefined behaviour; and the framing of the byte stream. Two runs
  show where the code leaves its contract.
\<close>

section \<open>Safety of every reachable state\<close>



text \<open>C7. Packets sent through \<open>send\<close> are written one at a time: at most one queued write
  is in flight, always for the front of the queue, and an open connection with packets
  waiting has one in flight.\<close>

theorem session_writer:
  assumes "reachable s"
  shows "length (queued_writes (writes s)) \<le> 1 \<and>
    (\<forall>p \<in> set (queued_writes (writes s)). outbound_q s \<noteq> [] \<and> p = hd (outbound_q s)) \<and>
    (is_connected s \<and> outbound_q s \<noteq> [] \<longrightarrow> queued_writes (writes s) = [hd (outbound_q s)])"
  using reachable_inv [OF assms] by (auto simp: session_inv_def writer_ok_def)

text \<open>A connection on which another thread sends one packet.\<close>

definition demo_session :: session where
  "demo_session = start True ''10.0.0.1'' 4000 (session_new (\<lambda>_. (True, True)))"

definition demo_packet :: outbound where
  "demo_packet = the (encode (outbound_init outbound_new) 1000 (Some zero_buffer) 8)"

lemma new_pools_4:
  "new_pools (\<lambda>_. (True, True)) default_pool_size =
     (replicate 4 (outbound_init outbound_new), replicate 4 (inbound_init inbound_new))"
  by (simp add: new_pools_def clamp_pool_size_def pool_sizes numeral_eq_Suc)

lemma replicate_4: "replicate 4 x = x # replicate 3 x"
  by (simp add: numeral_eq_Suc)

lemma demo_session_fields:
  "is_connected demo_session" "fault demo_session = None" "reads demo_session = [Read_header]"
  "cur_inbound demo_session = Some (inbound_init inbound_new)" "writes demo_session = []"
  "outbound_q demo_session = []" "strand demo_session = [Task_user_enter]"
  "outbound_pool demo_session = replicate 4 (outbound_init outbound_new)"
  "trace demo_session = []" "compid demo_session = 0"
  by (simp_all add: demo_session_def start_def session_new_def new_pools_4 Let_def
      session_alloc_inbound_def alloc_inbound_def async_read_header_def numeral_eq_Suc)

lemma reachable_demo: "reachable demo_session"
  unfolding demo_session_def by (rule reachable_start)

lemma encode_demo:
  "encode (outbound_init outbound_new) 1000 (Some zero_buffer) 8 = Some demo_packet"
  by (simp add: demo_packet_def encode_Some Let_def)

lemma demo_enter:
  "sess_step demo_session (Ev_task []) (emit Obs_enter (demo_session\<lparr>strand := []\<rparr>))"
  using sess_step.step_task [of demo_session Task_user_enter "[]" "[]"]
  by (simp add: demo_session_fields handler_calls_def)

definition demo_sending :: session where
  "demo_sending =
     send_task demo_packet ((emit Obs_enter (demo_session\<lparr>
       outbound_pool := replicate 3 (outbound_init outbound_new), strand := [Task_send demo_packet]\<rparr>))
       \<lparr>strand := []\<rparr>)"

lemma demo_sending_path:
  "\<exists>s. sess_step demo_session (Ev_task []) (emit Obs_enter (demo_session\<lparr>strand := []\<rparr>)) \<and>
     sess_step (emit Obs_enter (demo_session\<lparr>strand := []\<rparr>)) (Ev_api (Api_send True 1000 (Some zero_buffer) 8)) s \<and>
     sess_step s (Ev_task []) demo_sending \<and> writes s = []"
proof -
  let ?s = "emit Obs_enter (demo_session\<lparr>strand := []\<rparr>)"
  let ?t = "emit Obs_enter (demo_session\<lparr>
      outbound_pool := replicate 3 (outbound_init outbound_new), strand := [Task_send demo_packet]\<rparr>)"
  have "api_call False (Api_send True 1000 (Some zero_buffer) 8) ?s = ?t"
    by (simp add: send_def session_alloc_outbound_def alloc_outbound_def demo_session_fields
        encode_demo on_send_def emit_def replicate_4)
  moreover have "fault ?s = None" by (simp add: demo_session_fields)
  ultimately have "sess_step ?s (Ev_api (Api_send True 1000 (Some zero_buffer) 8)) ?t"
    using sess_step.step_api by metis
  moreover have "sess_step ?t (Ev_task []) demo_sending"
    using sess_step.step_task [of ?t "Task_send demo_packet" "[]" "[]"]
    by (simp add: demo_session_fields demo_sending_def emit_def)
  moreover have "writes ?t = []" by (simp add: demo_session_fields)
  ultimately show ?thesis using demo_enter by blast
qed

lemma reachable_demo_sending: "reachable demo_sending"
  using demo_sending_path reachable_step reachable_demo by metis

lemma demo_sending_fields:
  "writes demo_sending = [Write_queued demo_packet]" "outbound_q demo_sending = [demo_packet]"
  "is_connected demo_sending" "fault demo_sending = None"
  "trace demo_sending = [Obs_enter, Obs_queued demo_packet, Obs_write demo_packet]"
  "strand demo_sending = []"
  by (simp_all add: demo_sending_def send_task_def async_write_front_def demo_session_fields Let_def)

theorem session_writer_witness:
  "is_connected demo_sending \<and> outbound_q demo_sending \<noteq> [] \<and>
   queued_writes (writes demo_sending) = [hd (outbound_q demo_sending)]"
  using session_writer [OF reachable_demo_sending] by (simp add: demo_sending_fields)

text \<open>Order of the sent packets: the writes started so far are, in order, the first of the
  packets queued so far, and on an open connection every packet that is queued but whose
  write has not started is still in the queue behind the one in flight.\<close>

lemma session_send_order:
  assumes "reachable s"
  shows "\<exists>rest. queued_obs (trace s) = write_obs (trace s) @ rest \<and>
    (is_connected s \<longrightarrow> outbound_q s = queued_writes (writes s) @ rest)"
  using reachable_inv [OF assms] by (auto simp: session_inv_def writer_ok_def)

theorem session_send_order_witness:
  "\<exists>rest. queued_obs (trace demo_sending) = write_obs (trace demo_sending) @ rest \<and>
    (is_connected demo_sending \<longrightarrow> outbound_q demo_sending = queued_writes (writes demo_sending) @ rest)"
  by (rule session_send_order [OF reachable_demo_sending])



section \<open>The queue of received packets\<close>

text \<open>\<open>route_poll\<close> with as many rounds as packets wait hands every waiting packet to the
  handler once, in order, and leaves the queue empty, for any handler that returns a result
  and leaves the receive queue and the history alone.\<close>

lemma route_poll_drains:
  assumes "\<And>s p. \<exists>ok t. on_route s p = (Some ok, t) \<and> inbound_q t = inbound_q s \<and> trace t = trace s"
  shows "inbound_q (route_poll (length (inbound_q s)) (\<lambda>x. x) (\<lambda>f. f) on_route s) = [] \<and>
    trace (route_poll (length (inbound_q s)) (\<lambda>x. x) (\<lambda>f. f) on_route s) =
      trace s @ map Obs_route (inbound_q s)"
proof (induction "inbound_q s" arbitrary: s)
  case Nil
  then show ?case by simp
next
  case (Cons p ps)
  let ?s1 = "emit (Obs_route p) (s\<lparr>inbound_q := ps\<rparr>)"
  obtain ok t where t: "on_route ?s1 p = (Some ok, t)" "inbound_q t = ps"
    "trace t = trace s @ [Obs_route p]"
    using assms [of ?s1 p] by auto
  let ?s4 = "session_dealloc_inbound p (if \<not> ok then on_close True t else t)"
  have s4: "inbound_q ?s4 = ps" "trace ?s4 = trace s @ [Obs_route p]"
    using t by (simp_all add: session_dealloc_inbound_def on_close_def close_task_def Let_def)
  have "route_poll (length (inbound_q s)) (\<lambda>x. x) (\<lambda>f. f) on_route s =
     (if ps = [] then ?s4 else route_poll (length ps) (\<lambda>x. x) (\<lambda>f. f) on_route ?s4)"
    using s4 t(1) by (simp add: Cons.hyps(2) [symmetric] Let_def)
  with Cons.hyps(1) [of ?s4] s4 show ?case
    by (simp add: Cons.hyps(2) [symmetric])
qed

theorem route_poll_drains_witness:
  "inbound_q (route_poll 2 (\<lambda>x. x) (\<lambda>f. f) (\<lambda>s p. (Some True, s))
     (demo_session\<lparr>inbound_q := [inbound_new, inbound_new]\<rparr>)) = []"
proof -
  let ?s = "demo_session\<lparr>inbound_q := [inbound_new, inbound_new]\<rparr>"
  let ?h = "\<lambda>s p. (Some True, s)"
  have "inbound_q (route_poll (length (inbound_q ?s)) (\<lambda>x. x) (\<lambda>f. f) ?h ?s) = [] \<and>
    trace (route_poll (length (inbound_q ?s)) (\<lambda>x. x) (\<lambda>f. f) ?h ?s) =
      trace ?s @ map Obs_route (inbound_q ?s)"
    by (rule route_poll_drains) (auto intro: exI [of _ True])
  then show ?thesis by (simp add: numeral_2_eq_2 del: route_poll.simps)
qed

section \<open>Freedom from undefined behaviour\<close>

text \<open>The events that stay within the contract of the code: bodies to send that fit a packet,
  headers whose decided length fits the buffer, and handlers that return.\<close>

fun api_safe :: "api \<Rightarrow> bool" where
  "api_safe (Api_send mem i b n) = (n \<le> raw_size_c)"
| "api_safe (Api_fast_send i b n) = (n \<le> raw_size_c)"
| "api_safe _ = True"

definition handler_safe :: "bool option \<times> api list \<Rightarrow> bool" where
  "handler_safe h \<longleftrightarrow> fst h \<noteq> None \<and> (\<forall>a \<in> set (snd h). api_safe a)"

definition header_safe :: "u8 list \<Rightarrow> bool" where
  "header_safe bs \<longleftrightarrow> (\<forall>p. body_in_bounds (decide (fill_header p bs)))"

fun event_safe :: "event \<Rightarrow> bool" where
  "event_safe (Ev_api a) = api_safe a"
| "event_safe (Ev_task calls) = (\<forall>a \<in> set calls. api_safe a)"
| "event_safe (Ev_header mem ec bs h) = ((ec = None \<longrightarrow> header_safe bs) \<and> handler_safe h)"
| "event_safe (Ev_body mem ec bs h) = handler_safe h"
| "event_safe _ = True"

lemma fault_updates [simp]:
  "fault (on_close b s) = fault s" "fault (send_task p s) = fault s"
  "fault (fast_send_task p s) = fault s" "fault (async_read_header s) = fault s"
  "fault (snd (session_alloc_inbound mem s)) = fault s"
  "fault (snd (session_alloc_outbound mem s)) = fault s"
  "fault (session_dealloc_inbound ib s) = fault s" "fault (close_task s) = fault s"
  "fault (async_write_front s) = fault s" "fault (set_keep_alive_flag s) = fault s"
  "fault (snd (on_send b q s)) = fault s" "fault (snd (on_fast_send b q s)) = fault s"
  by (auto simp: on_close_def close_task_def send_task_def fast_send_task_def async_write_front_def
      async_read_header_def session_alloc_inbound_def session_alloc_outbound_def Let_def
      session_dealloc_inbound_def set_keep_alive_flag_def on_send_def on_fast_send_def
      split: list.split prod.split option.split)

lemma fault_alloc:
  "session_alloc_outbound mem s = (p, t) \<Longrightarrow> fault t = fault s"
  "session_alloc_inbound mem s = (q, t) \<Longrightarrow> fault t = fault s"
  using fault_updates(5,6) [of mem s] by auto

lemma fault_api: "fault s = None \<Longrightarrow> api_safe a \<Longrightarrow> fault (api_call b a s) = None"
proof (cases a)
  case (Api_send mem i body n)
  assume "fault s = None" "api_safe a"
  with Api_send show ?thesis
    by (auto simp: send_def encode_overflow_iff dest: fault_alloc split: prod.split option.split)
next
  case (Api_fast_send i body n)
  assume "fault s = None" "api_safe a"
  with Api_fast_send show ?thesis
    by (auto simp: fast_send_def encode_overflow_iff split: option.split)
qed (auto simp: set_compid_def set_keep_alive_flag_def init_keep_alive_flag_def)

lemma fault_calls:
  "fault s = None \<Longrightarrow> \<forall>a \<in> set calls. api_safe a \<Longrightarrow> fault (handler_calls calls s) = None"
  unfolding handler_calls_def
  by (induction calls arbitrary: s) (simp_all add: fault_api)

lemma fault_deliver:
  "session_inv s \<Longrightarrow> fault s = None \<Longrightarrow> handler_safe h \<Longrightarrow> fault (deliver h r s) = None"
  by (cases r)
    (auto simp: deliver_def [of h None] deliver_Some handler_safe_def Let_def fault_calls
      split: option.split)

lemma fault_next_header: "fault (fst (next_header mem p s)) = fault s"
  by (auto simp: next_header_def Let_def dest: fault_alloc split: prod.split option.split)

lemma fault_read_header:
  assumes "fault s = None" "ec = None \<Longrightarrow> header_safe bs"
  shows "fault (fst (read_header mem ec n
           (s\<lparr>cur_inbound := map_option (\<lambda>p. fill_header p bs) (cur_inbound s)\<rparr>))) = None"
proof (cases "ec = None")
  case True
  have le: "\<not> 65519 < unat (in_body_size (decide (fill_header p bs)))" for p
    using assms(2) True by (simp add: header_safe_def body_in_bounds_def not_less)
  show ?thesis
    using assms(1) True le
    by (cases "cur_inbound s")
      (simp_all add: read_header_def Let_def fault_next_header async_read_body_def
        set_keep_alive_flag_def)
next
  case False
  with assms(1) show ?thesis by (auto simp: read_header_def split: option.split)
qed

lemma fault_read_body: "fault (fst (read_body mem ec n s)) = fault s"
  by (auto simp: read_body_def fault_next_header split: option.split)



section \<open>Framing of the byte stream\<close>

text \<open>A peer that sends the bytes \<open>bs\<close>: each read in flight takes its bytes from the front,
  with at most \<open>n\<close> reads; the handler accepts every packet. What is left of the bytes is
  returned with the connection.\<close>

fun feed :: "nat \<Rightarrow> u8 list \<Rightarrow> session \<Rightarrow> session \<times> u8 list" where
  "feed 0 bs s = (s, bs)"
| "feed (Suc n) bs s =
     (case reads s of
        [Read_header] \<Rightarrow>
          if header_size_c \<le> length bs
          then feed n (drop header_size_c bs)
                 (finish_header True None (take header_size_c bs) (Some True, []) (s\<lparr>reads := []\<rparr>))
          else (s, bs)
      | [Read_body k] \<Rightarrow>
          if k \<le> length bs
          then feed n (drop k bs) (finish_body True None (take k bs) (Some True, []) (s\<lparr>reads := []\<rparr>))
          else (s, bs)
      | _ \<Rightarrow> (s, bs))"

fun routed :: "observation list \<Rightarrow> inbound list" where
  "routed [] = []"
| "routed (Obs_route p # xs) = p # routed xs"
| "routed (_ # xs) = routed xs"

definition content :: "inbound \<Rightarrow> u16 \<times> u8 list" where
  "content p = (hdr_id (header_ptr p), slice (in_raw p) 0 (unat (in_body_size p)))"

lemma routed_append [simp]: "routed (xs @ ys) = routed xs @ routed ys"
  by (induction xs rule: routed.induct) auto

text \<open>An open connection between two packets.\<close>

definition idle :: "session \<Rightarrow> bool" where
  "idle s \<longleftrightarrow> session_inv s \<and> is_connected s \<and> fault s = None \<and> reads s = [Read_header]"

lemma idle_cur: "idle s \<Longrightarrow> \<exists>p. cur_inbound s = Some p"
  by (auto simp: idle_def session_inv_def reader_ok_def)

lemma session_alloc_inbound_True:
  "\<exists>q ps. session_alloc_inbound True s = (Some q, s\<lparr>inbound_pool := ps\<rparr>)"
  by (auto simp: session_alloc_inbound_def alloc_inbound_def split: list.split)

lemma feed_header:
  assumes "idle s" "cur_inbound s = Some p" "length hb = 16"
    and "ib = decide (fill_header p hb)" "0 < unat (in_body_size ib)" "body_in_bounds ib"
  shows "feed (Suc n) (hb @ bs) s =
    feed n bs (s\<lparr>keep_alive_flag := True, cur_inbound := Some ib,
                 reads := [Read_body (unat (in_body_size ib))]\<rparr>)"
  using assms
  by (simp add: idle_def finish_header_def read_header_def set_keep_alive_flag_def Let_def
      async_read_body_def body_in_bounds_def deliver_def)

lemma feed_body:
  assumes "idle s" "0 < unat (in_body_size ib)" "length body = unat (in_body_size ib)"
    and "t = s\<lparr>keep_alive_flag := True, cur_inbound := Some ib, reads := [Read_body (unat (in_body_size ib))]\<rparr>"
  shows "\<exists>u. feed (Suc n) (body @ bs) t = feed n bs u \<and> idle u \<and>
    trace u = trace s @ [Obs_route (fill_body ib body)]"
proof -
  let ?b = "t\<lparr>reads := [], cur_inbound := Some (fill_body ib body)\<rparr>"
  have busy: "reader_busy ?b"
    using assms(1,4) by (auto simp: idle_def reader_busy_def session_ok_defs)
  obtain q ps where q: "session_alloc_inbound True (?b\<lparr>cur_inbound := None\<rparr>) =
      (Some q, ?b\<lparr>cur_inbound := None, inbound_pool := ps\<rparr>)"
    using session_alloc_inbound_True [of "?b\<lparr>cur_inbound := None\<rparr>"] by auto
  let ?c = "?b\<lparr>inbound_pool := ps, cur_inbound := Some q, reads := [Read_header]\<rparr>"
  have rb: "read_body True None (length body) ?b = (?c, Some (fill_body ib body))"
    using assms(1,3,4) q
    by (simp add: read_body_def next_header_def body_decode_id async_read_header_def idle_def)
  have inv: "session_inv ?c"
    using session_inv_read_body [OF busy, of True None "length body"] rb by simp
  let ?u = "session_dealloc_inbound (fill_body ib body) (emit (Obs_route (fill_body ib body)) ?c)"
  have d: "deliver (Some True, []) (Some (fill_body ib body)) ?c = ?u"
    using inv by (simp add: deliver_Some Let_def handler_calls_def)
  have "idle ?u"
    using inv assms(1,4)
    by (simp add: idle_def session_inv_dealloc_inbound session_inv_route_obs)
      (simp add: session_dealloc_inbound_def)
  moreover have "trace ?u = trace s @ [Obs_route (fill_body ib body)]"
    using assms(4) by (simp add: session_dealloc_inbound_def)
  moreover have "finish_body True None body (Some True, []) (t\<lparr>reads := []\<rparr>) = ?u"
    using assms(4) rb d by (simp add: finish_body_def Let_def)
  then have "feed (Suc n) (body @ bs) t = feed n bs ?u"
    using assms(3,4) by simp
  ultimately show ?thesis by blast
qed

lemma feed_packet:
  assumes "idle s" "0 < n" "n \<le> 65519" "encode o1 i (Some src) n = Some out"
  shows "\<exists>u p. feed (Suc (Suc k)) (wire out @ bs) s = feed k bs u \<and> idle u \<and>
    trace u = trace s @ [Obs_route p] \<and> content p = (i, slice src 0 n)"
proof -
  obtain p where p: "cur_inbound s = Some p" using idle_cur [OF assms(1)] by blast
  note w = wire_encode [OF assms(2-4)]
  let ?hb = "header_bytes (out_header out)" and ?body = "slice src 0 n"
  let ?ib = "decide (fill_header p ?hb)"
  have "unat (word_of_nat (16 + n) :: u32) = 16 + n"
    using assms(3) by (simp only: unat_of_nat) simp
  then have n: "unat (in_body_size ?ib) = n"
    using assms(2,3) by (simp add: in_body_size_decide w(2) Let_def)
  have "body_in_bounds ?ib" using n assms(3) by (simp add: body_in_bounds_def)
  then have h: "feed (Suc (Suc k)) (wire out @ bs) s = feed (Suc k) (?body @ bs)
      (s\<lparr>keep_alive_flag := True, cur_inbound := Some ?ib, reads := [Read_body (unat (in_body_size ?ib))]\<rparr>)"
    using feed_header [OF assms(1) p length_header_bytes refl, of "out_header out" "Suc k" "?body @ bs"]
      n assms(2) by (simp add: w(1) del: feed.simps)
  moreover obtain u where "feed (Suc k) (?body @ bs)
      (s\<lparr>keep_alive_flag := True, cur_inbound := Some ?ib, reads := [Read_body (unat (in_body_size ?ib))]\<rparr>) =
      feed k bs u" "idle u" "trace u = trace s @ [Obs_route (fill_body ?ib ?body)]"
    using feed_body [OF assms(1), of ?ib ?body _ k bs] n assms(2) by auto
  moreover have "content (fill_body ?ib ?body) = (i, ?body)"
    using n by (simp add: content_def slice_fill_body w(2))
  ultimately show ?thesis by metis
qed

lemma feed_packets:
  assumes "idle s"
    and "list_all2 (\<lambda>(i, src, n) out. 0 < n \<and> n \<le> 65519 \<and> (\<exists>o1. encode o1 i (Some src) n = Some out)) msgs outs"
  shows "\<exists>u. feed (2 * length outs) (concat (map wire outs)) s = (u, []) \<and> idle u \<and>
    map content (routed (trace u)) =
      map content (routed (trace s)) @ map (\<lambda>(i, src, n). (i, slice src 0 n)) msgs"
  using assms(2,1)
proof (induction msgs outs arbitrary: s rule: list_all2_induct)
  case Nil
  then show ?case by simp
next
  case (Cons m msgs out outs)
  obtain i src n where m: "m = (i, src, n)" by (cases m)
  obtain o1 where e: "0 < n" "n \<le> 65519" "encode o1 i (Some src) n = Some out"
    using Cons.hyps(1) m by auto
  obtain u p where u: "feed (Suc (Suc (2 * length outs))) (wire out @ concat (map wire outs)) s =
      feed (2 * length outs) (concat (map wire outs)) u" "idle u"
      "trace u = trace s @ [Obs_route p]" "content p = (i, slice src 0 n)"
    using feed_packet [OF Cons.prems e, of "2 * length outs" "concat (map wire outs)"] by blast
  from Cons.IH [OF u(2)] u m show ?case by (auto simp del: feed.simps)
qed

lemma idle_start: "idle demo_session"
  using reachable_inv [OF reachable_demo] by (simp add: idle_def demo_session_fields)

text \<open>C5. Framing: when a peer's packets, each a body of 1 to 65519 bytes encoded under a packet
  id, arrive as one byte stream at an open connection between two packets, the connection
  consumes the stream exactly, routes the packets in order with their ids and bodies, and is
  again open and between two packets, without a fault.\<close>

theorem session_framing:
  assumes "reachable s" and "is_connected s" and "fault s = None" and "reads s = [Read_header]"
    and "list_all2 (\<lambda>(i, src, n) out. 0 < n \<and> n \<le> raw_size_c \<and>
           encode outbound_new i (Some src) n = Some out) msgs outs"
  shows "\<exists>u. feed (2 * length outs) (concat (map wire outs)) s = (u, []) \<and>
    is_connected u \<and> fault u = None \<and> reads u = [Read_header] \<and>
    map content (routed (trace u)) =
      map content (routed (trace s)) @ map (\<lambda>(i, src, n). (i, slice src 0 n)) msgs"
proof -
  have "idle s" using assms(1-4) reachable_inv by (simp add: idle_def)
  moreover have "list_all2 (\<lambda>(i, src, n) out. 0 < n \<and> n \<le> 65519 \<and>
      (\<exists>o1. encode o1 i (Some src) n = Some out)) msgs outs"
    using assms(5) by (rule list_all2_mono) auto
  ultimately show ?thesis using feed_packets [of s msgs outs] by (auto simp: idle_def)
qed

definition demo_outs :: "outbound list" where
  "demo_outs = [the (encode outbound_new 1000 (Some zero_buffer) 8),
                the (encode outbound_new 5019 (Some (\<lambda>i. word_of_nat i)) 8)]"

theorem session_framing_witness:
  "\<exists>u. feed 4 (concat (map wire demo_outs)) demo_session = (u, []) \<and>
     map content (routed (trace u)) =
       [(1000, replicate 8 0), (5019, [0, 1, 2, 3, 4, 5, 6, 7])]"
proof -
  have s: "slice zero_buffer 0 8 = replicate 8 0"
    "slice (\<lambda>i. word_of_nat i) 0 8 = [0, 1, 2, 3, 4, 5, 6, 7]"
    by (simp_all add: slice_def zero_buffer_def numeral_eq_Suc)
  have "\<exists>u. feed (2 * length demo_outs) (concat (map wire demo_outs)) demo_session = (u, []) \<and>
    is_connected u \<and> fault u = None \<and> reads u = [Read_header] \<and>
    map content (routed (trace u)) = map content (routed (trace demo_session)) @
      map (\<lambda>(i, src, n). (i, slice src 0 n)) [(1000, zero_buffer, 8), (5019, \<lambda>i. word_of_nat i, 8)]"
    by (rule session_framing [OF reachable_demo])
      (simp_all add: demo_session_fields demo_outs_def encode_Some Let_def)
  then show ?thesis by (auto simp: demo_session_fields s demo_outs_def simp del: feed.simps)
qed

section \<open>Where the code leaves its contract\<close>

text \<open>\<open>fast_send\<close> bypasses the queue: there is a reachable open connection on which a
  queued packet and a fast one are being written to the socket at the same time, which asio
  does not allow, since the two composed writes may interleave their bytes.\<close>

lemma demo_fast_path:
  assumes "encode outbound_new 1001 (Some zero_buffer) 10 = Some out"
  shows "\<exists>s t. sess_step demo_sending (Ev_api (Api_fast_send 1001 (Some zero_buffer) 10)) s \<and>
    writes s = [Write_queued demo_packet] \<and> sess_step s (Ev_task []) t \<and> is_connected t \<and> fault t = None \<and>
    writes t = [Write_queued demo_packet, Write_fast out] \<and> queued_obs (trace t) = [demo_packet]"
proof -
  let ?s = "demo_sending\<lparr>strand := [Task_fast_send out]\<rparr>"
  let ?t = "fast_send_task out (?s\<lparr>strand := []\<rparr>)"
  have "api_call False (Api_fast_send 1001 (Some zero_buffer) 10) demo_sending = ?s"
    by (simp add: fast_send_def on_fast_send_def assms demo_sending_fields)
  then have "sess_step demo_sending (Ev_api (Api_fast_send 1001 (Some zero_buffer) 10)) ?s"
    using sess_step.step_api [of demo_sending] demo_sending_fields(4) by metis
  moreover have "sess_step ?s (Ev_task []) ?t"
    using sess_step.step_task [of ?s "Task_fast_send out" "[]" "[]"] by (simp add: demo_sending_fields)
  moreover have "writes ?s = [Write_queued demo_packet]" "is_connected ?t" "fault ?t = None"
    "writes ?t = [Write_queued demo_packet, Write_fast out]" "queued_obs (trace ?t) = [demo_packet]"
    by (simp_all add: fast_send_task_def demo_sending_fields)
  ultimately show ?thesis by blast
qed

lemma fast_send_overlap:
  "\<exists>s p q. reachable s \<and> is_connected s \<and> fault s = None \<and> writes s = [Write_queued p, Write_fast q]"
proof -
  obtain out where "encode outbound_new 1001 (Some zero_buffer) 10 = Some out"
    by (simp add: encode_Some Let_def)
  from demo_fast_path [OF this] show ?thesis
    using reachable_demo_sending reachable_step by metis
qed

text \<open>C32. Sixteen received bytes suffice to leave the receive buffer: a header whose size field
  is 65551 makes the session read 65535 bytes into an array of 65519.\<close>

theorem header_overflow_reachable:
  "\<exists>s t. reachable s \<and> is_connected s \<and> fault s = None \<and>
     sess_step s (Ev_header True None (header_bytes (header_init\<lparr>hdr_size := 65551\<rparr>)) (Some True, [])) t \<and>
     fault t = Some Out_of_bounds \<and> reads t = [Read_body 65535]"
proof -
  let ?h = "header_init\<lparr>hdr_size := 65551\<rparr>"
  let ?t = "finish_header True None (header_bytes ?h) (Some True, []) (demo_session\<lparr>reads := []\<rparr>)"
  have b: "unat (in_body_size (decide (fill_header p (header_bytes ?h)))) = 65535" for p
    by (simp add: in_body_size_decide Let_def)
  have "sess_step demo_session (Ev_header True None (header_bytes ?h) (Some True, [])) ?t"
    by (rule sess_step.step_header) (simp_all add: demo_session_fields)
  moreover have "fault ?t = Some Out_of_bounds" "reads ?t = [Read_body 65535]"
    by (simp_all add: finish_header_def read_header_def Let_def demo_session_fields b deliver_def
        set_keep_alive_flag_def async_read_body_def raise_fault_def)
  ultimately show ?thesis
    using reachable_demo demo_session_fields by blast
qed

end
