(* ===== verification/ServerStep.thy ===== *)
theory ServerStep
  imports Acceptor SessionProps
begin

text \<open>
  The running server as a state machine over \<open>world\<close>: accepting a connection, the events of
  each connection with the application's handler plugged in, the posted broadcasts and the
  keep-alive timer. The main lemma, \<open>world_step_projects\<close>, is a refinement: seen from any one
  connection, a step of the server is a run of that connection's own state machine, so
  everything proved of a single connection holds of every connection of the server.
\<close>

section \<open>Calls made on the connections\<close>

text \<open>Every connection changes by calls of its public operations, with sends that fit a
  packet; \<open>own\<close> is the connection whose strand runs the code.\<close>

definition acts :: "sid option \<Rightarrow> world \<Rightarrow> world \<Rightarrow> bool" where
  "acts own w w' \<longleftrightarrow> accepted w' = accepted w \<and>
     (\<forall>k. \<exists>cs. sess w' k = fold (api_call (own = Some k)) cs (sess w k) \<and>
        (\<forall>a \<in> set cs. api_safe a))"

named_theorems acts_intros "operations that change connections by calls only"

lemma acts_refl:
  "accepted w' = accepted w \<Longrightarrow> sess w' = sess w \<Longrightarrow> acts own w w'"
  unfolding acts_def by (auto intro: exI [of _ "[]"])

lemma acts_self [simp]: "acts own w w"
  by (rule acts_refl) simp_all

lemma acts_trans: "acts own u v \<Longrightarrow> acts own v w \<Longrightarrow> acts own u w"
  unfolding acts_def
proof (intro conjI allI, goal_cases)
  case (2 k)
  then obtain cs ds where
    "sess v k = fold (api_call (own = Some k)) cs (sess u k)" "\<forall>a \<in> set cs. api_safe a"
    "sess w k = fold (api_call (own = Some k)) ds (sess v k)" "\<forall>a \<in> set ds. api_safe a"
    by blast
  then show ?case by (intro exI [of _ "cs @ ds"]) auto
qed simp

lemma acts_same_sess:
  "acts own u v \<Longrightarrow> accepted w = accepted v \<Longrightarrow> sess w = sess v \<Longrightarrow> acts own u w"
  using acts_refl acts_trans by blast

lemma acts_call:
  assumes "f (sess w j) = api_call (own = Some j) a (sess w j)" "api_safe a"
  shows "acts own w (on_session j f w)"
  unfolding acts_def
proof (intro conjI allI)
  fix k
  show "\<exists>cs. sess (on_session j f w) k = fold (api_call (own = Some k)) cs (sess w k) \<and>
      (\<forall>a \<in> set cs. api_safe a)"
  proof (cases "k = j")
    case True
    with assms show ?thesis by (intro exI [of _ "[a]"]) auto
  next
    case False
    then show ?thesis by (intro exI [of _ "[]"]) auto
  qed
qed simp

lemma msg_fits: "msg_sizeof m \<le> raw_size_c"
  using msg_sizeof_bounds [of m] by simp

lemma acts_send_struct [acts_intros]:
  "b = (own = Some j) \<Longrightarrow> acts own w (send_struct b mem j m w)"
  unfolding send_struct_def
  by (rule acts_call [where a = "Api_send mem (msg_id m) (Some (struct_buffer m)) (msg_sizeof m)"])
    (simp_all add: msg_fits [unfolded packet_consts])

lemma acts_fast_send_struct [acts_intros]:
  "b = (own = Some j) \<Longrightarrow> acts own w (fast_send_struct b j m w)"
  unfolding fast_send_struct_def
  by (rule acts_call [where a = "Api_fast_send (msg_id m) (Some (struct_buffer m)) (msg_sizeof m)"])
    (simp_all add: msg_fits [unfolded packet_consts])

lemma acts_on_close [acts_intros]:
  "b = (own = Some j) \<Longrightarrow> acts own w (on_session j (on_close b) w)"
  by (rule acts_call [where a = Api_close]) simp_all

lemma acts_set_compid [acts_intros]: "acts own w (on_session j (\<lambda>s. snd (set_compid c s)) w)"
  by (rule acts_call [where a = "Api_set_compid c"]) simp_all

lemma acts_keep_alive [acts_intros]:
  "acts own w (on_session j set_keep_alive_flag w)"
  "acts own w (on_session j init_keep_alive_flag w)"
  by (rule acts_call [where a = Api_set_keep_alive], simp_all)
    (rule acts_call [where a = Api_init_keep_alive], simp_all)

lemma acts_fold: "(\<And>x w. acts own w (f x w)) \<Longrightarrow> acts own w (fold f xs w)"
proof (induction xs arbitrary: w)
  case Nil
  then show ?case by (simp add: acts_refl)
next
  case (Cons x xs)
  then show ?case using acts_trans by fastforce
qed

lemma acts_user_enter: "acts (Some j) w (snd (handler_on_user_enter j w))"
  by (auto simp: handler_on_user_enter_def base_on_user_enter_def user_emplace_def is_session_def
      intro!: acts_refl acts_trans [OF acts_refl acts_keep_alive(1)] split: prod.split bool.split)

lemma acts_user_leave: "acts (Some j) w (snd (handler_on_user_leave j w))"
  by (auto simp: handler_on_user_leave_def base_on_user_leave_def Let_def intro: acts_refl)

lemma acts_sweep: "acts None w (snd (keep_alive_sweep w))"
  by (auto simp: keep_alive_sweep_def keep_alive_one_def intro!: acts_fold acts_intros)

lemma acts_broadcast: "acts None w (logout_broadcast c w)"
  by (auto simp: logout_broadcast_def intro!: acts_fold acts_intros split: option.split)

lemma acts_dispatch:
  "acts (Some j) w (snd (dispatch_CS_HEART_BEAT j c w))"
  "acts (Some j) w (snd (dispatch_CS_TOTAL_USERCOUNT mem j c w))"
  "acts (Some j) w (snd (dispatch_CS_USER_LOOKUP mem j c w))"
  "acts (Some j) w (snd (dispatch_CS_SOME_DATA j c name w))"
  by (auto simp: dispatch_CS_HEART_BEAT_def dispatch_CS_TOTAL_USERCOUNT_def
      dispatch_CS_USER_LOOKUP_def dispatch_CS_SOME_DATA_def
      intro!: acts_intros acts_fold split: option.split)

lemma acts_login: "acts (Some j) w (snd (dispatch_CS_SERVER_LOGIN mem j c w))"
proof -
  have "acts (Some j) w (on_session u (on_close (u = j)) (w\<lparr>registry := r\<rparr>))" for u r
    by (rule acts_trans [OF acts_refl acts_on_close]) auto
  then show ?thesis
    by (auto simp: dispatch_CS_SERVER_LOGIN_def Let_def acts_refl
        intro!: acts_trans [OF _ acts_send_struct] split: option.split)
qed

lemma acts_access: "acts (Some j) w (snd (dispatch_CS_SERVER_ACCESS mem j c w))"
proof -
  let ?w1 = "on_session j (\<lambda>s. snd (set_compid c s)) w"
  have 1: "acts (Some j) w ?w1" by (rule acts_set_compid)
  have 2: "acts (Some j) w (?w1\<lparr>registry := r\<rparr>)" for r
    by (rule acts_same_sess [OF 1]) simp_all
  show ?thesis
    using 1 2
    by (auto simp: dispatch_CS_SERVER_ACCESS_def Let_def
        intro!: acts_send_struct acts_trans [OF _ acts_send_struct]
        split: option.split prod.split bool.split)
qed

lemma acts_on_route: "acts (Some j) w (snd (handler_on_route mem j w p))"
  using acts_dispatch acts_login acts_access
  by (auto simp: handler_on_route_def acts_refl split: option.split message.split)

section \<open>Events of the server\<close>

text \<open>Routing a finished packet of connection \<open>j\<close> to the application's handler.\<close>

definition route_to_handler :: "bool \<Rightarrow> sid \<Rightarrow> inbound option \<Rightarrow> world \<Rightarrow> world" where
  "route_to_handler mem j r w =
     (case r of
        None \<Rightarrow> w
      | Some p \<Rightarrow>
          let (poll, s1) = route (Some p) (sess w j); w1 = on_session j (\<lambda>_. s1) w
          in if poll
             then route_poll (length (inbound_q s1)) (\<lambda>v. sess v j) (on_session j)
                    (handler_on_route mem j) w1
             else w1)"

definition header_arrives ::
  "bool \<Rightarrow> bool \<Rightarrow> sid \<Rightarrow> error_code option \<Rightarrow> u8 list \<Rightarrow> world \<Rightarrow> world" where
  "header_arrives mem rmem j ec bs w =
     (let s0 = sess w j; s1 = s0\<lparr>reads := tl (reads s0),
            cur_inbound := map_option (\<lambda>p. fill_header p bs) (cur_inbound s0)\<rparr>;
          (s2, r) = read_header mem ec (length bs) s1
      in route_to_handler rmem j r (on_session j (\<lambda>_. s2) w))"

definition body_arrives ::
  "bool \<Rightarrow> bool \<Rightarrow> sid \<Rightarrow> error_code option \<Rightarrow> u8 list \<Rightarrow> world \<Rightarrow> world" where
  "body_arrives mem rmem j ec bs w =
     (let s0 = sess w j; s1 = s0\<lparr>reads := tl (reads s0),
            cur_inbound := map_option (\<lambda>p. fill_body p bs) (cur_inbound s0)\<rparr>;
          (s2, r) = read_body mem ec (length bs) s1
      in route_to_handler rmem j r (on_session j (\<lambda>_. s2) w))"

text \<open>The next function of connection \<open>j\<close>'s strand.\<close>

definition strand_runs :: "sid \<Rightarrow> world \<Rightarrow> world" where
  "strand_runs j w =
     (case strand (sess w j) of
        [] \<Rightarrow> w
      | t # ts \<Rightarrow>
          let w1 = on_session j (\<lambda>s. s\<lparr>strand := ts\<rparr>) w
          in case t of
               Task_user_enter \<Rightarrow> snd (handler_on_user_enter j (on_session j (emit Obs_enter) w1))
             | Task_user_leave \<Rightarrow> snd (handler_on_user_leave j (on_session j (emit Obs_leave) w1))
             | _ \<Rightarrow> on_session j (run_task [] t) w1)"

definition process_alive :: "world \<Rightarrow> bool" where
  "process_alive w \<longleftrightarrow> \<not> crashed w \<and> (\<forall>k < accepted w. fault (sess w k) = None)"

datatype server_event =
    W_accept "error_code option" bool "nat \<Rightarrow> bool \<times> bool" bool string u16 bool
  | W_strand sid
  | W_header bool bool sid "error_code option" "u8 list"
  | W_body bool bool sid "error_code option" "u8 list"
  | W_write sid "error_code option"
  | W_fast_write sid
  | W_dealloc sid
  | W_broadcast
  | W_keep_alive
  | W_stop

inductive world_step :: "world \<Rightarrow> server_event \<Rightarrow> world \<Rightarrow> bool" where
  ws_accept: "process_alive w \<Longrightarrow> acc_waiting w \<Longrightarrow>
    world_step w (W_accept ec ok mems smem ip port nmem) (accept ec ok mems smem ip port nmem w)"
| ws_strand: "process_alive w \<Longrightarrow> j < accepted w \<Longrightarrow> strand (sess w j) \<noteq> [] \<Longrightarrow>
    world_step w (W_strand j) (strand_runs j w)"
| ws_header: "process_alive w \<Longrightarrow> j < accepted w \<Longrightarrow> reads (sess w j) = Read_header # rs \<Longrightarrow>
    length bs \<le> header_size_c \<Longrightarrow> ec = None \<longrightarrow> length bs = header_size_c \<Longrightarrow>
    world_step w (W_header mem rmem j ec bs) (header_arrives mem rmem j ec bs w)"
| ws_body: "process_alive w \<Longrightarrow> j < accepted w \<Longrightarrow> reads (sess w j) = Read_body n # rs \<Longrightarrow>
    length bs \<le> n \<Longrightarrow> ec = None \<longrightarrow> length bs = n \<Longrightarrow>
    world_step w (W_body mem rmem j ec bs) (body_arrives mem rmem j ec bs w)"
| ws_write: "process_alive w \<Longrightarrow> j < accepted w \<Longrightarrow> writes (sess w j) = xs @ Write_queued p # ys \<Longrightarrow>
    world_step w (W_write j ec) (on_session j (\<lambda>s. write_done ec (s\<lparr>writes := xs @ ys\<rparr>)) w)"
| ws_fast_write: "process_alive w \<Longrightarrow> j < accepted w \<Longrightarrow> writes (sess w j) = xs @ Write_fast p # ys \<Longrightarrow>
    world_step w (W_fast_write j) (on_session j (\<lambda>s. s\<lparr>writes := xs @ ys\<rparr>) w)"
| ws_dealloc: "process_alive w \<Longrightarrow> j < accepted w \<Longrightarrow> deallocs (sess w j) \<noteq> [] \<Longrightarrow>
    world_step w (W_dealloc j) (on_session j run_dealloc w)"
| ws_broadcast: "process_alive w \<Longrightarrow> logout_posts w = xs @ c # ys \<Longrightarrow>
    world_step w W_broadcast (logout_broadcast c (w\<lparr>logout_posts := xs @ ys\<rparr>))"
| ws_keep_alive: "process_alive w \<Longrightarrow> keep_alive_on w \<Longrightarrow>
    world_step w W_keep_alive (snd (keep_alive_sweep w))"
| ws_stop: "process_alive w \<Longrightarrow> world_step w W_stop (acceptor_stop w)"

inductive_cases world_step_cases: "world_step w e w'"

inductive server_reachable :: "world \<Rightarrow> bool" where
  sr_start: "server_reachable (snd (listen_start bind_ok mem port world_new))"
| sr_step: "server_reachable w \<Longrightarrow> world_step w e w' \<Longrightarrow> server_reachable w'"

section \<open>Projection on one connection\<close>

text \<open>Any number of steps of one connection.\<close>

inductive sess_steps :: "session \<Rightarrow> session \<Rightarrow> bool" where
  steps_refl: "sess_steps s s"
| steps_snoc: "sess_steps s t \<Longrightarrow> sess_step t e u \<Longrightarrow> sess_steps s u"

lemma sess_steps_one: "sess_step s e t \<Longrightarrow> sess_steps s t"
  using steps_refl steps_snoc by blast

lemma reachable_steps: "sess_steps s t \<Longrightarrow> reachable s \<Longrightarrow> reachable t"
  by (induction rule: sess_steps.induct) (auto intro: reachable_step)

lemma steps_calls:
  "fault s = None \<Longrightarrow> \<forall>a \<in> set cs. api_safe a \<Longrightarrow>
   sess_steps s (fold (api_call False) cs s) \<and> fault (fold (api_call False) cs s) = None"
proof (induction cs rule: rev_induct)
  case Nil
  then show ?case by (simp add: steps_refl)
next
  case (snoc a cs)
  then have 1: "sess_steps s (fold (api_call False) cs s)" "fault (fold (api_call False) cs s) = None"
    by simp_all
  from 1(2) have "sess_step (fold (api_call False) cs s) (Ev_api a)
      (api_call False a (fold (api_call False) cs s))"
    by (rule step_api)
  with 1 snoc.prems show ?case by (auto intro: steps_snoc fault_api)
qed

text \<open>A connection that other code calls, from outside its strand.\<close>

definition called :: "session \<Rightarrow> session \<Rightarrow> bool" where
  "called s t \<longleftrightarrow> (\<exists>cs. t = fold (api_call False) cs s \<and> (\<forall>a \<in> set cs. api_safe a))"

lemma called_refl [simp]: "called s s"
  unfolding called_def by (rule exI [of _ "[]"]) simp

lemma called_steps: "called s t \<Longrightarrow> fault s = None \<Longrightarrow> sess_steps s t"
  unfolding called_def using steps_calls by blast

lemma acts_other: "acts own w w' \<Longrightarrow> own \<noteq> Some k \<Longrightarrow> called (sess w k) (sess w' k)"
  unfolding acts_def called_def by (metis (full_types))

lemma acts_own:
  assumes "acts (Some j) w w'"
  obtains cs where "sess w' j = handler_calls cs (sess w j)" "\<forall>a \<in> set cs. api_safe a"
  using assms unfolding acts_def handler_calls_def by (metis (full_types))

lemma route_to_handler_effect:
  assumes "session_inv (sess w j)"
  shows "accepted (route_to_handler mem j r w) = accepted w \<and>
    (\<exists>h. sess (route_to_handler mem j r w) j = deliver h r (sess w j)) \<and>
    (\<forall>k. k \<noteq> j \<longrightarrow> called (sess w k) (sess (route_to_handler mem j r w) k))"
proof (cases r)
  case None
  then show ?thesis by (auto simp: route_to_handler_def deliver_def)
next
  case (Some p)
  have q: "inbound_q (sess w j) = []" using assms by (simp add: session_inv_def)
  let ?w1 = "on_session j (emit (Obs_route p)) w"
  have w1: "on_session j (\<lambda>s. emit (Obs_route p) (s\<lparr>inbound_q := []\<rparr>))
      (on_session j (\<lambda>_. sess w j\<lparr>inbound_q := [p]\<rparr>) w) = ?w1"
    using inbound_q_same [OF q] by (simp add: on_session_def)
  obtain res w2 where w2: "handler_on_route mem j ?w1 p = (res, w2)" by fastforce
  have a: "acts (Some j) ?w1 w2" using acts_on_route [of j ?w1 mem p] w2 by simp
  obtain cs where cs: "sess w2 j = handler_calls cs (emit (Obs_route p) (sess w j))"
    using acts_own [OF a] by (metis on_session_simps(1))
  let ?w' = "route_to_handler mem j r w"
  have w': "?w' = (case res of None \<Rightarrow> on_session j (raise_fault Terminate) w2
      | Some ok \<Rightarrow> on_session j (session_dealloc_inbound p)
          (if \<not> ok then on_session j (on_close True) w2 else w2))"
    using w2 Some q by (simp add: route_to_handler_def route_def w1 Let_def split: option.split)
  have "accepted ?w' = accepted w2" by (simp add: w' split: option.split)
  moreover have "accepted w2 = accepted w" using a by (simp add: acts_def)
  moreover have "sess ?w' j = deliver (res, cs) r (sess w j)"
    using w' Some assms by (cases res) (simp_all add: deliver_Some cs Let_def)
  moreover have "called (sess w k) (sess ?w' k)" if "k \<noteq> j" for k
    using acts_other [OF a, of k] that by (simp add: w' split: option.split)
  ultimately show ?thesis by auto
qed

lemma header_arrives_effect:
  assumes "session_inv (sess w j)" "reads (sess w j) = Read_header # rs"
  shows "accepted (header_arrives mem rmem j ec bs w) = accepted w \<and>
    (\<exists>h. sess (header_arrives mem rmem j ec bs w) j = finish_header mem ec bs h (sess w j\<lparr>reads := rs\<rparr>)) \<and>
    (\<forall>k. k \<noteq> j \<longrightarrow> called (sess w k) (sess (header_arrives mem rmem j ec bs w) k))"
proof -
  let ?s = "sess w j\<lparr>reads := rs\<rparr>"
  let ?s1 = "?s\<lparr>cur_inbound := map_option (\<lambda>p. fill_header p bs) (cur_inbound ?s)\<rparr>"
  obtain s2 r where r: "read_header mem ec (length bs) ?s1 = (s2, r)" by fastforce
  have "reader_busy ?s1" using assms by (auto simp: reader_busy_def session_ok_defs)
  then have inv: "session_inv s2" using session_inv_read_header [of ?s1 mem ec "length bs"] r by simp
  let ?v = "on_session j (\<lambda>_. s2) w"
  have w': "header_arrives mem rmem j ec bs w = route_to_handler rmem j r ?v"
    using r assms(2) by (simp add: header_arrives_def Let_def)
  have e: "accepted (route_to_handler rmem j r ?v) = accepted w \<and>
    (\<exists>h. sess (route_to_handler rmem j r ?v) j = deliver h r s2) \<and>
    (\<forall>k. k \<noteq> j \<longrightarrow> called (sess w k) (sess (route_to_handler rmem j r ?v) k))"
    using route_to_handler_effect [of ?v j rmem r] inv by simp
  then obtain h where "sess (route_to_handler rmem j r ?v) j = deliver h r s2" by blast
  then have "sess (header_arrives mem rmem j ec bs w) j = finish_header mem ec bs h ?s"
    using r by (simp add: w' finish_header_def Let_def)
  then have "\<exists>h. sess (header_arrives mem rmem j ec bs w) j = finish_header mem ec bs h ?s" ..
  moreover have "accepted (header_arrives mem rmem j ec bs w) = accepted w \<and>
      (\<forall>k. k \<noteq> j \<longrightarrow> called (sess w k) (sess (header_arrives mem rmem j ec bs w) k))"
    using e w' by simp
  ultimately show ?thesis by blast
qed

lemma body_arrives_effect:
  assumes "session_inv (sess w j)" "reads (sess w j) = Read_body n # rs"
  shows "accepted (body_arrives mem rmem j ec bs w) = accepted w \<and>
    (\<exists>h. sess (body_arrives mem rmem j ec bs w) j = finish_body mem ec bs h (sess w j\<lparr>reads := rs\<rparr>)) \<and>
    (\<forall>k. k \<noteq> j \<longrightarrow> called (sess w k) (sess (body_arrives mem rmem j ec bs w) k))"
proof -
  let ?s = "sess w j\<lparr>reads := rs\<rparr>"
  let ?s1 = "?s\<lparr>cur_inbound := map_option (\<lambda>p. fill_body p bs) (cur_inbound ?s)\<rparr>"
  obtain s2 r where r: "read_body mem ec (length bs) ?s1 = (s2, r)" by fastforce
  have "reader_busy ?s1" using assms by (auto simp: reader_busy_def session_ok_defs)
  then have inv: "session_inv s2" using session_inv_read_body [of ?s1 mem ec "length bs"] r by simp
  let ?v = "on_session j (\<lambda>_. s2) w"
  have w': "body_arrives mem rmem j ec bs w = route_to_handler rmem j r ?v"
    using r assms(2) by (simp add: body_arrives_def Let_def)
  have e: "accepted (route_to_handler rmem j r ?v) = accepted w \<and>
    (\<exists>h. sess (route_to_handler rmem j r ?v) j = deliver h r s2) \<and>
    (\<forall>k. k \<noteq> j \<longrightarrow> called (sess w k) (sess (route_to_handler rmem j r ?v) k))"
    using route_to_handler_effect [of ?v j rmem r] inv by simp
  then obtain h where "sess (route_to_handler rmem j r ?v) j = deliver h r s2" by blast
  then have "sess (body_arrives mem rmem j ec bs w) j = finish_body mem ec bs h ?s"
    using r by (simp add: w' finish_body_def Let_def)
  then have "\<exists>h. sess (body_arrives mem rmem j ec bs w) j = finish_body mem ec bs h ?s" ..
  moreover have "accepted (body_arrives mem rmem j ec bs w) = accepted w \<and>
      (\<forall>k. k \<noteq> j \<longrightarrow> called (sess w k) (sess (body_arrives mem rmem j ec bs w) k))"
    using e w' by simp
  ultimately show ?thesis by blast
qed

text \<open>A strand function: the connection itself makes one step, the others are called.\<close>

lemma strand_runs_effect:
  assumes "strand (sess w j) = t # ts"
  shows "accepted (strand_runs j w) = accepted w \<and>
    (\<exists>cs. sess (strand_runs j w) j = run_task cs t (sess w j\<lparr>strand := ts\<rparr>)) \<and>
    (\<forall>k. k \<noteq> j \<longrightarrow> called (sess w k) (sess (strand_runs j w) k))"
proof -
  let ?w1 = "on_session j (\<lambda>s. s\<lparr>strand := ts\<rparr>) w"
  have eff: "accepted v = accepted w \<and>
      (\<exists>cs. sess v j = handler_calls cs (emit x (sess w j\<lparr>strand := ts\<rparr>))) \<and>
      (\<forall>k. k \<noteq> j \<longrightarrow> called (sess w k) (sess v k))"
    if a: "acts (Some j) (on_session j (emit x) ?w1) v" for x v
  proof -
    obtain cs where "sess v j = handler_calls cs (emit x (sess w j\<lparr>strand := ts\<rparr>))"
      using acts_own [OF a] by (metis on_session_simps(1))
    moreover have "called (sess w k) (sess v k)" if "k \<noteq> j" for k
      using acts_other [OF a, of k] that by simp
    ultimately show ?thesis using a by (auto simp: acts_def)
  qed
  show ?thesis
  proof (cases "t = Task_user_enter \<or> t = Task_user_leave")
    case True
    then show ?thesis
      using assms eff [OF acts_user_enter, of Obs_enter] eff [OF acts_user_leave, of Obs_leave]
      by (auto simp: strand_runs_def Let_def)
  next
    case False
    then have "strand_runs j w = on_session j (run_task [] t) ?w1"
      using assms by (simp add: strand_runs_def Let_def split: task.split)
    then show ?thesis by auto
  qed
qed

lemma acts_stop: "acts None w (acceptor_stop w)"
  by (rule acts_refl)
    (simp_all add: acceptor_stop_def handler_on_stop_def base_on_stop_def Let_def)

lemma project_one:
  assumes "process_alive w" "sess_step (sess w j) e (sess w' j)"
    and "\<forall>k. k \<noteq> j \<longrightarrow> called (sess w k) (sess w' k)"
  shows "\<forall>k < accepted w. sess_steps (sess w k) (sess w' k)"
  using assms by (metis process_alive_def called_steps sess_steps_one)

lemma project_calls:
  assumes "process_alive w" "acts None w w'"
  shows "(\<forall>k < accepted w. sess_steps (sess w k) (sess w' k)) \<and> accepted w' = accepted w"
  using assms acts_other [OF assms(2)] called_steps by (auto simp: process_alive_def acts_def)

text \<open>Refinement: a step of the server, seen from a connection it had accepted, is a run of
  that connection's own state machine, provided every connection satisfies its invariant; a
  connection accepted by the step is a started one.\<close>

lemma world_step_projects:
  assumes "world_step w e w'" "\<And>k. k < accepted w \<Longrightarrow> session_inv (sess w k)"
  shows "(\<forall>k < accepted w. sess_steps (sess w k) (sess w' k)) \<and>
    (accepted w' = accepted w \<or>
     (accepted w' = Suc (accepted w) \<and>
      (\<exists>mems mem ip port. sess w' (accepted w) = start mem ip port (session_new mems))))"
  using assms(1)
proof (cases rule: world_step.cases)
  case (ws_accept ec ok mems smem ip port nmem)
  then show ?thesis by (auto simp: accept_def Let_def intro: steps_refl)
next
  case (ws_strand j)
  then obtain t ts where t: "strand (sess w j) = t # ts" by (cases "strand (sess w j)") auto
  obtain cs where "sess w' j = run_task cs t (sess w j\<lparr>strand := ts\<rparr>)"
    using strand_runs_effect [OF t] ws_strand by auto
  then have "sess_step (sess w j) (Ev_task cs) (sess w' j)"
    using ws_strand t step_task by (auto simp: process_alive_def)
  then show ?thesis
    using strand_runs_effect [OF t] project_one [of w j _ w'] ws_strand by auto
next
  case (ws_header j rs bs ec mem rmem)
  note eff = header_arrives_effect [OF assms(2) [OF \<open>j < accepted w\<close>] ws_header(5), of mem rmem ec bs]
  obtain h where "sess w' j = finish_header mem ec bs h (sess w j\<lparr>reads := rs\<rparr>)"
    using eff ws_header(2) by blast
  then have "sess_step (sess w j) (Ev_header mem ec bs h) (sess w' j)"
    using ws_header step_header [of "sess w j" rs bs ec mem h] by (auto simp: process_alive_def)
  then show ?thesis using eff project_one [of w j _ w'] ws_header by auto
next
  case (ws_body j n rs bs ec mem rmem)
  note eff = body_arrives_effect [OF assms(2) [OF \<open>j < accepted w\<close>] ws_body(5), of mem rmem ec bs]
  obtain h where "sess w' j = finish_body mem ec bs h (sess w j\<lparr>reads := rs\<rparr>)"
    using eff ws_body(2) by blast
  then have "sess_step (sess w j) (Ev_body mem ec bs h) (sess w' j)"
    using ws_body step_body [of "sess w j" n rs bs ec mem h] by (auto simp: process_alive_def)
  then show ?thesis using eff project_one [of w j _ w'] ws_body by auto
next
  case (ws_write j xs p ys ec)
  then show ?thesis
    by (auto simp: process_alive_def intro: steps_refl sess_steps_one step_write)
next
  case (ws_fast_write j xs p ys)
  then show ?thesis
    by (auto simp: process_alive_def intro: steps_refl sess_steps_one step_fast_write)
next
  case (ws_dealloc j)
  then show ?thesis
    by (auto simp: process_alive_def intro: steps_refl sess_steps_one step_dealloc)
next
  case (ws_broadcast xs c ys)
  then have "acts None w w'"
    using acts_trans [OF acts_refl acts_broadcast, of "w\<lparr>logout_posts := xs @ ys\<rparr>" w c] by simp
  then show ?thesis using project_calls ws_broadcast by blast
next
  case ws_keep_alive
  then show ?thesis using project_calls [of w w'] acts_sweep by auto
next
  case ws_stop
  then show ?thesis using project_calls [of w w'] acts_stop by auto
qed

end
