(* ===== verification/ServerInv.thy ===== *)
theory ServerInv
  imports ServerStep
begin

text \<open>
  Invariants of the running server: the connections are reachable states of the connection
  machine, and the user set and the registry are well formed. The user set holds no
  connection whose leave has been handled; the argument is the order of a connection's
  strand, on which \<open>on_user_enter\<close> is queued before anything else.
\<close>

section \<open>Order of a connection's strand\<close>

text \<open>An operation that only appends to the strand, never the enter, and handles no leave.\<close>

definition grows :: "session \<Rightarrow> session \<Rightarrow> bool" where
  "grows s t \<longleftrightarrow> (\<exists>xs. strand t = strand s @ xs \<and> Task_user_enter \<notin> set xs) \<and>
     leave_obs (trace t) = leave_obs (trace s)"

named_theorems grows_intros "operations that only append to the strand"

lemma growsI:
  "strand t = strand s @ xs \<Longrightarrow> Task_user_enter \<notin> set xs \<Longrightarrow>
   leave_obs (trace t) = leave_obs (trace s) \<Longrightarrow> grows s t"
  unfolding grows_def by blast

lemma grows_same: "strand t = strand s \<Longrightarrow> trace t = trace s \<Longrightarrow> grows s t"
  by (rule growsI [of _ _ "[]"]) simp_all

lemma grows_refl [simp]: "grows s s"
  by (rule grows_same) simp_all

lemma grows_trans: "grows s t \<Longrightarrow> grows t u \<Longrightarrow> grows s u"
  unfolding grows_def by fastforce

lemma grows_on_close [grows_intros]: "grows s (on_close b s)"
  unfolding on_close_def close_task_def Let_def
  by (auto intro: growsI [where xs = "[Task_close]"] growsI [where xs = "[Task_user_leave]"])

lemma grows_send_task [grows_intros]: "grows s (send_task p s)"
  by (rule growsI [where xs = "[]"])
    (auto simp: send_task_def async_write_front_def Let_def split: list.split)

lemma grows_fast_send_task [grows_intros]: "grows s (fast_send_task p s)"
  by (rule growsI [where xs = "[]"]) (auto simp: fast_send_task_def)

lemma grows_on_send [grows_intros]: "grows s (snd (on_send b q s))"
  unfolding on_send_def
  by (auto intro: grows_send_task growsI [where xs = "[Task_send p]" for p] split: option.split)

lemma grows_on_fast_send [grows_intros]: "grows s (snd (on_fast_send b q s))"
  unfolding on_fast_send_def
  by (auto intro: grows_fast_send_task growsI [where xs = "[Task_fast_send p]" for p]
      split: option.split)

lemma grows_raise_fault [grows_intros]: "grows s (raise_fault f s)"
  by (rule grows_same) simp_all

lemma grows_alloc [grows_intros]:
  "grows s (snd (session_alloc_outbound mem s))" "grows s (snd (session_alloc_inbound mem s))"
  by (auto simp: session_alloc_outbound_def session_alloc_inbound_def intro: grows_same
      split: prod.split)

lemma grows_send [grows_intros]: "grows s (snd (send b mem i body n s))"
proof -
  obtain q t where q: "session_alloc_outbound mem s = (q, t)" by fastforce
  then have "grows s t" using grows_alloc(1) [of s mem] by simp
  from grows_trans [OF this grows_on_send] grows_trans [OF this grows_raise_fault] this q
  show ?thesis by (simp add: send_def split: option.split)
qed

lemma grows_fast_send [grows_intros]: "grows s (snd (fast_send b i body n s))"
  by (auto simp: fast_send_def intro: grows_intros split: option.split)

lemma grows_api: "grows s (api_call b a s)"
  by (cases a) (auto intro: grows_intros grows_same
      simp: set_compid_def set_keep_alive_flag_def init_keep_alive_flag_def)

lemma grows_fold_api: "grows s (fold (api_call b) cs s)"
  by (induction cs arbitrary: s) (auto intro: grows_trans grows_api)

lemma grows_calls: "grows s (handler_calls cs s)"
  unfolding handler_calls_def by (rule grows_fold_api)

lemma grows_called: "called s t \<Longrightarrow> grows s t"
  unfolding called_def using grows_fold_api by blast

lemma grows_read [grows_intros]:
  "grows s (async_read_header s)" "grows s (async_read_body n s)"
  by (auto simp: async_read_header_def async_read_body_def Let_def intro!: grows_same)

lemma grows_next_header: "grows s (fst (next_header mem p s))"
proof -
  obtain q t where t: "session_alloc_inbound mem (s\<lparr>cur_inbound := None\<rparr>) = (q, t)" by fastforce
  have "grows s t"
    using grows_trans [OF grows_same grows_alloc(2), of "s\<lparr>cur_inbound := None\<rparr>" s mem] t by simp
  moreover have "grows t (t\<lparr>cur_inbound := x\<rparr>)" for x by (rule grows_same) simp_all
  ultimately have "grows s (t\<lparr>cur_inbound := x\<rparr>)" for x by (rule grows_trans)
  with grows_trans [OF this grows_read(1)] grows_trans [OF \<open>grows s t\<close> grows_on_close] t
  show ?thesis by (simp add: next_header_def Let_def split: option.split)
qed

lemma grows_read_header: "grows s (fst (read_header mem ec n s))"
proof -
  have u: "grows s (s\<lparr>cur_inbound := x\<rparr>)" "grows s (s\<lparr>keep_alive_flag := k, cur_inbound := x\<rparr>)" for x k
    by (rule grows_same; simp)+
  then show ?thesis
    by (auto simp: read_header_def set_keep_alive_flag_def Let_def split: option.split
        intro: grows_on_close grows_trans [OF u(1) grows_read(1)] grows_trans [OF u(2) grows_read(2)]
          grows_trans [OF grows_same grows_next_header])
qed

lemma grows_read_body: "grows s (fst (read_body mem ec n s))"
  by (auto simp: read_body_def intro: grows_on_close grows_next_header split: option.split)

lemma grows_deliver:
  assumes "session_inv s"
  shows "grows s (deliver h r s)"
proof (cases r)
  case None
  then show ?thesis by (simp add: deliver_def)
next
  case (Some p)
  have "grows s (emit (Obs_route p) s)" by (rule growsI [where xs = "[]"]) simp_all
  then have "grows s (handler_calls (snd h) (emit (Obs_route p) s))"
    using grows_trans grows_calls by blast
  note c = this
  have "grows t (session_dealloc_inbound p t)" for t
    by (rule grows_same) (simp_all add: session_dealloc_inbound_def)
  then have "grows t (session_dealloc_inbound p (on_close True t))" for t
    using grows_trans grows_on_close by blast
  with \<open>\<And>t. grows t (session_dealloc_inbound p t)\<close> show ?thesis
    using Some assms c grows_trans [OF c] grows_raise_fault
    by (simp add: deliver_Some Let_def split: option.split)
qed

lemma grows_finish_header:
  assumes "reader_busy s"
  shows "grows s (finish_header mem ec bs h s)"
proof -
  let ?s = "s\<lparr>cur_inbound := map_option (\<lambda>p. fill_header p bs) (cur_inbound s)\<rparr>"
  have "grows s (fst (read_header mem ec (length bs) ?s))"
    by (rule grows_trans [OF grows_same grows_read_header]) simp_all
  moreover have "session_inv (fst (read_header mem ec (length bs) ?s))"
    using assms by (simp add: session_inv_read_header)
  ultimately show ?thesis
    using grows_trans [OF _ grows_deliver, of s "fst (read_header mem ec (length bs) ?s)" h]
    by (cases "read_header mem ec (length bs) ?s") (simp add: finish_header_def Let_def)
qed

lemma grows_finish_body:
  assumes "reader_busy s"
  shows "grows s (finish_body mem ec bs h s)"
proof -
  let ?s = "s\<lparr>cur_inbound := map_option (\<lambda>p. fill_body p bs) (cur_inbound s)\<rparr>"
  have "grows s (fst (read_body mem ec (length bs) ?s))"
    by (rule grows_trans [OF grows_same grows_read_body]) simp_all
  moreover have "session_inv (fst (read_body mem ec (length bs) ?s))"
    using assms by (simp add: session_inv_read_body)
  ultimately show ?thesis
    using grows_trans [OF _ grows_deliver, of s "fst (read_body mem ec (length bs) ?s)" h]
    by (cases "read_body mem ec (length bs) ?s") (simp add: finish_body_def Let_def)
qed

lemma grows_async_write [grows_intros]: "grows s (async_write_front s)"
  by (rule growsI [where xs = "[]"]) (auto simp: async_write_front_def split: list.split)

lemma grows_write_done: "grows s (write_done ec (s\<lparr>writes := ws\<rparr>))"
proof -
  define s1 where "s1 = (if ec \<noteq> None then on_close True (s\<lparr>writes := ws\<rparr>) else s\<lparr>writes := ws\<rparr>)"
  have 1: "grows s s1"
    unfolding s1_def by (auto intro: grows_same grows_trans [OF grows_same grows_on_close])
  have 2: "grows s1 (s1\<lparr>outbound_q := q, deallocs := d\<rparr>)" for q d by (rule grows_same) simp_all
  have "grows s1 (write_done ec (s\<lparr>writes := ws\<rparr>))"
    unfolding write_done_def s1_def [symmetric] Let_def
    using 2 grows_trans [OF 2 grows_async_write] grows_on_close by (simp split: list.split)
  with 1 show ?thesis by (rule grows_trans)
qed

lemma grows_run_dealloc: "grows s (run_dealloc s)"
  by (rule grows_same) (auto simp: run_dealloc_def split: list.split)

text \<open>On a strand the enter can only be first, and a connection whose leave was handled has no
  enter waiting.\<close>

definition enter_ok :: "session \<Rightarrow> bool" where
  "enter_ok s \<longleftrightarrow> Task_user_enter \<notin> set (tl (strand s)) \<and>
     (0 < leave_obs (trace s) \<longrightarrow> Task_user_enter \<notin> set (strand s))"

lemma enter_ok_grows: "grows s t \<Longrightarrow> enter_ok s \<Longrightarrow> enter_ok t"
  by (cases "strand s"; cases "strand t") (auto simp: grows_def enter_ok_def)

lemma enter_ok_step:
  assumes "reachable s" "enter_ok s" "sess_step s e t"
  shows "enter_ok t"
  using assms(3)
proof (cases rule: sess_step.cases)
  case (step_api a)
  then show ?thesis using assms(2) grows_api enter_ok_grows by blast
next
  case (step_task t' ts calls)
  have no: "Task_user_enter \<notin> set ts" using assms(2) step_task by (simp add: enter_ok_def)
  have g: "grows (s\<lparr>strand := ts\<rparr>) t \<or>
      (\<exists>x. grows (emit x (s\<lparr>strand := ts\<rparr>)) t)"
    using step_task grows_calls
    by (cases t') (auto intro: grows_intros grows_same growsI [where xs = "[Task_user_leave]"]
        simp: close_task_def)
  then have "Task_user_enter \<notin> set (strand t)" using no by (auto simp: grows_def)
  then show ?thesis by (cases "strand t") (auto simp: enter_ok_def)
next
  case (step_header rs bs ec mem h)
  have "reader_busy (s\<lparr>reads := rs\<rparr>)"
    using reachable_inv [OF assms(1)] step_header by (auto simp: reader_busy_def session_ok_defs)
  from grows_finish_header [OF this] have "grows (s\<lparr>reads := rs\<rparr>) t" using step_header by simp
  then have "grows s t" by (rule grows_trans [OF grows_same, rotated -1]) simp_all
  then show ?thesis using assms(2) enter_ok_grows by blast
next
  case (step_body n rs bs ec mem h)
  have "reader_busy (s\<lparr>reads := rs\<rparr>)"
    using reachable_inv [OF assms(1)] step_body by (auto simp: reader_busy_def session_ok_defs)
  from grows_finish_body [OF this] have "grows (s\<lparr>reads := rs\<rparr>) t" using step_body by simp
  then have "grows s t" by (rule grows_trans [OF grows_same, rotated -1]) simp_all
  then show ?thesis using assms(2) enter_ok_grows by blast
next
  case (step_write xs p ys ec)
  then show ?thesis using assms(2) grows_write_done enter_ok_grows by blast
next
  case (step_fast_write xs p ys)
  then show ?thesis using assms(2) by (simp add: enter_ok_def)
next
  case step_dealloc
  then show ?thesis using assms(2) grows_run_dealloc enter_ok_grows by blast
qed

lemma reachable_enter_ok: "reachable s \<Longrightarrow> enter_ok s"
proof (induction rule: reachable_induct)
  case (start mems mem ip port)
  show ?case
    by (auto simp: enter_ok_def start_def session_new_def session_alloc_inbound_def Let_def
        async_read_header_def on_close_def split: prod.split option.split)
next
  case (step s e t)
  then show ?case using enter_ok_step by blast
qed

section \<open>The invariant of the server\<close>

definition server_inv :: "world \<Rightarrow> bool" where
  "server_inv w \<longleftrightarrow>
     (\<forall>k < accepted w. reachable (sess w k)) \<and>
     distinct (user_set w) \<and>
     (\<forall>j \<in> set (user_set w). j < accepted w \<and> leave_obs (trace (sess w j)) = 0) \<and>
     distinct (map fst (registry w)) \<and>
     (\<forall>e \<in> set (registry w). snd e < accepted w)"

text \<open>What the handler leaves alone, and what it does to the registry.\<close>

definition same_books :: "world \<Rightarrow> world \<Rightarrow> bool" where
  "same_books w w' \<longleftrightarrow> registry w' = registry w \<and> user_set w' = user_set w"

lemma same_books_refl [simp]: "same_books w w"
  by (simp add: same_books_def)

lemma same_books_struct [simp]:
  "registry (send_struct b mem j m w) = registry w" "user_set (send_struct b mem j m w) = user_set w"
  "registry (fast_send_struct b j m w) = registry w" "user_set (fast_send_struct b j m w) = user_set w"
  by (simp_all add: send_struct_def fast_send_struct_def)

lemma same_books_fold: "(\<And>k v. same_books v (f k v)) \<Longrightarrow> same_books w (fold f ks w)"
proof (induction ks arbitrary: w)
  case (Cons k ks)
  then have "same_books w (f k w)" "same_books (f k w) (fold f ks (f k w))" by blast+
  then show ?case by (simp add: same_books_def)
qed simp

lemma same_books_fold_fast [simp]: "same_books w (fold (\<lambda>k. fast_send_struct (b k) k m) ks w)"
  by (rule same_books_fold) (simp add: same_books_def)

lemma same_books_broadcast: "same_books w (logout_broadcast c w)"
  using same_books_fold_fast [of w "\<lambda>_. False"]
  by (simp add: logout_broadcast_def split: option.split)

lemma same_books_sweep: "same_books w (snd (keep_alive_sweep w))"
  by (auto simp: keep_alive_sweep_def keep_alive_one_def intro!: same_books_fold)
    (simp_all add: same_books_def)

definition registry_change :: "sid \<Rightarrow> registry \<Rightarrow> registry \<Rightarrow> bool" where
  "registry_change j r r' \<longleftrightarrow>
     (distinct (map fst r) \<longrightarrow> distinct (map fst r')) \<and> (\<forall>e \<in> set r'. e \<in> set r \<or> snd e = j)"

lemma registry_change_refl [simp]: "registry_change j r r"
  by (simp add: registry_change_def)

lemma registry_change_leave [simp]: "registry_change j r (session_leave c r)"
  using session_leave_subset [of c r] distinct_erase_key [of r c]
  by (auto simp: registry_change_def session_leave_def split: option.splits)

lemma registry_change_enter:
  "session_enter f (Some j) r = (b, r') \<Longrightarrow> registry_change j r r'"
  using distinct_try_emplace [of r "f j" j]
  by (auto simp: registry_change_def session_enter_def try_emplace_def split: if_splits)

lemma on_route_books:
  "user_set (snd (handler_on_route mem j w p)) = user_set w \<and>
   registry_change j (registry w) (registry (snd (handler_on_route mem j w p)))"
proof -
  have 1: "same_books w (snd (dispatch_CS_SOME_DATA j c name w))" for c name
    by (simp add: dispatch_CS_SOME_DATA_def split: option.split)
  have 2: "user_set (snd (dispatch_CS_SERVER_ACCESS mem j c w)) = user_set w \<and>
      registry_change j (registry w) (registry (snd (dispatch_CS_SERVER_ACCESS mem j c w)))" for c
    by (auto simp: dispatch_CS_SERVER_ACCESS_def Let_def dest: registry_change_enter
        split: option.split prod.split bool.split)
  have 3: "user_set (snd (dispatch_CS_SERVER_LOGIN mem j c w)) = user_set w \<and>
      registry_change j (registry w) (registry (snd (dispatch_CS_SERVER_LOGIN mem j c w)))" for c
    by (auto simp: dispatch_CS_SERVER_LOGIN_def Let_def split: option.split)
  show ?thesis
    using 1 2 3
    by (auto simp: handler_on_route_def dispatch_CS_HEART_BEAT_def dispatch_CS_TOTAL_USERCOUNT_def
        dispatch_CS_USER_LOOKUP_def same_books_def split: option.split message.split)
qed

lemma route_to_handler_books:
  assumes "inbound_q (sess w j) = []"
  shows "user_set (route_to_handler mem j r w) = user_set w \<and>
    registry_change j (registry w) (registry (route_to_handler mem j r w))"
proof (cases r)
  case None
  then show ?thesis by (simp add: route_to_handler_def)
next
  case (Some p)
  let ?v = "on_session j (\<lambda>s. emit (Obs_route p) (s\<lparr>inbound_q := []\<rparr>))
      (on_session j (\<lambda>_. sess w j\<lparr>inbound_q := [p]\<rparr>) w)"
  obtain res w2 where "handler_on_route mem j ?v p = (res, w2)" by fastforce
  then show ?thesis
    using on_route_books [of mem j ?v p] Some assms
    by (cases res) (simp_all add: route_to_handler_def route_def Let_def)
qed

lemma arrives_books:
  assumes "session_inv (sess w j)" "reads (sess w j) = rd # rs"
  shows "user_set (header_arrives mem rmem j ec bs w) = user_set w \<and>
      registry_change j (registry w) (registry (header_arrives mem rmem j ec bs w))"
    and "user_set (body_arrives mem rmem j ec bs w) = user_set w \<and>
      registry_change j (registry w) (registry (body_arrives mem rmem j ec bs w))"
proof -
  have busy: "reader_busy (sess w j\<lparr>reads := rs, cur_inbound := q\<rparr>)" for q
    using assms by (auto simp: reader_busy_def session_ok_defs)
  let ?h = "sess w j\<lparr>reads := rs, cur_inbound := map_option (\<lambda>p. fill_header p bs) (cur_inbound (sess w j))\<rparr>"
  let ?b = "sess w j\<lparr>reads := rs, cur_inbound := map_option (\<lambda>p. fill_body p bs) (cur_inbound (sess w j))\<rparr>"
  obtain s2 r where h: "read_header mem ec (length bs) ?h = (s2, r)" by fastforce
  have "inbound_q s2 = []"
    using session_inv_read_header [OF busy, where mem = mem and ec = ec and n = "length bs"] h
    by (metis fst_conv session_inv_def)
  then show "user_set (header_arrives mem rmem j ec bs w) = user_set w \<and>
      registry_change j (registry w) (registry (header_arrives mem rmem j ec bs w))"
    using route_to_handler_books [of "on_session j (\<lambda>_. s2) w" j rmem r] assms(2) h
    by (simp add: header_arrives_def Let_def)
  obtain s2 r where b: "read_body mem ec (length bs) ?b = (s2, r)" by fastforce
  have "inbound_q s2 = []"
    using session_inv_read_body [OF busy, where mem = mem and ec = ec and n = "length bs"] b
    by (metis fst_conv session_inv_def)
  then show "user_set (body_arrives mem rmem j ec bs w) = user_set w \<and>
      registry_change j (registry w) (registry (body_arrives mem rmem j ec bs w))"
    using route_to_handler_books [of "on_session j (\<lambda>_. s2) w" j rmem r] assms(2) b
    by (simp add: body_arrives_def Let_def)
qed

section \<open>Every step keeps it\<close>

definition users_ok :: "world \<Rightarrow> bool" where
  "users_ok w \<longleftrightarrow> distinct (user_set w) \<and>
     (\<forall>j \<in> set (user_set w). j < accepted w \<and> leave_obs (trace (sess w j)) = 0)"

definition registered_ok :: "world \<Rightarrow> bool" where
  "registered_ok w \<longleftrightarrow>
     distinct (map fst (registry w)) \<and> (\<forall>e \<in> set (registry w). snd e < accepted w)"

lemma server_inv_alt:
  "server_inv w \<longleftrightarrow> (\<forall>k < accepted w. reachable (sess w k)) \<and> users_ok w \<and> registered_ok w"
  by (auto simp: server_inv_def users_ok_def registered_ok_def)

lemma users_ok_same:
  "users_ok w \<Longrightarrow> set (user_set w') \<subseteq> set (user_set w) \<Longrightarrow> distinct (user_set w') \<Longrightarrow>
   accepted w \<le> accepted w' \<Longrightarrow>
   \<forall>k < accepted w. leave_obs (trace (sess w' k)) = leave_obs (trace (sess w k)) \<Longrightarrow> users_ok w'"
  unfolding users_ok_def by fastforce

lemma registered_ok_change:
  "registered_ok w \<Longrightarrow> registry_change j (registry w) (registry w') \<Longrightarrow> j < accepted w \<Longrightarrow>
   accepted w \<le> accepted w' \<Longrightarrow> registered_ok w'"
  unfolding registered_ok_def registry_change_def by fastforce

lemma registered_ok_same:
  "registered_ok w \<Longrightarrow> registry w' = registry w \<Longrightarrow> accepted w \<le> accepted w' \<Longrightarrow> registered_ok w'"
  unfolding registered_ok_def by fastforce

lemma leave_obs_called: "called s t \<Longrightarrow> leave_obs (trace t) = leave_obs (trace s)"
  using grows_called grows_def by metis

lemma leave_obs_acts:
  "acts None w w' \<Longrightarrow> leave_obs (trace (sess w' k)) = leave_obs (trace (sess w k))"
  using acts_other leave_obs_called by blast

lemma user_set_strand:
  assumes "strand (sess w j) = t # ts"
  shows "user_set (strand_runs j w) =
    (if t = Task_user_enter \<and> registry_count (registry w) < default_connect_size \<and> j \<notin> set (user_set w)
     then user_set w @ [j]
     else if t = Task_user_leave then user_erase j (user_set w) else user_set w)"
proof (cases t)
  case Task_user_leave
  then show ?thesis
    using assms
    by (auto simp: strand_runs_def handler_on_user_leave_def base_on_user_leave_def Let_def
        is_session_def user_erase_def intro!: filter_True [symmetric])
qed (use assms in \<open>simp_all add: strand_runs_def handler_on_user_enter_def base_on_user_enter_def
      user_emplace_def is_session_def Let_def not_less\<close>)

text \<open>The users after a function of connection \<open>j\<close>'s strand.\<close>

lemma users_ok_strand:
  assumes "users_ok w" "j < accepted w" "enter_ok (sess w j)" "strand (sess w j) = t # ts"
  shows "users_ok (strand_runs j w)"
proof -
  note eff = strand_runs_effect [of w j t ts, OF assms(4)]
  have others: "leave_obs (trace (sess (strand_runs j w) k)) = leave_obs (trace (sess w k))" if "k \<noteq> j" for k
    using eff leave_obs_called that by blast
  obtain cs where own: "sess (strand_runs j w) j = run_task cs t (sess w j\<lparr>strand := ts\<rparr>)"
    using eff by blast
  show ?thesis
  proof (cases "t = Task_user_leave")
    case True
    then have "user_set (strand_runs j w) = user_erase j (user_set w)"
      using user_set_strand [OF assms(4)] by simp
    then show ?thesis
      using assms(1) others eff by (auto simp: users_ok_def user_erase_def)
  next
    case False
    have same: "leave_obs (trace (sess (strand_runs j w) j)) = leave_obs (trace (sess w j))"
    proof (cases t)
      case Task_user_enter
      then show ?thesis
        using own grows_calls [of "emit Obs_enter (sess w j\<lparr>strand := ts\<rparr>)" cs] by (simp add: grows_def)
    next
      case (Task_send p)
      then show ?thesis
        using own grows_send_task [of "sess w j\<lparr>strand := ts\<rparr>" p] by (simp add: grows_def)
    next
      case (Task_fast_send p)
      then show ?thesis
        using own grows_fast_send_task [of "sess w j\<lparr>strand := ts\<rparr>" p] by (simp add: grows_def)
    qed (use False own in \<open>simp_all add: close_task_def\<close>)
    have all': "leave_obs (trace (sess (strand_runs j w) k)) = leave_obs (trace (sess w k))" for k
      using same others by (cases "k = j") simp_all
    show ?thesis
    proof (cases "t = Task_user_enter \<and> user_set (strand_runs j w) = user_set w @ [j] \<and> j \<notin> set (user_set w)")
      case True
      then have "leave_obs (trace (sess w j)) = 0"
        using assms(3,4) by (auto simp: enter_ok_def)
      then have all: "leave_obs (trace (sess (strand_runs j w) k)) = 0" if "k \<in> insert j (set (user_set w))" for k
        using assms(1) others same that by (cases "k = j") (auto simp: users_ok_def)
      have "accepted (strand_runs j w) = accepted w" using eff by blast
      with True all show ?thesis using assms(1,2) by (auto simp: users_ok_def)
    next
      case F: False
      have "user_set (strand_runs j w) = user_set w"
        using F False user_set_strand [OF assms(4)] by (auto split: if_splits)
      then show ?thesis
        using users_ok_same [OF assms(1), of "strand_runs j w"] assms(1) all' eff
        by (simp add: users_ok_def)
    qed
  qed
qed

lemma registry_strand: "registry_change j (registry w) (registry (strand_runs j w))"
  by (auto simp: strand_runs_def handler_on_user_enter_def base_on_user_enter_def Let_def
      handler_on_user_leave_def base_on_user_leave_def user_emplace_def
      split: list.split task.split prod.split bool.split)

lemma server_inv_step:
  assumes "world_step w e w'" "server_inv w"
  shows "server_inv w'"
proof -
  have r: "\<And>k. k < accepted w \<Longrightarrow> reachable (sess w k)" and u: "users_ok w" and g: "registered_ok w"
    using assms(2) by (auto simp: server_inv_alt)
  have du: "distinct (user_set w)" using u by (simp add: users_ok_def)
  have inv: "\<And>k. k < accepted w \<Longrightarrow> session_inv (sess w k)" using r reachable_inv by blast
  note proj = world_step_projects [OF assms(1) inv]
  have r': "reachable (sess w' k)" if "k < accepted w'" for k
  proof (cases "k < accepted w")
    case True
    then show ?thesis using proj r reachable_steps by blast
  next
    case False
    then have "k = accepted w" "accepted w' = Suc (accepted w)" using proj that by auto
    then show ?thesis using proj reachable_start by force
  qed
  have acc: "accepted w \<le> accepted w'" using proj by auto
  have "users_ok w' \<and> registered_ok w'"
    using assms(1)
  proof (cases rule: world_step.cases)
    case (ws_accept ec ok mems smem ip port nmem)
    then show ?thesis
      using u g du acc by (intro conjI users_ok_same [OF u] registered_ok_same [OF g])
        (auto simp: accept_def Let_def)
  next
    case (ws_strand j)
    then obtain t ts where "strand (sess w j) = t # ts" by (cases "strand (sess w j)") auto
    with users_ok_strand [OF u] registered_ok_change [OF g registry_strand] acc
    show ?thesis using ws_strand r reachable_enter_ok by blast
  next
    case (ws_header j rs bs ec mem rmem)
    note b = arrives_books(1) [OF inv [OF ws_header(4)] ws_header(5)]
    note eff = header_arrives_effect [OF inv [OF ws_header(4)] ws_header(5), of mem rmem ec bs]
    have "reader_busy (sess w j\<lparr>reads := rs\<rparr>)"
      using inv [OF ws_header(4)] ws_header(5) by (auto simp: reader_busy_def session_ok_defs)
    then have "leave_obs (trace (sess w' k)) = leave_obs (trace (sess w k))" for k
      using eff grows_finish_header leave_obs_called ws_header(2)
      by (cases "k = j") (fastforce simp: grows_def)+
    then show ?thesis
      using b du acc ws_header registered_ok_change [OF g, of j w'] users_ok_same [OF u, of w'] by simp
  next
    case (ws_body j n rs bs ec mem rmem)
    note b = arrives_books(2) [OF inv [OF ws_body(4)] ws_body(5)]
    note eff = body_arrives_effect [OF inv [OF ws_body(4)] ws_body(5), of mem rmem ec bs]
    have "reader_busy (sess w j\<lparr>reads := rs\<rparr>)"
      using inv [OF ws_body(4)] ws_body(5) by (auto simp: reader_busy_def session_ok_defs)
    then have "leave_obs (trace (sess w' k)) = leave_obs (trace (sess w k))" for k
      using eff grows_finish_body leave_obs_called ws_body(2)
      by (cases "k = j") (fastforce simp: grows_def)+
    then show ?thesis
      using b du acc ws_body registered_ok_change [OF g, of j w'] users_ok_same [OF u, of w'] by simp
  next
    case (ws_write j xs p ys ec)
    then show ?thesis
      using du acc grows_write_done [of "sess w j" ec "xs @ ys"]
      by (intro conjI users_ok_same [OF u] registered_ok_same [OF g]) (auto simp: grows_def)
  next
    case (ws_fast_write j xs p ys)
    then show ?thesis
      using du acc by (intro conjI users_ok_same [OF u] registered_ok_same [OF g]) auto
  next
    case (ws_dealloc j)
    then show ?thesis
      using du acc grows_run_dealloc [of "sess w j"]
      by (intro conjI users_ok_same [OF u] registered_ok_same [OF g]) (auto simp: grows_def)
  next
    case (ws_broadcast xs c ys)
    have b: "registry w' = registry w" "user_set w' = user_set w"
      using same_books_broadcast [of "w\<lparr>logout_posts := xs @ ys\<rparr>" c] ws_broadcast
      by (simp_all add: same_books_def)
    have "acts None w w'"
      using acts_trans [OF acts_refl acts_broadcast, of "w\<lparr>logout_posts := xs @ ys\<rparr>" w c] ws_broadcast
      by simp
    then show ?thesis
      using b du acc leave_obs_acts
      by (intro conjI users_ok_same [OF u] registered_ok_same [OF g]) simp_all
  next
    case ws_keep_alive
    then show ?thesis
      using du acc same_books_sweep [of w] leave_obs_acts [OF acts_sweep]
      by (intro conjI users_ok_same [OF u] registered_ok_same [OF g]) (simp_all add: same_books_def)
  next
    case ws_stop
    then show ?thesis
      using du acc
      by (intro conjI users_ok_same [OF u] registered_ok_same [OF g])
        (auto simp: acceptor_stop_def handler_on_stop_def base_on_stop_def Let_def)
  qed
  with r' show ?thesis by (simp add: server_inv_alt)
qed

lemma server_reachable_inv: "server_reachable w \<Longrightarrow> server_inv w"
proof (induction rule: server_reachable.induct)
  case (sr_start bind_ok mem port)
  show ?case
    by (simp add: server_inv_def listen_start_def world_new_def handler_on_start_def
        base_on_start_def Let_def)
next
  case (sr_step w e w')
  then show ?case using server_inv_step by blast
qed

end
