(* ===== verification/ServerProps.thy ===== *)
theory ServerProps
  imports ServerInv
begin

text \<open>
  What the server guarantees: the connections in it behave as the connection machine, the
  user set and the registry stay well formed, the keep-alive sweep closes exactly the silent
  users, and what each packet does to the registry, to the connections and which reply it
  queues. The last section has the runs on which the code leaves its contract.
\<close>

section \<open>A small server\<close>

definition demo_world :: world where
  "demo_world = accept None True (\<lambda>_. (True, True)) True ''10.0.0.1'' 4000 True
     (snd (listen_start True True 7777 world_new))"

lemma demo_world_fields:
  "accepted demo_world = 1" "sess demo_world 0 = demo_session" "registry demo_world = []"
  "user_set demo_world = []" "crashed demo_world = False" "acc_shutdown demo_world = False"
  "keep_alive_on demo_world"
  by (simp_all add: demo_world_def listen_start_def world_new_def handler_on_start_def
      base_on_start_def accept_def Let_def demo_session_def)

lemma alive_demo_world: "process_alive demo_world"
  by (simp add: process_alive_def demo_world_fields demo_session_fields)

lemma server_reachable_demo: "server_reachable demo_world"
proof -
  let ?w = "snd (listen_start True True 7777 world_new)"
  have "world_step ?w (W_accept None True (\<lambda>_. (True, True)) True ''10.0.0.1'' 4000 True) demo_world"
    unfolding demo_world_def
    by (rule ws_accept) (simp_all add: process_alive_def listen_start_def world_new_def
        handler_on_start_def base_on_start_def Let_def)
  with sr_start show ?thesis by (rule sr_step)
qed

section \<open>Safety of every reachable server\<close>

lemma connection_reachable: "server_reachable w \<Longrightarrow> k < accepted w \<Longrightarrow> reachable (sess w k)"
  using server_reachable_inv by (simp add: server_inv_def)

lemma user_set_distinct: "server_reachable w \<Longrightarrow> distinct (user_set w)"
  using server_reachable_inv by (simp add: server_inv_def)

text \<open>C6. Refinement: in every reachable state of the server, with the application's handler
  running its packets, its broadcasts and its timer, every connection is in a state that the
  connection's own machine can reach, so each property of a connection holds of it.\<close>

theorem server_connections_reachable:
  assumes "server_reachable w" and "k < accepted w"
  shows "reachable (sess w k)"
  using assms by (rule connection_reachable)

theorem server_connections_reachable_witness: "reachable (sess demo_world 0)"
  by (rule server_connections_reachable [OF server_reachable_demo]) (simp add: demo_world_fields)



section \<open>Keep-alive\<close>

lemma keep_alive_one_sess:
  "sess (keep_alive_one j w) k =
     (if k = j then (if keep_alive_flag (sess w j) then init_keep_alive_flag (sess w j)
                     else on_close False (sess w j)) else sess w k)"
  by (simp add: keep_alive_one_def)

lemma sweep_sess:
  "distinct us \<Longrightarrow> sess (fold keep_alive_one us w) k =
     (if k \<in> set us then (if keep_alive_flag (sess w k) then init_keep_alive_flag (sess w k)
                          else on_close False (sess w k)) else sess w k)"
  by (induction us arbitrary: w) (auto simp: keep_alive_one_sess)

lemma on_close_closed [simp]: "\<not> is_connected (on_close b s)"
  by (simp add: on_close_def close_task_def Let_def)

lemma on_close_keep_alive [simp]: "keep_alive_flag (on_close b s) = keep_alive_flag s"
  by (simp add: on_close_def close_task_def Let_def)

lemma init_keep_alive_simps [simp]:
  "\<not> keep_alive_flag (init_keep_alive_flag s)" "is_connected (init_keep_alive_flag s) = is_connected s"
  "reads (init_keep_alive_flag s) = reads s" "cur_inbound (init_keep_alive_flag s) = cur_inbound s"
  by (simp_all add: init_keep_alive_flag_def)

text \<open>C21. One keep-alive sweep of a reachable server closes exactly the users not heard from
  since the last sweep, takes the mark from the others, which stay as they were, touches no
  connection outside the user set, and keeps the timer running; a second sweep with nothing
  received in between leaves no user connected.\<close>

theorem keep_alive_closes_silent:
  assumes "server_reachable w" and "w' = snd (keep_alive_sweep w)"
  shows "fst (keep_alive_sweep w) \<and>
    (\<forall>j. j \<in> set (user_set w) \<and> keep_alive_flag (sess w j) \<longrightarrow>
       sess w' j = (sess w j)\<lparr>keep_alive_flag := False\<rparr>) \<and>
    (\<forall>j. j \<in> set (user_set w) \<and> \<not> keep_alive_flag (sess w j) \<longrightarrow> \<not> is_connected (sess w' j)) \<and>
    (\<forall>j. j \<notin> set (user_set w) \<longrightarrow> sess w' j = sess w j) \<and>
    (\<forall>j \<in> set (user_set w). \<not> is_connected (sess (snd (keep_alive_sweep w')) j))"
proof -
  have d: "distinct (user_set w)" by (rule user_set_distinct [OF assms(1)])
  have s: "sess w' k =
     (if k \<in> set (user_set w) then (if keep_alive_flag (sess w k) then init_keep_alive_flag (sess w k)
                          else on_close False (sess w k)) else sess w k)" for k
    using sweep_sess [OF d] by (simp add: assms(2) keep_alive_sweep_def)
  have u: "user_set w' = user_set w"
    using same_books_sweep [of w] by (simp add: assms(2) same_books_def)
  have s2: "sess (snd (keep_alive_sweep w')) k =
     (if k \<in> set (user_set w) then (if keep_alive_flag (sess w' k) then init_keep_alive_flag (sess w' k)
                          else on_close False (sess w' k)) else sess w' k)" for k
    using sweep_sess [OF d] by (simp add: keep_alive_sweep_def u)
  have f: "\<not> keep_alive_flag (sess w' k)" if "k \<in> set (user_set w)" for k
    using that by (simp add: s)
  show ?thesis
    using f s2 by (simp add: s keep_alive_sweep_def init_keep_alive_flag_def)
qed

theorem keep_alive_closes_silent_witness:
  "fst (keep_alive_sweep demo_world) \<and> sess (snd (keep_alive_sweep demo_world)) 0 = demo_session"
  using keep_alive_closes_silent [OF server_reachable_demo refl] by (simp add: demo_world_fields)

section \<open>Replies\<close>

text \<open>The id and the body of a send buffer, and the packets a connection has queued so far.\<close>

definition packet_of :: "outbound \<Rightarrow> u16 \<times> u8 list" where
  "packet_of out = (hdr_id (out_header out), drop header_size_c (wire out))"

definition queued_packets :: "session \<Rightarrow> (u16 \<times> u8 list) list" where
  "queued_packets s = map packet_of (queued_obs (trace s))"

definition can_send :: "bool \<Rightarrow> session \<Rightarrow> bool" where
  "can_send mem s \<longleftrightarrow> is_connected s \<and> (mem \<or> outbound_pool s \<noteq> [])"

definition msg_packet :: "message \<Rightarrow> u16 \<times> u8 list" where
  "msg_packet m = (msg_id m, msg_bytes m)"

lemma encode_struct:
  assumes "msg_wf m"
  shows "\<exists>out. encode p (msg_id m) (Some (struct_buffer m)) (msg_sizeof m) = Some out \<and>
    packet_of out = msg_packet m"
proof -
  have b: "0 < msg_sizeof m" "msg_sizeof m \<le> 65519" using msg_sizeof_bounds [of m] by auto
  obtain out where out: "encode p (msg_id m) (Some (struct_buffer m)) (msg_sizeof m) = Some out"
    using encode_Some [OF b] by (simp add: Let_def)
  then have "packet_of out = msg_packet m"
    using wire_encode [OF b out] assms
    by (simp add: packet_of_def msg_packet_def slice_struct_buffer)
  with out show ?thesis by blast
qed

lemma queued_packets_simps [simp]:
  "queued_packets (s\<lparr>outbound_pool := x\<rparr>) = queued_packets s"
  "queued_packets (snd (set_compid c s)) = queued_packets s"
  by (simp_all add: queued_packets_def set_compid_def)

lemma queued_send_task: "queued_packets (send_task p s) = queued_packets s @ [packet_of p]"
  by (auto simp: queued_packets_def send_task_def async_write_front_def Let_def split: list.split)

lemma queued_send:
  assumes "can_send mem s" "msg_wf m"
  shows "queued_packets (snd (send True mem (msg_id m) (Some (struct_buffer m)) (msg_sizeof m) s)) =
    queued_packets s @ [msg_packet m]"
proof -
  obtain p ps where a: "alloc_outbound mem (outbound_pool s) = (Some p, ps)"
    using out_pool.alloc_succeeds [of mem "outbound_pool s"] assms(1)
    by (cases "alloc_outbound mem (outbound_pool s)") (auto simp: can_send_def)
  obtain out where "encode p (msg_id m) (Some (struct_buffer m)) (msg_sizeof m) = Some out"
    "packet_of out = msg_packet m"
    using encode_struct [OF assms(2)] by blast
  with a assms(1) show ?thesis
    by (simp add: send_def session_alloc_outbound_def on_send_def queued_send_task can_send_def)
qed

lemma queued_send_struct:
  "can_send mem (sess w j) \<Longrightarrow> msg_wf m \<Longrightarrow>
   queued_packets (sess (send_struct True mem j m w) j) = queued_packets (sess w j) @ [msg_packet m]"
  by (simp add: send_struct_def queued_send)

lemma sess_send_struct_other [simp]:
  "k \<noteq> j \<Longrightarrow> sess (send_struct b mem j m w) k = sess w k"
  by (simp add: send_struct_def)

lemma compid_send_task [simp]: "compid (send_task p s) = compid s"
  by (auto simp: send_task_def async_write_front_def emit_def Let_def split: list.split)

lemma compid_send [simp]: "compid (snd (send b mem i body n s)) = compid s"
  by (auto simp: send_def session_alloc_outbound_def on_send_def raise_fault_def
      split: prod.split option.split)

lemma compid_send_struct [simp]: "compid (sess (send_struct b mem j m w) k) = compid (sess w k)"
  by (simp add: send_struct_def)

lemma msg_wf_access [simp]: "msg_wf (access_reply r c)"
  by (simp add: access_reply_def)

lemma can_send_set_compid [simp]: "can_send mem (snd (set_compid c s)) = can_send mem s"
  by (simp add: can_send_def set_compid_def)

section \<open>What the packets do\<close>

text \<open>What SERVER_ACCESS with a free id does.\<close>

lemma access_free:
  assumes "c \<noteq> 0" "session_lookup c (registry w) = None"
  shows "\<exists>r. dispatch_CS_SERVER_ACCESS mem j c w =
      (Some True, send_struct True mem j (access_reply 1 c)
         ((on_session j (\<lambda>s. snd (set_compid c s)) w)\<lparr>registry := r\<rparr>)) \<and>
    map_of r = (map_of (registry w))(c \<mapsto> j)"
proof -
  let ?w1 = "on_session j (\<lambda>s. snd (set_compid c s)) w"
  have e: "session_enter (\<lambda>k. compid (sess ?w1 k)) (Some j) (registry w) =
      session_enter (\<lambda>_. c) (Some j) (registry w)"
    using assms(1) by (simp add: session_enter_def set_compid_def)
  have "map_of (registry w) c = None" using assms by (simp add: session_lookup_def)
  then obtain r where "session_enter (\<lambda>_. c) (Some j) (registry w) = (True, r)"
    "map_of r = (map_of (registry w))(c \<mapsto> j)"
    using map_of_try_emplace [of c j "registry w"]
    by (cases "try_emplace c j (registry w)")
      (auto simp: session_enter_def try_emplace_def split: if_splits)
  then show ?thesis using assms(2) e
    by (intro exI [of _ r]) (simp add: dispatch_CS_SERVER_ACCESS_def Let_def)
qed


lemma can_send_demo: "can_send True (sess demo_world 0)"
  by (simp add: can_send_def demo_world_fields demo_session_fields)



definition demo_world2 :: world where
  "demo_world2 = snd (dispatch_CS_SERVER_ACCESS True 0 5
     (accept None True (\<lambda>_. (True, True)) True ''10.0.0.2'' 4001 True demo_world))"

lemma demo_world2_fields:
  "sess demo_world2 1 = start True ''10.0.0.2'' 4001 (session_new (\<lambda>_. (True, True)))"
  "session_lookup 5 (registry demo_world2) = Some 0" "compid (sess demo_world2 0) = 5"
proof -
  let ?w = "accept None True (\<lambda>_. (True, True)) True ''10.0.0.2'' 4001 True demo_world"
  have f: "sess ?w 0 = demo_session" "registry ?w = []"
    "sess ?w 1 = start True ''10.0.0.2'' 4001 (session_new (\<lambda>_. (True, True)))"
    by (simp_all add: accept_def demo_world_fields Let_def)
  then show "sess demo_world2 1 = start True ''10.0.0.2'' 4001 (session_new (\<lambda>_. (True, True)))"
    "session_lookup 5 (registry demo_world2) = Some 0" "compid (sess demo_world2 0) = 5"
    by (simp_all add: demo_world2_def dispatch_CS_SERVER_ACCESS_def session_lookup_def Let_def
        session_enter_def try_emplace_def set_compid_def split: prod.split bool.split)
qed


text \<open>Queries change nothing but the reply: USER_LOOKUP is answered with 0 exactly when the id
  is registered and with 1 otherwise, TOTAL_USERCOUNT with the size of the registry modulo
  65536, and refused for the id 0.\<close>

lemma queries_reply:
  assumes "can_send mem (sess w j)"
  shows "(\<exists>w'. dispatch_CS_USER_LOOKUP mem j c w = (Some True, w') \<and>
      registry w' = registry w \<and> user_set w' = user_set w \<and> (\<forall>k. k \<noteq> j \<longrightarrow> sess w' k = sess w k) \<and>
      queued_packets (sess w' j) = queued_packets (sess w j) @
        [msg_packet (SC_USER_LOOKUP c (if c \<noteq> 0 \<and> is_exist c (registry w) then 0 else 1))]) \<and>
    (\<exists>w'. dispatch_CS_TOTAL_USERCOUNT mem j c w = (Some (c \<noteq> 0), w') \<and>
      registry w' = registry w \<and> user_set w' = user_set w \<and> (\<forall>k. k \<noteq> j \<longrightarrow> sess w' k = sess w k) \<and>
      queued_packets (sess w' j) = queued_packets (sess w j) @
        (if c = 0 then [] else [msg_packet (SC_TOTAL_USERCOUNT c (word_of_nat (registry_count (registry w))))]))"
  using assms
  by (auto simp: dispatch_CS_USER_LOOKUP_def dispatch_CS_TOTAL_USERCOUNT_def queued_send_struct
      is_exist_def session_lookup_def split: option.split)

theorem queries_reply_witness:
  "\<exists>w'. dispatch_CS_USER_LOOKUP True 0 7 demo_world = (Some True, w') \<and>
     queued_packets (sess w' 0) = queued_packets demo_session @ [msg_packet (SC_USER_LOOKUP 7 1)]"
proof -
  have "is_exist 7 (registry demo_world) = False" by (simp add: is_exist_def demo_world_fields)
  with queries_reply [OF can_send_demo, of 7] show ?thesis
    by (simp add: demo_world_fields) blast
qed

text \<open>Leaving: when a connection's leave runs, it is removed from the user set and its account
  id from the registry, the broadcast of the logout is posted exactly when it had an id, and
  the other users and ids stay.\<close>

lemma leave_unregisters:
  assumes "w' = snd (handler_on_user_leave j w)" and "c = compid (sess w j)"
  shows "set (user_set w') = set (user_set w) - {j} \<and>
    (\<forall>d. session_lookup d (registry w') = (if d = c then None else session_lookup d (registry w))) \<and>
    logout_posts w' = logout_posts w @ (if c = 0 then [] else [c]) \<and> sess w' = sess w"
proof -
  have "set (user_set w') = set (user_set w) - {j}" "sess w' = sess w"
    "logout_posts w' = logout_posts w @ (if c = 0 then [] else [c])"
    "registry w' = (if c = 0 then registry w else session_leave c (registry w))"
    using assms by (auto simp: handler_on_user_leave_def base_on_user_leave_def is_session_def
        user_erase_def Let_def)
  then show ?thesis by (auto simp: session_lookup_def map_of_session_leave)
qed

theorem leave_unregisters_witness:
  "session_lookup 5 (registry (snd (handler_on_user_leave 0 demo_world2))) = None"
  using leave_unregisters [OF refl refl, of 0 demo_world2] by (simp add: demo_world2_fields)

section \<open>Broadcasting\<close>

text \<open>A packet handed to a connection by \<open>fast_send\<close>: written at once from inside its strand,
  queued on the strand from outside.\<close>

definition fast_posted :: "bool \<Rightarrow> u16 \<times> u8 list \<Rightarrow> session \<Rightarrow> session \<Rightarrow> bool" where
  "fast_posted in_strand pk s t \<longleftrightarrow>
     (\<exists>out. packet_of out = pk \<and>
        (if in_strand then writes t = writes s @ [Write_fast out]
         else strand t = strand s @ [Task_fast_send out]))"

lemma fast_send_posted:
  assumes "is_connected s" "msg_wf m"
  shows "fast_posted b (msg_packet m) s
    (snd (fast_send b (msg_id m) (Some (struct_buffer m)) (msg_sizeof m) s))"
proof -
  obtain out where "encode outbound_new (msg_id m) (Some (struct_buffer m)) (msg_sizeof m) = Some out"
    "packet_of out = msg_packet m"
    using encode_struct [OF assms(2)] by blast
  with assms(1) show ?thesis
    by (auto simp: fast_send_def on_fast_send_def fast_send_task_def fast_posted_def emit_def)
qed

lemma sess_fold_fast:
  "distinct ks \<Longrightarrow> sess (fold (\<lambda>k. fast_send_struct (b k) k m) ks w) k =
     (if k \<in> set ks
      then snd (fast_send (b k) (msg_id m) (Some (struct_buffer m)) (msg_sizeof m) (sess w k))
      else sess w k)"
  by (induction ks arbitrary: w) (auto simp: fast_send_struct_def)

lemma length_some_data [simp]: "length some_data_text = 100"
  by (simp add: some_data_text_def)



section \<open>Where the code leaves its contract\<close>

lemma compid_updates [simp]:
  "compid (emit x s) = compid s" "compid (raise_fault f s) = compid s"
  by (simp_all add: emit_def raise_fault_def)

definition some_data_header :: "u8 list" where
  "some_data_header = header_bytes (header_init\<lparr>hdr_id := 53003, hdr_size := 34\<rparr>)"

lemma some_data_header_props:
  "length some_data_header = 16"
  "hdr_id (header_ptr (fill_header p some_data_header)) = 53003"
  "unat (in_body_size (decide (fill_header p some_data_header))) = 18"
  by (simp_all add: some_data_header_def in_body_size_decide Let_def)

lemma some_data_header_arrives:
  assumes "process_alive w" "j < accepted w" "is_connected (sess w j)" "reads (sess w j) = [Read_header]"
    and "cur_inbound (sess w j) = Some p"
  shows "world_step w (W_header True True j None some_data_header)
    (on_session j (\<lambda>_. (sess w j)\<lparr>keep_alive_flag := True,
       cur_inbound := Some (decide (fill_header p some_data_header)), reads := [Read_body 18]\<rparr>) w)" (is "world_step w _ ?w1")
proof -
  have "header_arrives True True j None some_data_header w = ?w1"
    using assms(3-5)
    by (simp add: header_arrives_def Let_def read_header_def set_keep_alive_flag_def
        some_data_header_props async_read_body_def route_to_handler_def)
  then show ?thesis
    using ws_header [OF assms(1,2), of "[]" some_data_header None True True] assms(4)
    by (simp add: some_data_header_props)
qed

text \<open>The body with an empty name, on a connection that has read its header.\<close>

lemma empty_name_throws:
  fixes w name j defines "body \<equiv> msg_bytes (CS_SOME_DATA (compid (sess w j)) name)"
  assumes "is_connected (sess w j)" "fault (sess w j) = None" "inbound_q (sess w j) = []"
    and "cur_inbound (sess w j) = Some (decide (fill_header p some_data_header))"
    and "reads (sess w j) = [Read_body 18]" "length name = 10" "hd name = 0"
  shows "fault (sess (body_arrives True True j None body w) j) = Some Terminate"
proof -
  let ?s = "sess w j" and ?ib = "decide (fill_header p some_data_header)"
  have n: "unat (in_body_size ?ib) = 18" by (rule some_data_header_props)
  have l: "length body = 18" using assms(7) by (simp add: body_def)
  let ?b = "?s\<lparr>reads := [], cur_inbound := Some (fill_body ?ib body)\<rparr>"
  obtain q ps where q: "session_alloc_inbound True (?b\<lparr>cur_inbound := None\<rparr>) =
      (Some q, ?b\<lparr>cur_inbound := None, inbound_pool := ps\<rparr>)"
    using session_alloc_inbound_True [of "?b\<lparr>cur_inbound := None\<rparr>"] by auto
  let ?c = "?b\<lparr>inbound_pool := ps, cur_inbound := Some q, reads := [Read_header]\<rparr>"
  have rb: "read_body True None (length body) ?b = (?c, Some (fill_body ?ib body))"
    using assms(2) q l n
    by (simp add: read_body_def next_header_def body_decode_id async_read_header_def)
  have m: "msg_at (hdr_id (header_ptr (fill_body ?ib body))) (in_raw (fill_body ?ib body)) =
      Some (CS_SOME_DATA (compid ?s) name)"
    using msg_at_blit [of "CS_SOME_DATA (compid ?s) name" "in_raw ?ib"] assms(7)
    by (simp add: body_def some_data_header_props fill_body_def del: msg_bytes.simps)
      (simp add: header_ptr_def some_data_header_props [unfolded header_ptr_def] del: msg_bytes.simps)
  have e: "takeWhile (\<lambda>b. b \<noteq> 0) name = []" using assms(7,8) by (cases name) auto
  have res: "handler_on_route True j v (fill_body ?ib body) = (None, v)" if "compid (sess v j) = compid ?s" for v
    using that m e by (simp add: handler_on_route_def dispatch_CS_SOME_DATA_def)
  have "body_arrives True True j None body w =
      route_to_handler True j (Some (fill_body ?ib body)) (on_session j (\<lambda>_. ?c) w)"
    using rb assms(5,6) by (simp add: body_arrives_def Let_def)
  then show ?thesis
    using assms(3,4) by (simp add: route_to_handler_def route_def Let_def res raise_fault_def)
qed

text \<open>C15. Any client can stop the server: from every reachable live state, a connection between
  two packets that sends SOME_DATA with its own account id (0 before it has entered one) and
  an empty name makes the handler's log statement throw, and the exception terminates the
  process.\<close>

theorem empty_name_terminates:
  assumes "server_reachable w" and "process_alive w" and "j < accepted w"
    and "is_connected (sess w j)" and "reads (sess w j) = [Read_header]"
    and "length name = 10" and "hd name = 0"
  shows "\<exists>w1 w2. world_step w (W_header True True j None some_data_header) w1 \<and>
    world_step w1 (W_body True True j None (msg_bytes (CS_SOME_DATA (compid (sess w j)) name))) w2 \<and>
    fault (sess w2 j) = Some Terminate \<and> \<not> process_alive w2"
proof -
  let ?s = "sess w j" and ?body = "msg_bytes (CS_SOME_DATA (compid (sess w j)) name)"
  have f: "fault ?s = None" using assms(2,3) by (simp add: process_alive_def)
  have inv: "session_inv ?s"
    by (rule reachable_inv, rule connection_reachable [OF assms(1,3)])
  then obtain p where p: "cur_inbound ?s = Some p" and iq: "inbound_q ?s = []"
    using assms(5) by (auto simp: session_inv_def reader_ok_def)
  let ?w1 = "on_session j (\<lambda>_. ?s\<lparr>keep_alive_flag := True,
     cur_inbound := Some (decide (fill_header p some_data_header)), reads := [Read_body 18]\<rparr>) w"
  let ?w2 = "body_arrives True True j None ?body ?w1"
  note 1 = some_data_header_arrives [OF assms(2-5) p]
  have alive: "process_alive ?w1" using assms(2,3) f by (auto simp: process_alive_def)
  have "length ?body = 18" using assms(6) by simp
  then have 2: "world_step ?w1 (W_body True True j None ?body) ?w2"
    using ws_body [OF alive, of j 18 "[]" ?body None True True] assms(3) by simp
  have t: "fault (sess ?w2 j) = Some Terminate"
    using empty_name_throws [of ?w1 j p name] assms(4,6,7) f iq by (simp del: msg_bytes.simps)
  have "session_inv (sess ?w1 j)"
    by (rule reachable_inv, rule connection_reachable [OF sr_step [OF assms(1) 1]]) (simp add: assms(3))
  then have "accepted ?w2 = accepted ?w1"
    using body_arrives_effect [of ?w1 j 18 "[]"] by (simp del: msg_bytes.simps)
  then have "\<not> process_alive ?w2" using assms(3) t by (auto simp: process_alive_def)
  with 1 2 t show ?thesis by blast
qed

theorem empty_name_terminates_witness:
  "\<exists>w1 w2. world_step demo_world (W_header True True 0 None some_data_header) w1 \<and>
    world_step w1 (W_body True True 0 None (msg_bytes (CS_SOME_DATA 0 (replicate 10 0)))) w2 \<and>
    \<not> process_alive w2"
  using empty_name_terminates [OF server_reachable_demo alive_demo_world, of 0 "replicate 10 0"]
  by (simp add: demo_world_fields demo_session_fields del: msg_bytes.simps) blast

lemma map_of_access:
  "c \<noteq> 0 \<Longrightarrow> session_lookup c (registry w) = None \<Longrightarrow>
   map_of (registry (snd (dispatch_CS_SERVER_ACCESS mem j c w))) = (map_of (registry w))(c \<mapsto> j) \<and>
   (\<forall>k. compid (sess (snd (dispatch_CS_SERVER_ACCESS mem j c w)) k) = (if k = j then c else compid (sess w k)))"
  using access_free [of c w mem j] by (auto simp: set_compid_def)

lemma map_of_leave:
  "map_of (registry (snd (handler_on_user_leave j w))) =
     (if compid (sess w j) = 0 then map_of (registry w)
      else (map_of (registry w))(compid (sess w j) := None))"
  by (simp add: handler_on_user_leave_def base_on_user_leave_def Let_def map_of_session_leave)

text \<open>A second SERVER_ACCESS under another free id is accepted too and overwrites the
  connection's account id, so when the connection leaves, only the second id is removed: the
  first one stays registered for the departed connection and is refused to everyone else.\<close>

lemma reaccess_leaves_stale_entry:
  assumes "c \<noteq> 0" and "d \<noteq> 0" and "c \<noteq> d"
    and "session_lookup c (registry w) = None" and "session_lookup d (registry w) = None"
    and "w1 = snd (dispatch_CS_SERVER_ACCESS mem j c w)"
    and "w2 = snd (dispatch_CS_SERVER_ACCESS mem j d w1)"
    and "w3 = snd (handler_on_user_leave j w2)"
  shows "session_lookup d (registry w3) = None \<and> session_lookup c (registry w3) = Some j \<and>
    fst (dispatch_CS_SERVER_ACCESS mem k c w3) = Some False"
proof -
  have 1: "map_of (registry w1) = (map_of (registry w))(c \<mapsto> j)"
    using map_of_access [OF assms(1,4)] assms(6) by simp
  then have "session_lookup d (registry w1) = None" using assms(3,5) by (auto simp: session_lookup_def split: if_splits)
  then have 2: "map_of (registry w2) = (map_of (registry w1))(d \<mapsto> j)" "compid (sess w2 j) = d"
    using map_of_access [OF assms(2), of w1] assms(7) by simp_all
  have "map_of (registry w3) = (map_of (registry w2))(d := None)"
    using 2(2) assms(2,8) by (simp add: map_of_leave)
  then have "session_lookup d (registry w3) = None" "session_lookup c (registry w3) = Some j"
    using 1 2(1) assms(1,3) by (simp_all add: session_lookup_def)
  then show ?thesis by (simp add: dispatch_CS_SERVER_ACCESS_def)
qed

theorem reaccess_leaves_stale_entry_witness:
  "session_lookup 5 (registry (snd (handler_on_user_leave 0 (snd (dispatch_CS_SERVER_ACCESS True 0 6
     (snd (dispatch_CS_SERVER_ACCESS True 0 5 demo_world))))))) = Some 0"
  using reaccess_leaves_stale_entry [of 5 6 demo_world _ True 0, OF _ _ _ _ _ refl refl refl]
  by (simp add: demo_world_fields session_lookup_def)

text \<open>The leave of a kicked connection removes its successor: a connection that logs in with
  another's id and enters it is registered, but when the kicked connection's own leave runs
  afterwards, the id is removed again, although the newcomer is connected and its id is set.\<close>

lemma kicked_leave_unregisters_successor:
  assumes "c \<noteq> 0" and "k \<noteq> j" and "session_lookup c (registry w) = Some k"
    and "compid (sess w k) = c"
    and "w1 = snd (dispatch_CS_SERVER_LOGIN mem j c w)"
    and "w2 = snd (dispatch_CS_SERVER_ACCESS mem j c w1)"
    and "w3 = snd (handler_on_user_leave k w2)"
  shows "session_lookup c (registry w2) = Some j \<and> session_lookup c (registry w3) = None \<and>
    compid (sess w3 j) = c \<and> sess w3 j = sess w2 j"
proof -
  have "registry w1 = session_leave c (registry w)" "compid (sess w1 k) = c"
    using assms(1-5) by (simp_all add: dispatch_CS_SERVER_LOGIN_def Let_def on_close_def close_task_def)
  then have 1: "session_lookup c (registry w1) = None" "compid (sess w1 k) = c"
    by (simp_all add: session_lookup_def map_of_session_leave)
  then have 2: "map_of (registry w2) = (map_of (registry w1))(c \<mapsto> j)" "compid (sess w2 j) = c"
    "compid (sess w2 k) = c"
    using map_of_access [OF assms(1) 1(1), of mem j] assms(2,6) by simp_all
  have "map_of (registry w3) = (map_of (registry w2))(c := None)"
    using 2(3) assms(1,7) by (simp add: map_of_leave)
  moreover have "sess w3 = sess w2"
    by (simp add: assms(7) handler_on_user_leave_def base_on_user_leave_def Let_def)
  ultimately show ?thesis using 2 assms(1) by (simp add: session_lookup_def)
qed

theorem kicked_leave_unregisters_successor_witness:
  "session_lookup 5 (registry (snd (handler_on_user_leave 0 (snd (dispatch_CS_SERVER_ACCESS True 1 5
     (snd (dispatch_CS_SERVER_LOGIN True 1 5 demo_world2))))))) = None"
  using kicked_leave_unregisters_successor [of 5 0 1 demo_world2 _ True, OF _ _ _ _ refl refl refl]
  by (simp add: demo_world2_fields)

end
