(* ===== verification/ClientSession.thy ===== *)
theory ClientSession
  imports PacketPool ServerSession
begin

text \<open>
  One connection of the test client: \<open>tcp_session\<close> and its base \<open>base_session\<close>
  (\<^verbatim>\<open>project/dummy/{tcp_session,base_session}.cpp\<close>). The packet classes are the ones of
  \<open>Packet\<close> (the client's headers repeat them).

  The connection reports to its owner through bound functions. A bound function of the owner
  is called in the middle of an operation, but changes only the owner's state, so an operation
  returns the calls it makes, in order, and \<open>ClientHandler\<close> runs them. As for the server,
  the operations in flight and the strand's queue stand for the asio runtime. \<open>connect\<close> runs
  outside the strand and has two halves, because the read it starts may complete, on the
  strand, before it has marked the connection as connected.
\<close>

section \<open>State\<close>

datatype binding = B_route | B_connecting | B_connected | B_connect_failed | B_closing
  | B_disconnected | B_alloc_outbound | B_dealloc_outbound

datatype owner_call = Connecting | Connected | Connect_failed | Closing | Disconnected
  | Dealloc_outbound outbound | Route_packet inbound

datatype client_task = CT_close | CT_send outbound

record csession =
  c_ip :: string
  c_port :: u16
  c_connected :: bool
  c_bound :: "binding set"
  c_inbound :: "inbound option"
  c_inbound_q :: "inbound list"
  c_outbound_q :: "outbound list"
  c_inbound_pool :: "inbound list"
  c_sock_open :: bool
  c_connect_pending :: bool
  c_connect_half :: bool
  c_reads :: "read_op list"
  c_writes :: "outbound list"
  c_strand :: "client_task list"
  c_overrun :: bool

definition client_max_pool_size :: nat where "client_max_pool_size = 16"

fun c_fill_pool :: "(nat \<Rightarrow> bool) \<Rightarrow> nat \<Rightarrow> inbound list" where
  "c_fill_pool mem 0 = []"
| "c_fill_pool mem (Suc i) =
     c_fill_pool mem i @ (if mem i then [inbound_init inbound_new] else [])"

definition csession_new :: "(nat \<Rightarrow> bool) \<Rightarrow> csession" where
  "csession_new mem =
     \<lparr>c_ip = [], c_port = 0, c_connected = False, c_bound = {}, c_inbound = None, c_inbound_q = [],
      c_outbound_q = [], c_inbound_pool = c_fill_pool mem 4, c_sock_open = False,
      c_connect_pending = False, c_connect_half = False, c_reads = [], c_writes = [], c_strand = [],
      c_overrun = False\<rparr>"

section \<open>Bound functions\<close>

definition bind_owner :: "binding \<Rightarrow> csession \<Rightarrow> csession" where
  "bind_owner b s = s\<lparr>c_bound := insert b (c_bound s)\<rparr>"

definition is_all_bind :: "csession \<Rightarrow> bool" where
  "is_all_bind s \<longleftrightarrow>
     B_connecting \<in> c_bound s \<and> B_connected \<in> c_bound s \<and> B_connect_failed \<in> c_bound s \<and>
     B_closing \<in> c_bound s \<and> B_disconnected \<in> c_bound s \<and> B_alloc_outbound \<in> c_bound s \<and>
     B_dealloc_outbound \<in> c_bound s"

definition connecting :: "csession \<Rightarrow> owner_call list" where
  "connecting s = (if B_connecting \<in> c_bound s then [Connecting] else [])"

definition connected :: "csession \<Rightarrow> owner_call list" where
  "connected s = (if B_connected \<in> c_bound s then [Connected] else [])"

definition connect_failed :: "csession \<Rightarrow> owner_call list" where
  "connect_failed s = (if B_connect_failed \<in> c_bound s then [Connect_failed] else [])"

definition closing :: "csession \<Rightarrow> owner_call list" where
  "closing s = (if B_closing \<in> c_bound s then [Closing] else [])"

definition disconnected :: "csession \<Rightarrow> owner_call list" where
  "disconnected s = (if B_disconnected \<in> c_bound s then [Disconnected] else [])"

definition c_dealloc_outbound :: "outbound \<Rightarrow> csession \<Rightarrow> owner_call list" where
  "c_dealloc_outbound p s = (if B_dealloc_outbound \<in> c_bound s then [Dealloc_outbound p] else [])"

definition packet_route :: "inbound \<Rightarrow> csession \<Rightarrow> owner_call list" where
  "packet_route p s = (if B_route \<in> c_bound s then [Route_packet p] else [])"

section \<open>The receive pool\<close>

definition c_alloc_inbound :: "bool \<Rightarrow> inbound list \<Rightarrow> inbound option \<times> inbound list" where
  "c_alloc_inbound mem pool =
     (case pool of
        p # ps \<Rightarrow> (Some p, ps)
      | [] \<Rightarrow> if mem then (Some (inbound_init inbound_new), []) else (None, []))"

definition c_dealloc_inbound :: "inbound \<Rightarrow> inbound list \<Rightarrow> inbound list" where
  "c_dealloc_inbound p pool =
     (if client_max_pool_size \<le> length pool then pool else pool @ [inbound_init p])"

interpretation c_in_pool: packet_pool c_alloc_inbound c_dealloc_inbound inbound_clean client_max_pool_size
  by unfold_locales (auto simp: c_alloc_inbound_def c_dealloc_inbound_def)

section \<open>Closing\<close>

definition c_close_task :: "csession \<Rightarrow> csession \<times> owner_call list" where
  "c_close_task s =
     (if \<not> c_sock_open s then (s, disconnected s)
      else (s\<lparr>c_sock_open := False\<rparr>, disconnected s))"

definition c_on_close :: "bool \<Rightarrow> csession \<Rightarrow> csession \<times> owner_call list" where
  "c_on_close in_strand s =
     (if \<not> c_connected s then (s, [])
      else
        let s1 = s\<lparr>c_connected := False\<rparr>
        in if in_strand
           then let (s2, calls) = c_close_task s1 in (s2, closing s @ calls)
           else (s1\<lparr>c_strand := c_strand s1 @ [CT_close]\<rparr>, closing s))"

section \<open>Connecting\<close>

text \<open>The address is parsed by asio, which throws on one it cannot parse (\<open>None\<close>).\<close>

definition c_on_connect ::
  "(string \<Rightarrow> bool) \<Rightarrow> string \<Rightarrow> u16 \<Rightarrow> csession \<Rightarrow> bool option \<times> csession \<times> owner_call list" where
  "c_on_connect parses ip port s =
     (if ip = [] \<or> port = 0 then (Some False, s, [])
      else if \<not> parses ip then (None, s, [])
      else (Some True,
            s\<lparr>c_ip := ip, c_port := port, c_sock_open := True, c_connect_pending := True\<rparr>,
            connecting s))"

definition c_async_read_header :: "csession \<Rightarrow> csession" where
  "c_async_read_header s = s\<lparr>c_reads := c_reads s @ [Read_header]\<rparr>"

definition c_async_read_body :: "nat \<Rightarrow> csession \<Rightarrow> csession" where
  "c_async_read_body n s =
     s\<lparr>c_reads := c_reads s @ [Read_body n], c_overrun := (c_overrun s \<or> raw_size_c < n)\<rparr>"

definition c_connect :: "bool \<Rightarrow> error_code option \<Rightarrow> csession \<Rightarrow> csession \<times> owner_call list" where
  "c_connect mem ec s =
     (let s0 = s\<lparr>c_connect_pending := False\<rparr>
      in if ec \<noteq> None
         then (s0\<lparr>c_connected := False, c_sock_open := False, c_bound := c_bound s0 - {B_route}\<rparr>,
               closing s0 @ connect_failed s0)
         else
           case c_alloc_inbound mem (c_inbound_pool s0) of
             (None, ps) \<Rightarrow> c_on_close False (s0\<lparr>c_inbound_pool := ps\<rparr>)
           | (Some p, ps) \<Rightarrow>
               (c_async_read_header
                  (s0\<lparr>c_inbound_pool := ps, c_inbound := Some p, c_connect_half := True\<rparr>), []))"

text \<open>The second half: \<open>set_connected\<close> and the report.\<close>

definition c_connect_finish :: "csession \<Rightarrow> csession \<times> owner_call list" where
  "c_connect_finish s = (s\<lparr>c_connect_half := False, c_connected := True\<rparr>, connected s)"

section \<open>Receiving\<close>

definition c_next_header :: "bool \<Rightarrow> inbound \<Rightarrow> csession \<Rightarrow> csession \<times> owner_call list \<times> inbound option" where
  "c_next_header mem done s =
     (let (p, ps) = c_alloc_inbound mem (c_inbound_pool s); s1 = s\<lparr>c_inbound := None, c_inbound_pool := ps\<rparr>
      in case p of
           None \<Rightarrow> let (s2, calls) = c_on_close True s1 in (s2, calls, Some done)
         | Some q \<Rightarrow>
             let s2 = s1\<lparr>c_inbound := Some q\<rparr>
             in if \<not> c_connected s2 then (s2, [], Some done)
                else (c_async_read_header s2, [], Some done))"

definition c_closed :: "csession \<Rightarrow> csession \<times> owner_call list \<times> inbound option" where
  "c_closed s = (let (s1, calls) = c_on_close True s in (s1, calls, None))"

definition c_read_header ::
  "bool \<Rightarrow> error_code option \<Rightarrow> nat \<Rightarrow> csession \<Rightarrow> csession \<times> owner_call list \<times> inbound option" where
  "c_read_header mem ec bytes_transferred s =
     (case c_inbound s of
        None \<Rightarrow> c_closed s
      | Some p \<Rightarrow>
          if ec \<noteq> None then c_closed s
          else if bytes_transferred = 0 then
            (if \<not> c_connected s then (s, [], None)
             else (c_async_read_header (s\<lparr>c_inbound := Some (inbound_init p)\<rparr>), [], None))
          else if header_size_c \<noteq> bytes_transferred then c_closed s
          else
            let p1 = decide p; s1 = s\<lparr>c_inbound := Some p1\<rparr>
            in if 0 < unat (in_body_size p1) then
                 (if \<not> c_connected s1 then (s1, [], None)
                  else (c_async_read_body (unat (in_body_size p1)) s1, [], None))
               else c_next_header mem p1 s1)"

definition c_read_body ::
  "bool \<Rightarrow> error_code option \<Rightarrow> nat \<Rightarrow> csession \<Rightarrow> csession \<times> owner_call list \<times> inbound option" where
  "c_read_body mem ec bytes_transferred s =
     (case c_inbound s of
        None \<Rightarrow> c_closed s
      | Some p \<Rightarrow>
          if ec \<noteq> None then c_closed s
          else if bytes_transferred \<noteq> unat (in_body_size p) then c_closed s
          else c_next_header mem
                 (if hdr_crc (header_ptr p) = 2 then snd (body_decode p) else p) s)"

definition c_route :: "inbound \<Rightarrow> csession \<Rightarrow> bool \<times> csession" where
  "c_route p s =
     (let s1 = s\<lparr>c_inbound_q := c_inbound_q s @ [p]\<rparr> in (\<not> 1 < length (c_inbound_q s1), s1))"

fun c_route_poll :: "nat \<Rightarrow> csession \<Rightarrow> csession \<times> owner_call list" where
  "c_route_poll 0 s = (s, [])"
| "c_route_poll (Suc n) s =
     (case c_inbound_q s of
        [] \<Rightarrow> (s, [])
      | p # ps \<Rightarrow>
          let s1 = s\<lparr>c_inbound_q := ps\<rparr>; calls = packet_route p s1;
              s2 = s1\<lparr>c_inbound_pool := c_dealloc_inbound p (c_inbound_pool s1)\<rparr>
          in if c_inbound_q s2 = [] then (s2, calls)
             else let (s3, more) = c_route_poll n s2 in (s3, calls @ more))"

section \<open>Sending\<close>

definition c_async_write_front :: "csession \<Rightarrow> csession" where
  "c_async_write_front s =
     (case c_outbound_q s of [] \<Rightarrow> s | p # _ \<Rightarrow> s\<lparr>c_writes := c_writes s @ [p]\<rparr>)"

definition c_send_task :: "outbound \<Rightarrow> csession \<Rightarrow> csession" where
  "c_send_task out s =
     (let s1 = s\<lparr>c_outbound_q := c_outbound_q s @ [out]\<rparr>
      in if 1 < length (c_outbound_q s1) then s1
         else if \<not> c_connected s1 then s1
         else c_async_write_front s1)"

definition c_on_send :: "bool \<Rightarrow> outbound option \<Rightarrow> csession \<Rightarrow> bool \<times> csession" where
  "c_on_send in_strand out s =
     (case out of
        None \<Rightarrow> (False, s)
      | Some p \<Rightarrow>
          if \<not> c_connected s then (False, s)
          else if in_strand then (True, c_send_task p s)
          else (True, s\<lparr>c_strand := c_strand s @ [CT_send p]\<rparr>))"

definition c_write_done :: "error_code option \<Rightarrow> csession \<Rightarrow> csession \<times> owner_call list" where
  "c_write_done ec s =
     (let (s1, calls) = (if ec \<noteq> None then c_on_close True s else (s, []))
      in case c_outbound_q s1 of
           [] \<Rightarrow> let (s2, more) = c_on_close True s1 in (s2, calls @ more)
         | pk # q \<Rightarrow>
             let s2 = s1\<lparr>c_outbound_q := q\<rparr>;
                 s3 = (if ec = None \<and> q \<noteq> [] \<and> c_connected s2 then c_async_write_front s2 else s2)
             in (s3, calls @ c_dealloc_outbound pk s3))"

end
