(* ===== verification/ClientHandler.thy ===== *)
theory ClientHandler
  imports ClientSession Messages
begin

text \<open>
  The owner of the client's connections: \<open>base_handler\<close>, \<open>tcp_handler\<close>, \<open>tcp_client\<close> and
  \<open>player\<close> (\<^verbatim>\<open>project/dummy/{base_handler.cpp,tcp_handler.ipp,tcp_client.ipp,player.cpp}\<close>).
  A client makes a new connection object for every attempt; they are numbered in the order
  they are made and \<open>h_session\<close> is the one its pointer holds. \<open>posts\<close> are the functions
  posted to the io_context and the reconnect timers that are still to run. \<open>connects\<close> counts
  the attempts that succeeded; no operation reads it.
\<close>

section \<open>State\<close>

datatype post = Post_connect_failed | Post_connect | Timer_reconnect

record client =
  h_ip :: string
  h_port :: u16
  h_connected :: bool
  h_closing :: bool
  h_outbound_pool :: "outbound list"
  h_session :: "nat option"
  conns :: "nat \<Rightarrow> csession"
  conn_count :: nat
  posts :: "post list"
  player_compid :: u64
  initialized :: bool
  loggedin :: bool
  heart_beat_on :: bool
  some_data_on :: bool
  one_sec_on :: bool
  connects :: nat

fun h_fill_pool :: "(nat \<Rightarrow> bool) \<Rightarrow> nat \<Rightarrow> outbound list" where
  "h_fill_pool mem 0 = []"
| "h_fill_pool mem (Suc i) =
     h_fill_pool mem i @ (if mem i then [outbound_init outbound_new] else [])"

definition client_new :: "(nat \<Rightarrow> bool) \<Rightarrow> u64 \<Rightarrow> client" where
  "client_new mem c =
     \<lparr>h_ip = [], h_port = 0, h_connected = False, h_closing = True, h_outbound_pool = h_fill_pool mem 4,
      h_session = None, conns = (\<lambda>_. csession_new (\<lambda>_. True)), conn_count = 0, posts = [],
      player_compid = c, initialized = False, loggedin = False, heart_beat_on = False,
      some_data_on = False, one_sec_on = False, connects = 0\<rparr>"

section \<open>base_handler\<close>

definition h_alloc_outbound :: "bool \<Rightarrow> outbound list \<Rightarrow> outbound option \<times> outbound list" where
  "h_alloc_outbound mem pool =
     (case pool of
        p # ps \<Rightarrow> (Some p, ps)
      | [] \<Rightarrow> if mem then (Some (outbound_init outbound_new), []) else (None, []))"

definition h_dealloc_outbound :: "outbound \<Rightarrow> outbound list \<Rightarrow> outbound list" where
  "h_dealloc_outbound p pool =
     (let p' = outbound_init p
      in if client_max_pool_size \<le> length pool then pool else pool @ [p'])"

interpretation c_out_pool: packet_pool h_alloc_outbound h_dealloc_outbound outbound_clean client_max_pool_size
  by unfold_locales (auto simp: h_alloc_outbound_def h_dealloc_outbound_def)

definition base_on_close :: "client \<Rightarrow> client" where
  "base_on_close cl = cl\<lparr>h_closing := True, h_connected := False\<rparr>"

definition base_on_connected :: "client \<Rightarrow> client" where
  "base_on_connected cl = cl\<lparr>h_closing := False, h_connected := True\<rparr>"

definition base_on_closing :: "client \<Rightarrow> client" where
  "base_on_closing cl = cl\<lparr>h_closing := True\<rparr>"

definition base_on_disconnected :: "client \<Rightarrow> client" where
  "base_on_disconnected cl = cl\<lparr>h_closing := True, h_connected := False\<rparr>"

definition h_on_send :: "outbound option \<Rightarrow> client \<Rightarrow> bool \<times> client" where
  "h_on_send out cl =
     (if \<not> h_connected cl \<or> h_closing cl then (False, cl)
      else case h_session cl of
        None \<Rightarrow> (False, cl)
      | Some i \<Rightarrow>
          let (ok, s) = c_on_send False out (conns cl i)
          in (ok, cl\<lparr>conns := (conns cl)(i := s)\<rparr>))"

text \<open>A body that does not fit the packet is the result \<open>None\<close>; the client's structs fit.\<close>

definition h_send :: "bool \<Rightarrow> u16 \<Rightarrow> buffer option \<Rightarrow> nat \<Rightarrow> client \<Rightarrow> bool option \<times> client" where
  "h_send mem packet_id body n cl =
     (if h_closing cl \<or> \<not> h_connected cl then (Some False, cl)
      else case h_alloc_outbound mem (h_outbound_pool cl) of
        (None, ps) \<Rightarrow> (Some False, cl\<lparr>h_outbound_pool := ps\<rparr>)
      | (Some out, ps) \<Rightarrow>
          (let cl1 = cl\<lparr>h_outbound_pool := ps\<rparr>
           in case encode out packet_id body n of
                None \<Rightarrow> (None, cl1)
              | Some out1 \<Rightarrow> let (ok, cl2) = h_on_send (Some out1) cl1 in (Some ok, cl2)))"

definition send_message :: "bool \<Rightarrow> message \<Rightarrow> client \<Rightarrow> client" where
  "send_message mem m cl = snd (h_send mem (msg_id m) (Some (struct_buffer m)) (msg_sizeof m) cl)"

section \<open>player\<close>

definition login_message :: "u64 \<Rightarrow> message" where
  "login_message c = CS_SERVER_LOGIN c 0 (replicate max_acc_token 0) 0"

definition login :: "bool \<Rightarrow> client \<Rightarrow> client" where
  "login mem cl =
     (if \<not> loggedin cl then send_message mem (login_message (player_compid cl)) cl else cl)"

definition access_server :: "bool \<Rightarrow> client \<Rightarrow> client" where
  "access_server mem cl = send_message mem (CS_SERVER_ACCESS (player_compid cl)) cl"

definition player_on_complete_connect :: "bool \<Rightarrow> client \<Rightarrow> client" where
  "player_on_complete_connect mem cl =
     (access_server mem cl)\<lparr>heart_beat_on := True, some_data_on := True, one_sec_on := True\<rparr>"

definition heart_beat_tick :: "bool \<Rightarrow> client \<Rightarrow> bool \<times> client" where
  "heart_beat_tick mem cl = (True, send_message mem (CS_HEART_BEAT (player_compid cl)) cl)"

definition player_name :: "u8 list" where
  "player_name = map of_char ''EURUSD'' @ replicate 4 0"

definition some_data_tick :: "bool \<Rightarrow> client \<Rightarrow> bool \<times> client" where
  "some_data_tick mem cl = (True, send_message mem (CS_SOME_DATA (player_compid cl) player_name) cl)"

definition player_on_route :: "inbound \<Rightarrow> client \<Rightarrow> bool \<times> client" where
  "player_on_route p cl =
     (case msg_at (hdr_id (header_ptr p)) (in_raw p) of
        Some (SC_SERVER_LOGIN _) \<Rightarrow> (True, cl\<lparr>loggedin := True\<rparr>)
      | Some (SC_SERVER_ACCESS r _ _ _ _ _) \<Rightarrow>
          if r = 0 then (True, cl) else (True, cl\<lparr>initialized := True\<rparr>)
      | _ \<Rightarrow> (True, cl))"

section \<open>tcp_client and tcp_handler\<close>

definition client_on_connected :: "bool \<Rightarrow> client \<Rightarrow> client" where
  "client_on_connected mem cl = player_on_complete_connect mem (base_on_connected cl)"

definition client_on_connect_failed :: "client \<Rightarrow> client" where
  "client_on_connect_failed cl =
     (if h_connected cl then cl else cl\<lparr>posts := posts cl @ [Timer_reconnect]\<rparr>)"

text \<open>The owner's side of the calls a connection makes.\<close>

fun run_owner_call :: "bool \<Rightarrow> owner_call \<Rightarrow> client \<Rightarrow> client" where
  "run_owner_call mem Connecting cl = cl"
| "run_owner_call mem Connected cl = client_on_connected mem cl"
| "run_owner_call mem Connect_failed cl = client_on_connect_failed cl"
| "run_owner_call mem Closing cl = base_on_closing cl"
| "run_owner_call mem Disconnected cl = base_on_disconnected cl"
| "run_owner_call mem (Dealloc_outbound p) cl =
     cl\<lparr>h_outbound_pool := h_dealloc_outbound p (h_outbound_pool cl)\<rparr>"
| "run_owner_call mem (Route_packet p) cl = snd (player_on_route p cl)"

definition owner_runs :: "bool \<Rightarrow> nat \<Rightarrow> csession \<times> owner_call list \<Rightarrow> client \<Rightarrow> client" where
  "owner_runs mem i r cl = fold (run_owner_call mem) (snd r) (cl\<lparr>conns := (conns cl)(i := fst r)\<rparr>)"

definition bound_csession :: "(nat \<Rightarrow> bool) \<Rightarrow> csession" where
  "bound_csession mem =
     fold bind_owner [B_route, B_connecting, B_connected, B_connect_failed, B_closing, B_disconnected,
       B_alloc_outbound, B_dealloc_outbound] (csession_new mem)"

definition client_on_connect ::
  "(string \<Rightarrow> bool) \<Rightarrow> (nat \<Rightarrow> bool) \<Rightarrow> string \<Rightarrow> u16 \<Rightarrow> client \<Rightarrow> bool option \<times> client" where
  "client_on_connect parses mem ip port cl =
     (let cl0 = cl\<lparr>h_ip := ip, h_port := port\<rparr>
      in if \<not> h_closing cl0 \<or> h_connected cl0
         then (Some False, cl0\<lparr>posts := posts cl0 @ [Post_connect_failed]\<rparr>)
         else
           let i = conn_count cl0; (ok, s, calls) = c_on_connect parses ip port (bound_csession mem);
               cl1 = owner_runs True i (s, calls) (cl0\<lparr>conn_count := Suc i\<rparr>)
           in if ok = Some True then (ok, cl1\<lparr>h_session := Some i\<rparr>) else (ok, cl1))"

definition client_on_reconnect :: "client \<Rightarrow> client" where
  "client_on_reconnect cl =
     (if \<not> h_closing cl \<or> h_connected cl then cl\<lparr>posts := posts cl @ [Post_connect_failed]\<rparr>
      else cl\<lparr>posts := posts cl @ [Post_connect]\<rparr>)"

definition reconnect_timer :: "client \<Rightarrow> client" where
  "reconnect_timer cl = (if h_connected cl then cl else client_on_reconnect cl)"

definition client_on_close :: "client \<Rightarrow> client" where
  "client_on_close cl =
     (let cl1 = base_on_close cl
      in case h_session cl1 of
           None \<Rightarrow> cl1
         | Some i \<Rightarrow>
             owner_runs True i (c_on_close False (conns cl1 i)) (cl1\<lparr>h_session := None\<rparr>))"

section \<open>A client as a state machine\<close>

definition c_route_read ::
  "csession \<times> owner_call list \<times> inbound option \<Rightarrow> csession \<times> owner_call list" where
  "c_route_read r =
     (case r of
        (s, calls, None) \<Rightarrow> (s, calls)
      | (s, calls, Some p) \<Rightarrow>
          (let (poll, s1) = c_route p s;
               (s2, more) = (if poll then c_route_poll (length (c_inbound_q s1)) s1 else (s1, []))
           in (s2, calls @ more)))"

definition c_header :: "bool \<Rightarrow> error_code option \<Rightarrow> u8 list \<Rightarrow> csession \<Rightarrow> csession \<times> owner_call list" where
  "c_header mem ec bs s =
     c_route_read (c_read_header mem ec (length bs)
       (s\<lparr>c_inbound := map_option (\<lambda>p. fill_header p bs) (c_inbound s)\<rparr>))"

definition c_body :: "bool \<Rightarrow> error_code option \<Rightarrow> u8 list \<Rightarrow> csession \<Rightarrow> csession \<times> owner_call list" where
  "c_body mem ec bs s =
     c_route_read (c_read_body mem ec (length bs)
       (s\<lparr>c_inbound := map_option (\<lambda>p. fill_body p bs) (c_inbound s)\<rparr>))"

fun c_run_task :: "client_task \<Rightarrow> csession \<Rightarrow> csession \<times> owner_call list" where
  "c_run_task CT_close s = c_close_task s"
| "c_run_task (CT_send p) s = (c_send_task p s, [])"

fun run_post :: "(string \<Rightarrow> bool) \<Rightarrow> (nat \<Rightarrow> bool) \<Rightarrow> post \<Rightarrow> client \<Rightarrow> client" where
  "run_post parses mem Post_connect_failed cl = client_on_connect_failed cl"
| "run_post parses mem Post_connect cl = snd (client_on_connect parses mem (h_ip cl) (h_port cl) cl)"
| "run_post parses mem Timer_reconnect cl = reconnect_timer cl"

text \<open>\<open>main\<close> posts the first \<open>on_connect\<close>; the address it gives is one asio parses.\<close>

definition client_start :: "(nat \<Rightarrow> bool) \<Rightarrow> u64 \<Rightarrow> string \<Rightarrow> u16 \<Rightarrow> client" where
  "client_start mem c ip port = (client_new mem c)\<lparr>h_ip := ip, h_port := port, posts := [Post_connect]\<rparr>"

inductive client_step :: "(string \<Rightarrow> bool) \<Rightarrow> client \<Rightarrow> client \<Rightarrow> bool" for parses where
  cs_post: "posts cl = xs @ p # ys \<Longrightarrow>
    client_step parses cl (run_post parses mem p (cl\<lparr>posts := xs @ ys\<rparr>))"
| cs_connect: "i < conn_count cl \<Longrightarrow> c_connect_pending (conns cl i) \<Longrightarrow>
    client_step parses cl (owner_runs smem i (c_connect mem ec (conns cl i))
      (cl\<lparr>connects := connects cl + (if ec = None then 1 else 0)\<rparr>))"
| cs_connect_finish: "i < conn_count cl \<Longrightarrow> c_connect_half (conns cl i) \<Longrightarrow>
    client_step parses cl (owner_runs smem i (c_connect_finish (conns cl i)) cl)"
| cs_header: "i < conn_count cl \<Longrightarrow> c_reads (conns cl i) = Read_header # rs \<Longrightarrow>
    length bs \<le> header_size_c \<Longrightarrow> ec = None \<longrightarrow> length bs = header_size_c \<Longrightarrow>
    client_step parses cl (owner_runs True i (c_header mem ec bs ((conns cl i)\<lparr>c_reads := rs\<rparr>)) cl)"
| cs_body: "i < conn_count cl \<Longrightarrow> c_reads (conns cl i) = Read_body n # rs \<Longrightarrow>
    length bs \<le> n \<Longrightarrow> ec = None \<longrightarrow> length bs = n \<Longrightarrow>
    client_step parses cl (owner_runs True i (c_body mem ec bs ((conns cl i)\<lparr>c_reads := rs\<rparr>)) cl)"
| cs_strand: "i < conn_count cl \<Longrightarrow> c_strand (conns cl i) = t # ts \<Longrightarrow>
    client_step parses cl (owner_runs True i (c_run_task t ((conns cl i)\<lparr>c_strand := ts\<rparr>)) cl)"
| cs_write: "i < conn_count cl \<Longrightarrow> c_writes (conns cl i) = xs @ p # ys \<Longrightarrow>
    client_step parses cl (owner_runs True i (c_write_done ec ((conns cl i)\<lparr>c_writes := xs @ ys\<rparr>)) cl)"
| cs_heart_beat: "heart_beat_on cl \<Longrightarrow> client_step parses cl (snd (heart_beat_tick smem cl))"
| cs_some_data: "some_data_on cl \<Longrightarrow> client_step parses cl (snd (some_data_tick smem cl))"

inductive client_reachable :: "(string \<Rightarrow> bool) \<Rightarrow> string \<Rightarrow> u16 \<Rightarrow> client \<Rightarrow> bool" for parses ip port where
  cr_start: "client_reachable parses ip port (client_start mem c ip port)"
| cr_step: "client_reachable parses ip port cl \<Longrightarrow> client_step parses cl cl' \<Longrightarrow>
    client_reachable parses ip port cl'"

end
