(* ===== verification/ClientProps.thy ===== *)
theory ClientProps
  imports ClientHandler ServerProps
begin

text \<open>
  What the client guarantees: it has exactly one connection attempt under way until the first
  one succeeds; its packets are the ones the server's handler understands; and the run on
  which a connection ends up connected without reading.
\<close>

section \<open>Attempts to connect\<close>

definition attempts :: "client \<Rightarrow> nat" where
  "attempts cl = length (posts cl) + length (filter (\<lambda>i. c_connect_pending (conns cl i)) [0..<conn_count cl])"

text \<open>A connection that has not been connected yet.\<close>

definition untouched :: "csession \<Rightarrow> bool" where
  "untouched s \<longleftrightarrow> \<not> c_connected s \<and> \<not> c_connect_half s \<and> c_reads s = [] \<and> c_writes s = [] \<and>
     c_strand s = [] \<and> {B_connect_failed, B_closing} \<subseteq> c_bound s"

definition trying :: "client \<Rightarrow> bool" where
  "trying cl \<longleftrightarrow> attempts cl = 1 \<and> connects cl = 0 \<and> h_closing cl \<and> \<not> h_connected cl \<and>
     \<not> heart_beat_on cl \<and> \<not> some_data_on cl \<and> (\<forall>i < conn_count cl. untouched (conns cl i))"

definition settled :: "client \<Rightarrow> bool" where
  "settled cl \<longleftrightarrow> attempts cl = 0 \<and> connects cl = 1"

text \<open>What leaves the attempts alone.\<close>

definition same_attempts :: "client \<Rightarrow> client \<Rightarrow> bool" where
  "same_attempts cl cl' \<longleftrightarrow> posts cl' = posts cl \<and> conn_count cl' = conn_count cl \<and>
     connects cl' = connects cl \<and> h_ip cl' = h_ip cl \<and> h_port cl' = h_port cl \<and>
     (\<forall>i. c_connect_pending (conns cl' i) = c_connect_pending (conns cl i))"

lemma same_attempts_refl [simp]: "same_attempts cl cl"
  by (simp add: same_attempts_def)

lemma same_attempts_trans: "same_attempts a b \<Longrightarrow> same_attempts b c \<Longrightarrow> same_attempts a c"
  by (simp add: same_attempts_def)

lemma same_attempts_settled: "same_attempts cl cl' \<Longrightarrow> settled cl \<Longrightarrow> settled cl'"
  by (simp add: same_attempts_def settled_def attempts_def)

lemma pending_send [simp]:
  "c_connect_pending (c_send_task p s) = c_connect_pending s"
  "c_connect_pending (snd (c_on_send b q s)) = c_connect_pending s"
  by (auto simp: c_send_task_def c_async_write_front_def c_on_send_def Let_def
      split: list.split option.split)

lemma same_attempts_on_send: "same_attempts cl (snd (h_on_send out cl))"
proof (cases "h_session cl")
  case None
  then show ?thesis by (simp add: h_on_send_def)
next
  case (Some i)
  obtain ok s where "c_on_send False out (conns cl i) = (ok, s)" by fastforce
  then show ?thesis
    using Some pending_send(2) [of False out "conns cl i"]
    by (auto simp: h_on_send_def same_attempts_def)
qed

lemma same_attempts_send: "same_attempts cl (send_message mem m cl)"
proof -
  obtain q ps where q: "h_alloc_outbound mem (h_outbound_pool cl) = (q, ps)" by fastforce
  let ?cl = "cl\<lparr>h_outbound_pool := ps\<rparr>"
  have 1: "same_attempts cl ?cl" by (simp add: same_attempts_def)
  have 2: "same_attempts cl (snd (h_on_send out ?cl))" for out
    using same_attempts_trans [OF 1 same_attempts_on_send] .
  then have 3: "same_attempts cl cl2" if "h_on_send out ?cl = (ok, cl2)" for out ok cl2
    using that by (metis snd_conv)
  show ?thesis
    using q 1 3 by (auto simp: send_message_def h_send_def Let_def split: option.split prod.split)
qed

lemma same_attempts_connected: "same_attempts cl (client_on_connected mem cl)"
  using same_attempts_send [of "base_on_connected cl" mem]
  by (simp add: client_on_connected_def player_on_complete_connect_def access_server_def
      same_attempts_def base_on_connected_def)

lemma same_attempts_call: "c \<noteq> Connect_failed \<Longrightarrow> same_attempts cl (run_owner_call mem c cl)"
proof (cases c)
  case (Route_packet p)
  then show ?thesis
    by (auto simp: player_on_route_def same_attempts_def split: option.split message.split)
qed (simp_all add: same_attempts_connected, simp_all add: same_attempts_def base_on_closing_def
    base_on_disconnected_def)

lemma same_attempts_calls:
  "Connect_failed \<notin> set calls \<Longrightarrow> same_attempts cl (fold (run_owner_call mem) calls cl)"
proof (induction calls arbitrary: cl)
  case (Cons c calls)
  then have "same_attempts cl (run_owner_call mem c cl)" by (auto intro: same_attempts_call)
  then show ?case using Cons same_attempts_trans by fastforce
qed simp

lemma same_attempts_owner:
  assumes "Connect_failed \<notin> set (snd r)" "c_connect_pending (fst r) = c_connect_pending (conns cl i)"
  shows "same_attempts cl (owner_runs mem i r cl)"
proof -
  have "same_attempts cl (cl\<lparr>conns := (conns cl)(i := fst r)\<rparr>)"
    using assms(2) by (simp add: same_attempts_def)
  then show ?thesis
    unfolding owner_runs_def using same_attempts_calls [OF assms(1)] same_attempts_trans by blast
qed

text \<open>An operation of a connection that reports no failed connect and starts none.\<close>

definition quiet :: "csession \<Rightarrow> csession \<times> owner_call list \<Rightarrow> bool" where
  "quiet s r \<longleftrightarrow> Connect_failed \<notin> set (snd r) \<and> c_connect_pending (fst r) = c_connect_pending s"

lemma quiet_reports [simp]:
  "Connect_failed \<notin> set (closing s)" "Connect_failed \<notin> set (disconnected s)"
  "Connect_failed \<notin> set (connected s)" "Connect_failed \<notin> set (connecting s)"
  "Connect_failed \<notin> set (c_dealloc_outbound p s)" "Connect_failed \<notin> set (packet_route q s)"
  by (simp_all add: closing_def disconnected_def connected_def connecting_def
      c_dealloc_outbound_def packet_route_def)

lemma quiet_on_close [simp]: "quiet s (c_on_close b s)"
  by (auto simp: quiet_def c_on_close_def c_close_task_def Let_def)

lemma quiet_task: "quiet s (c_run_task t (s\<lparr>c_strand := ts\<rparr>))"
  by (cases t) (auto simp: quiet_def c_close_task_def)

lemma quiet_async_write [simp]: "c_connect_pending (c_async_write_front s) = c_connect_pending s"
  by (auto simp: c_async_write_front_def split: list.split)

lemma quiet_write_done: "quiet s (c_write_done ec (s\<lparr>c_writes := ws\<rparr>))"
proof -
  obtain s1 calls where s1: "(if ec \<noteq> None then c_on_close True (s\<lparr>c_writes := ws\<rparr>)
      else (s\<lparr>c_writes := ws\<rparr>, [])) = (s1, calls)"
    by fastforce
  then have 1: "c_connect_pending s1 = c_connect_pending s" "Connect_failed \<notin> set calls"
    using quiet_on_close [of "s\<lparr>c_writes := ws\<rparr>" True] by (auto simp: quiet_def split: if_splits)
  obtain s2 more where s2: "c_on_close True s1 = (s2, more)" by fastforce
  then have 2: "c_connect_pending s2 = c_connect_pending s1" "Connect_failed \<notin> set more"
    using quiet_on_close [of s1 True] by (auto simp: quiet_def)
  show ?thesis
    unfolding c_write_done_def s1 using 1 2 s2
    by (simp add: quiet_def Let_def split: list.split)
qed

lemma quiet_finish: "quiet s (c_connect_finish s)"
  by (simp add: quiet_def c_connect_finish_def)

lemma quiet_next_header:
  "Connect_failed \<notin> set (fst (snd (c_next_header mem p s))) \<and>
   c_connect_pending (fst (c_next_header mem p s)) = c_connect_pending s"
proof -
  obtain q ps where q: "c_alloc_inbound mem (c_inbound_pool s) = (q, ps)" by fastforce
  obtain s2 calls where s2: "c_on_close True (s\<lparr>c_inbound := None, c_inbound_pool := ps\<rparr>) = (s2, calls)"
    by fastforce
  then have "Connect_failed \<notin> set calls" "c_connect_pending s2 = c_connect_pending s"
    using quiet_on_close [of "s\<lparr>c_inbound := None, c_inbound_pool := ps\<rparr>" True] by (auto simp: quiet_def)
  then show ?thesis
    using q s2 by (simp add: c_next_header_def Let_def c_async_read_header_def split: option.split)
qed

lemma quiet_closed:
  "Connect_failed \<notin> set (fst (snd (c_closed s))) \<and> c_connect_pending (fst (c_closed s)) = c_connect_pending s"
  using quiet_on_close [of s True] by (auto simp: quiet_def c_closed_def split: prod.split)

lemma quiet_read:
  "Connect_failed \<notin> set (fst (snd (c_read_header mem ec n s))) \<and>
   c_connect_pending (fst (c_read_header mem ec n s)) = c_connect_pending s"
  "Connect_failed \<notin> set (fst (snd (c_read_body mem ec n s))) \<and>
   c_connect_pending (fst (c_read_body mem ec n s)) = c_connect_pending s"
  by (auto simp: c_read_header_def c_read_body_def Let_def quiet_next_header quiet_closed
      c_async_read_header_def c_async_read_body_def split: option.split)

lemma quiet_route_poll:
  "Connect_failed \<notin> set (snd (c_route_poll n s)) \<and>
   c_connect_pending (fst (c_route_poll n s)) = c_connect_pending s"
proof (induction n arbitrary: s)
  case 0
  then show ?case by simp
next
  case (Suc n)
  show ?case
  proof (cases "c_inbound_q s")
    case Nil
    then show ?thesis by simp
  next
    case (Cons p ps)
    let ?s2 = "s\<lparr>c_inbound_q := ps, c_inbound_pool := c_dealloc_inbound p (c_inbound_pool s)\<rparr>"
    obtain s3 more where "c_route_poll n ?s2 = (s3, more)" by fastforce
    with Suc [of ?s2] Cons show ?thesis by (simp add: Let_def)
  qed
qed

lemma quiet_route_read:
  assumes "Connect_failed \<notin> set (fst (snd r))" "c_connect_pending (fst r) = c_connect_pending s"
  shows "quiet s (c_route_read r)"
proof -
  obtain t calls q where r: "r = (t, calls, q)" by (cases r)
  show ?thesis
  proof (cases q)
    case None
    with r assms show ?thesis by (simp add: quiet_def c_route_read_def)
  next
    case (Some p)
    obtain poll s1 where s1: "c_route p t = (poll, s1)" by fastforce
    then have "c_connect_pending s1 = c_connect_pending t"
      by (auto simp: c_route_def Let_def)
    moreover obtain s2 more where "c_route_poll (length (c_inbound_q s1)) s1 = (s2, more)" by fastforce
    ultimately show ?thesis
      using r Some s1 assms quiet_route_poll [of "length (c_inbound_q s1)" s1]
      by (simp add: quiet_def c_route_read_def)
  qed
qed

lemma quiet_header: "quiet s (c_header mem ec bs (s\<lparr>c_reads := rs\<rparr>))"
  unfolding c_header_def by (rule quiet_route_read) (simp_all add: quiet_read)

lemma quiet_body: "quiet s (c_body mem ec bs (s\<lparr>c_reads := rs\<rparr>))"
  unfolding c_body_def by (rule quiet_route_read) (simp_all add: quiet_read)

lemma same_attempts_quiet:
  "quiet (conns cl i) r \<Longrightarrow> same_attempts cl (owner_runs mem i r cl)"
  by (simp add: quiet_def same_attempts_owner)

section \<open>Every step keeps exactly one attempt\<close>

lemma attempts_remove_post:
  "posts cl = xs @ p # ys \<Longrightarrow> attempts cl = Suc (attempts (cl\<lparr>posts := xs @ ys\<rparr>))"
  by (simp add: attempts_def)

lemma bound_csession_fields [simp]:
  "untouched (bound_csession mem)" "c_connect_pending (bound_csession mem) = False"
  "B_connecting \<in> c_bound (bound_csession mem)"
  by (simp_all add: bound_csession_def bind_owner_def csession_new_def untouched_def)

text \<open>The state in which one attempt is about to be replaced by the next.\<close>

definition between :: "client \<Rightarrow> bool" where
  "between cl \<longleftrightarrow> attempts cl = 0 \<and> connects cl = 0 \<and> h_closing cl \<and> \<not> h_connected cl \<and>
     \<not> heart_beat_on cl \<and> \<not> some_data_on cl \<and> (\<forall>i < conn_count cl. untouched (conns cl i))"

lemma between_post: "between cl \<Longrightarrow> trying (cl\<lparr>posts := posts cl @ [p]\<rparr>)"
  by (simp add: between_def trying_def attempts_def)

lemma between_failed: "between cl \<Longrightarrow> trying (client_on_connect_failed cl)"
  by (auto simp: client_on_connect_failed_def between_post) (simp add: between_def)

lemma between_timer: "between cl \<Longrightarrow> trying (reconnect_timer cl)"
  by (auto simp: reconnect_timer_def client_on_reconnect_def between_post) (auto simp: between_def)

lemma between_connect:
  assumes "between cl" "ip \<noteq> []" "port \<noteq> 0" "parses ip"
  shows "trying (snd (client_on_connect parses mem ip port cl))"
proof -
  let ?s = "(bound_csession mem)\<lparr>c_ip := ip, c_port := port, c_sock_open := True, c_connect_pending := True\<rparr>"
  have r: "snd (client_on_connect parses mem ip port cl) =
      cl\<lparr>h_ip := ip, h_port := port, conn_count := Suc (conn_count cl),
         conns := (conns cl)(conn_count cl := ?s), h_session := Some (conn_count cl)\<rparr>"
    using assms
    by (simp add: client_on_connect_def between_def c_on_connect_def Let_def owner_runs_def connecting_def)
  have "filter (\<lambda>i. c_connect_pending (((conns cl)(conn_count cl := ?s)) i)) [0..<conn_count cl] =
      filter (\<lambda>i. c_connect_pending (conns cl i)) [0..<conn_count cl]"
    by (rule filter_cong) auto
  moreover have "untouched ?s" using bound_csession_fields(1) [of mem] by (simp add: untouched_def)
  ultimately show ?thesis
    using assms(1) by (auto simp: r trying_def between_def attempts_def less_Suc_eq)
qed

lemma attempts_card:
  "attempts cl = length (posts cl) + card {i. i < conn_count cl \<and> c_connect_pending (conns cl i)}"
proof -
  have "{i. i < length [0..<conn_count cl] \<and> c_connect_pending (conns cl ([0..<conn_count cl] ! i))} =
      {i. i < conn_count cl \<and> c_connect_pending (conns cl i)}"
    by auto
  then show ?thesis by (simp add: attempts_def length_filter_conv_card)
qed

lemma attempts_clear_pending:
  assumes "i < conn_count cl" "c_connect_pending (conns cl i)" "\<not> c_connect_pending s"
  shows "attempts cl = Suc (attempts (cl\<lparr>conns := (conns cl)(i := s)\<rparr>))"
proof -
  let ?P = "{k. k < conn_count cl \<and> c_connect_pending (conns cl k)}"
  have "{k. k < conn_count cl \<and> c_connect_pending (((conns cl)(i := s)) k)} = ?P - {i}"
    using assms(3) by auto
  moreover have "card ?P = Suc (card (?P - {i}))"
    using assms(1,2) by (intro card.remove) auto
  ultimately show ?thesis by (simp add: attempts_card)
qed

lemma trying_connect:
  assumes "trying cl" "i < conn_count cl" "c_connect_pending (conns cl i)"
  shows "(ec \<noteq> None \<longrightarrow> trying (owner_runs smem i (c_connect mem ec (conns cl i)) cl)) \<and>
    (ec = None \<longrightarrow> settled (owner_runs smem i (c_connect mem ec (conns cl i)) (cl\<lparr>connects := 1\<rparr>)))"
proof (intro conjI impI)
  let ?s0 = "(conns cl i)\<lparr>c_connect_pending := False\<rparr>"
  have u: "untouched (conns cl i)" using assms(1,2) by (simp add: trying_def)
  {
    assume "ec \<noteq> None"
    let ?s = "?s0\<lparr>c_connected := False, c_sock_open := False, c_bound := c_bound ?s0 - {B_route}\<rparr>"
    have c: "c_connect mem ec (conns cl i) = (?s, [Closing, Connect_failed])"
      using \<open>ec \<noteq> None\<close> u by (simp add: c_connect_def Let_def closing_def connect_failed_def untouched_def)
    have "untouched ?s" using u by (auto simp: untouched_def)
    then have "between (base_on_closing (cl\<lparr>conns := (conns cl)(i := ?s)\<rparr>))"
      using assms attempts_clear_pending [OF assms(2,3), of ?s]
      by (auto simp: between_def trying_def base_on_closing_def attempts_def)
    then show "trying (owner_runs smem i (c_connect mem ec (conns cl i)) cl)"
      by (simp add: owner_runs_def c between_failed)
  next
    assume "ec = None"
    obtain q ps where "c_alloc_inbound mem (c_inbound_pool (conns cl i)) = (q, ps)" by fastforce
    then have "\<exists>s. c_connect mem ec (conns cl i) = (s, []) \<and> \<not> c_connect_pending s"
      using \<open>ec = None\<close> u
      by (cases q) (simp_all add: c_connect_def Let_def c_on_close_def untouched_def c_async_read_header_def)
    then obtain s where s: "c_connect mem ec (conns cl i) = (s, [])" "\<not> c_connect_pending s" by blast
    then show "settled (owner_runs smem i (c_connect mem ec (conns cl i)) (cl\<lparr>connects := 1\<rparr>))"
      using assms(1) attempts_clear_pending [OF assms(2,3), of s]
      by (simp add: settled_def trying_def owner_runs_def attempts_def)
  }
qed

definition client_inv :: "string \<Rightarrow> u16 \<Rightarrow> client \<Rightarrow> bool" where
  "client_inv ip port cl \<longleftrightarrow> h_ip cl = ip \<and> h_port cl = port \<and> (trying cl \<or> settled cl)"

lemma owner_runs_address:
  "h_ip (owner_runs mem i r cl) = h_ip cl \<and> h_port (owner_runs mem i r cl) = h_port cl"
proof -
  have one: "h_ip (run_owner_call mem c cl) = h_ip cl \<and> h_port (run_owner_call mem c cl) = h_port cl" for c cl
    using same_attempts_call [of c cl mem]
    by (cases "c = Connect_failed") (auto simp: same_attempts_def client_on_connect_failed_def)
  have "h_ip (fold (run_owner_call mem) calls cl) = h_ip cl \<and>
      h_port (fold (run_owner_call mem) calls cl) = h_port cl" for calls cl
    by (induction calls arbitrary: cl) (simp_all add: one)
  then show ?thesis by (simp add: owner_runs_def)
qed

lemma settled_connect: "settled cl \<Longrightarrow> \<not> (i < conn_count cl \<and> c_connect_pending (conns cl i))"
  by (auto simp: settled_def attempts_def filter_empty_conv)

lemma settled_post: "settled cl \<Longrightarrow> posts cl = []"
  by (simp add: settled_def attempts_def)

lemma client_inv_quiet:
  "client_inv ip port cl \<Longrightarrow> \<not> trying cl \<Longrightarrow> same_attempts cl cl' \<Longrightarrow> client_inv ip port cl'"
  using same_attempts_settled by (auto simp: client_inv_def same_attempts_def)

lemma client_inv_post:
  assumes "client_inv ip port cl" "posts cl = xs @ p # ys" "ip \<noteq> []" "port \<noteq> 0" "parses ip"
  shows "client_inv ip port (run_post parses mem p (cl\<lparr>posts := xs @ ys\<rparr>))"
proof -
  let ?cl = "cl\<lparr>posts := xs @ ys\<rparr>"
  have t: "trying cl" using assms(1,2) settled_post by (auto simp: client_inv_def)
  have b: "between ?cl"
    using t attempts_remove_post [OF assms(2)] by (simp add: between_def trying_def attempts_def)
  have a: "h_ip ?cl = ip" "h_port ?cl = port" using assms(1) by (simp_all add: client_inv_def)
  show ?thesis
  proof (cases p)
    case Post_connect_failed
    then show ?thesis
      using between_failed [OF b] a by (simp add: client_inv_def client_on_connect_failed_def)
  next
    case Post_connect
    then show ?thesis
      using between_connect [where parses = parses and ip = ip and port = port, OF b assms(3-5)] a b
      by (simp add: client_inv_def client_on_connect_def c_on_connect_def Let_def owner_runs_def
          assms(3-5) connecting_def between_def)
  next
    case Timer_reconnect
    then show ?thesis
      using between_timer [OF b] a
      by (simp add: client_inv_def reconnect_timer_def client_on_reconnect_def)
  qed
qed

lemma client_inv_step:
  assumes "client_step parses cl cl'" "client_inv ip port cl" "ip \<noteq> []" "port \<noteq> 0" "parses ip"
  shows "client_inv ip port cl'"
  using assms(1)
proof (cases rule: client_step.cases)
  case (cs_post xs p ys mem)
  then show ?thesis using client_inv_post [of ip port cl xs p ys parses mem] assms(2-5) by simp
next
  case (cs_connect i smem mem ec)
  then have t: "trying cl" using assms(2) settled_connect by (auto simp: client_inv_def)
  have c0: "connects cl = 0" using t by (simp add: trying_def)
  then have c1: "cl\<lparr>connects := 0\<rparr> = cl" by (cases cl) simp
  have "h_ip cl' = ip \<and> h_port cl' = port"
    unfolding cs_connect(1) using assms(2) by (simp add: owner_runs_address client_inv_def)
  moreover have "trying cl' \<or> settled cl'"
    using trying_connect [OF t cs_connect(2,3), of ec smem mem] cs_connect(1) c0
      c1 by (cases "ec = None") auto
  ultimately show ?thesis by (simp add: client_inv_def)
next
  case (cs_connect_finish i smem)
  then have "\<not> trying cl" by (auto simp: trying_def untouched_def)
  then show ?thesis
    using client_inv_quiet [OF assms(2)] same_attempts_quiet [OF quiet_finish] cs_connect_finish by blast
next
  case (cs_header i rs bs ec mem)
  then have "\<not> trying cl" by (auto simp: trying_def untouched_def)
  then show ?thesis
    using client_inv_quiet [OF assms(2)] same_attempts_quiet [OF quiet_header] cs_header(1) by blast
next
  case (cs_body i n rs bs ec mem)
  then have "\<not> trying cl" by (auto simp: trying_def untouched_def)
  then show ?thesis
    using client_inv_quiet [OF assms(2)] same_attempts_quiet [OF quiet_body] cs_body(1) by blast
next
  case (cs_strand i t ts)
  then have "\<not> trying cl" by (auto simp: trying_def untouched_def)
  then show ?thesis
    using client_inv_quiet [OF assms(2)] same_attempts_quiet [OF quiet_task] cs_strand(1) by blast
next
  case (cs_write i xs p ys ec)
  then have "\<not> trying cl" by (auto simp: trying_def untouched_def)
  then show ?thesis
    using client_inv_quiet [OF assms(2)] same_attempts_quiet [OF quiet_write_done] cs_write(1) by blast
next
  case (cs_heart_beat smem)
  then have "\<not> trying cl" by (auto simp: trying_def)
  then show ?thesis
    using client_inv_quiet [OF assms(2)] same_attempts_send cs_heart_beat(1)
    by (simp add: heart_beat_tick_def)
next
  case (cs_some_data smem)
  then have "\<not> trying cl" by (auto simp: trying_def)
  then show ?thesis
    using client_inv_quiet [OF assms(2)] same_attempts_send cs_some_data(1)
    by (simp add: some_data_tick_def)
qed

lemma client_reachable_inv:
  assumes "client_reachable parses ip port cl" "ip \<noteq> []" "port \<noteq> 0" "parses ip"
  shows "client_inv ip port cl"
  using assms
proof (induction rule: client_reachable.induct)
  case (cr_start mem c)
  then show ?case
    by (simp add: client_inv_def trying_def attempts_def client_start_def client_new_def)
next
  case (cr_step cl cl')
  then show ?case using client_inv_step by blast
qed

text \<open>C37. The client keeps trying: until a connect has succeeded, exactly one attempt is under way
  (a posted function, a reconnect timer or an \<open>async_connect\<close> in flight), never none and never
  two; afterwards it makes no further attempt.\<close>

theorem client_keeps_trying:
  assumes "client_reachable parses ip port cl" and "ip \<noteq> []" and "port \<noteq> 0" and "parses ip"
  shows "attempts cl + connects cl = 1"
  using client_reachable_inv [OF assms]
  by (auto simp: client_inv_def trying_def settled_def)

theorem client_keeps_trying_witness:
  "attempts (client_start (\<lambda>_. True) 1 ''127.0.0.1'' 10011) +
   connects (client_start (\<lambda>_. True) 1 ''127.0.0.1'' 10011) = 1"
  by (rule client_keeps_trying [OF cr_start, of _ _ "\<lambda>_. True"]) simp_all

section \<open>Where the code leaves its contract\<close>

text \<open>Sending changes no flag and starts no read.\<close>

definition sends_only :: "client \<Rightarrow> client \<Rightarrow> bool" where
  "sends_only cl cl' \<longleftrightarrow> h_connected cl' = h_connected cl \<and> h_closing cl' = h_closing cl \<and>
     posts cl' = posts cl \<and> (\<forall>i. c_connected (conns cl' i) = c_connected (conns cl i) \<and>
       c_reads (conns cl' i) = c_reads (conns cl i) \<and>
       (CT_close \<in> set (c_strand (conns cl' i)) \<longleftrightarrow> CT_close \<in> set (c_strand (conns cl i))))"

lemma sends_only_on_send: "sends_only cl (snd (h_on_send out cl))"
proof (cases "h_session cl")
  case None
  then show ?thesis by (simp add: h_on_send_def sends_only_def)
next
  case (Some i)
  obtain ok s where s: "c_on_send False out (conns cl i) = (ok, s)" by fastforce
  then have "c_connected s = c_connected (conns cl i)" "c_reads s = c_reads (conns cl i)"
    "CT_close \<in> set (c_strand s) \<longleftrightarrow> CT_close \<in> set (c_strand (conns cl i))"
    by (auto simp: c_on_send_def split: option.splits if_splits)
  with s Some show ?thesis by (auto simp: h_on_send_def sends_only_def)
qed

lemma sends_only_send: "sends_only cl (send_message mem m cl)"
proof -
  obtain q ps where q: "h_alloc_outbound mem (h_outbound_pool cl) = (q, ps)" by fastforce
  let ?cl = "cl\<lparr>h_outbound_pool := ps\<rparr>"
  have "sends_only cl cl2" if "h_on_send out ?cl = (ok, cl2)" for out ok cl2
    using sends_only_on_send [of ?cl out] that by (simp add: sends_only_def)
  moreover have "sends_only cl ?cl" by (simp add: sends_only_def)
  ultimately show ?thesis
    using q by (auto simp: send_message_def h_send_def Let_def sends_only_def split: option.split prod.split)
qed

definition demo_conn :: csession where
  "demo_conn = (bound_csession (\<lambda>_. True))\<lparr>c_ip := ''127.0.0.1'', c_port := 10011, c_sock_open := True\<rparr>"

lemma demo_conn_fields:
  "c_bound demo_conn = {B_route, B_connecting, B_connected, B_connect_failed, B_closing, B_disconnected,
     B_alloc_outbound, B_dealloc_outbound}"
  "c_connected demo_conn = False" "c_reads demo_conn = []" "c_writes demo_conn = []"
  "c_strand demo_conn = []" "c_inbound_pool demo_conn = replicate 4 (inbound_init inbound_new)"
  by (auto simp: demo_conn_def bound_csession_def bind_owner_def csession_new_def numeral_eq_Suc)

text \<open>A client connection can end up connected without reading: when the first read fails
  before \<open>connect\<close> has marked the connection as connected, the failure's \<open>on_close\<close> does
  nothing, the mark is set afterwards, and the client takes itself for connected while no read
  is in flight and nothing of a close is queued.\<close>

lemma client_connected_without_reading:
  "\<exists>cl. client_reachable (\<lambda>_. True) ''127.0.0.1'' 10011 cl \<and> h_connected cl \<and> \<not> h_closing cl \<and>
     c_connected (conns cl 0) \<and> c_reads (conns cl 0) = [] \<and> CT_close \<notin> set (c_strand (conns cl 0)) \<and>
     posts cl = []"
proof -
  let ?r = "client_reachable (\<lambda>_. True) ''127.0.0.1'' 10011"
  let ?c0 = "client_start (\<lambda>_. True) 1 ''127.0.0.1'' 10011"
  let ?s1 = "demo_conn\<lparr>c_connect_pending := True\<rparr>"
  let ?c1 = "?c0\<lparr>posts := [], conn_count := 1, conns := (conns ?c0)(0 := ?s1), h_session := Some 0\<rparr>"
  have "client_step (\<lambda>_. True) ?c0 (run_post (\<lambda>_. True) (\<lambda>_. True) Post_connect (?c0\<lparr>posts := [] @ []\<rparr>))"
    by (rule cs_post) (simp add: client_start_def)
  moreover have "run_post (\<lambda>_. True) (\<lambda>_. True) Post_connect (?c0\<lparr>posts := [] @ []\<rparr>) = ?c1"
    by (simp add: client_on_connect_def client_start_def client_new_def c_on_connect_def Let_def
        owner_runs_def connecting_def demo_conn_def)
  ultimately have 1: "?r ?c1" using cr_step [OF cr_start] by metis
  let ?s2 = "demo_conn\<lparr>c_connect_pending := False, c_inbound_pool := replicate 3 (inbound_init inbound_new),
      c_inbound := Some (inbound_init inbound_new), c_connect_half := True, c_reads := [Read_header]\<rparr>"
  let ?c2 = "?c1\<lparr>conns := (conns ?c1)(0 := ?s2), connects := 1\<rparr>"
  have "client_step (\<lambda>_. True) ?c1 (owner_runs True 0 (c_connect True None (conns ?c1 0))
      (?c1\<lparr>connects := connects ?c1 + (if None = (None :: error_code option) then 1 else 0)\<rparr>))"
    by (rule cs_connect) simp_all
  moreover have "owner_runs True 0 (c_connect True None (conns ?c1 0))
      (?c1\<lparr>connects := connects ?c1 + (if None = (None :: error_code option) then 1 else 0)\<rparr>) = ?c2"
    by (simp add: owner_runs_def c_connect_def c_alloc_inbound_def c_async_read_header_def
        demo_conn_fields replicate_4 client_start_def client_new_def)
  ultimately have 2: "?r ?c2" using cr_step [OF 1] by metis
  let ?c3 = "?c2\<lparr>conns := (conns ?c2)(0 := ?s2\<lparr>c_reads := [], c_inbound := Some (fill_header (inbound_init inbound_new) [])\<rparr>)\<rparr>"
  have "client_step (\<lambda>_. True) ?c2
      (owner_runs True 0 (c_header True (Some Eof) [] ((conns ?c2 0)\<lparr>c_reads := []\<rparr>)) ?c2)"
    by (rule cs_header) simp_all
  moreover have "owner_runs True 0 (c_header True (Some Eof) [] ((conns ?c2 0)\<lparr>c_reads := []\<rparr>)) ?c2 = ?c3"
    by (simp add: owner_runs_def c_header_def c_read_header_def c_closed_def c_on_close_def
        c_route_read_def demo_conn_fields)
  ultimately have 3: "?r ?c3" using cr_step [OF 2] by metis
  let ?c4 = "owner_runs True 0 (c_connect_finish (conns ?c3 0)) ?c3"
  have "client_step (\<lambda>_. True) ?c3 ?c4"
    by (rule cs_connect_finish) simp_all
  then have "?r ?c4" by (rule cr_step [OF 3])
  moreover have "h_connected ?c4 \<and> \<not> h_closing ?c4 \<and> c_connected (conns ?c4 0) \<and>
      c_reads (conns ?c4 0) = [] \<and> CT_close \<notin> set (c_strand (conns ?c4 0)) \<and> posts ?c4 = []"
    using sends_only_send
    by (simp add: owner_runs_def c_connect_finish_def connected_def demo_conn_fields client_on_connected_def
        player_on_complete_connect_def access_server_def base_on_connected_def sends_only_def)
  ultimately show ?thesis by blast
qed

end
