(* ===== verification/Link.thy ===== *)
theory Link
  imports ClientProps "HOL-Library.Sublist"
begin

text \<open>
  A client's connection and a server's connection joined by a byte stream. The client side is
  the machine of \<open>ClientSession\<close>, the server side the one of \<open>SessionStep\<close>, with any handler;
  between them is the stream the socket carries from the client to the server. A write in flight
  gives its bytes to the stream in pieces of any length and completes without an error only when
  all of them are given; a read takes its bytes from the front of the stream. The other direction
  is open: whatever bytes or errors the client's reads bring. \<open>ln_sent\<close> records the bodies whose
  \<open>on_send\<close> was accepted, in order; no operation reads it.
\<close>

section \<open>The joined machines\<close>

record link =
  ln_client :: csession
  ln_written :: nat
  ln_pipe :: "u8 list"
  ln_server :: session
  ln_sent :: "(u16 \<times> u8 list) list"

fun reads_stream :: "event \<Rightarrow> bool" where
  "reads_stream (Ev_header mem ec bs h) = True"
| "reads_stream (Ev_body mem ec bs h) = True"
| "reads_stream e = False"

text \<open>The client's connection once \<open>async_connect\<close> has succeeded, the server's once accepted.\<close>

definition link_start ::
  "bool \<Rightarrow> (nat \<Rightarrow> bool) \<Rightarrow> bool \<Rightarrow> (nat \<Rightarrow> bool \<times> bool) \<Rightarrow> string \<Rightarrow> u16 \<Rightarrow> link" where
  "link_start cmem cmems mem mems ip port =
     \<lparr>ln_client = fst (c_connect cmem None
        (fst (snd (c_on_connect (\<lambda>_. True) ip port (bound_csession cmems))))),
      ln_written = 0, ln_pipe = [], ln_server = start mem ip port (session_new mems), ln_sent = []\<rparr>"

inductive link_step :: "link \<Rightarrow> link \<Rightarrow> bool" where
  ls_connected: "c_connect_half (ln_client l) \<Longrightarrow>
    link_step l (l\<lparr>ln_client := fst (c_connect_finish (ln_client l))\<rparr>)"
| ls_send: "0 < n \<Longrightarrow> n \<le> raw_size_c \<Longrightarrow> encode o1 i (Some src) n = Some out \<Longrightarrow>
    c_on_send False (Some out) (ln_client l) = (ok, c) \<Longrightarrow>
    link_step l (l\<lparr>ln_client := c,
      ln_sent := ln_sent l @ (if ok then [(i, slice src 0 n)] else [])\<rparr>)"
| ls_close: "link_step l (l\<lparr>ln_client := fst (c_on_close False (ln_client l))\<rparr>)"
| ls_task: "c_strand (ln_client l) = t # ts \<Longrightarrow>
    link_step l (l\<lparr>ln_client := fst (c_run_task t ((ln_client l)\<lparr>c_strand := ts\<rparr>))\<rparr>)"
| ls_client_header: "c_reads (ln_client l) = Read_header # rs \<Longrightarrow>
    length bs \<le> header_size_c \<Longrightarrow> ec = None \<longrightarrow> length bs = header_size_c \<Longrightarrow>
    link_step l (l\<lparr>ln_client := fst (c_header mem ec bs ((ln_client l)\<lparr>c_reads := rs\<rparr>))\<rparr>)"
| ls_client_body: "c_reads (ln_client l) = Read_body n # rs \<Longrightarrow>
    length bs \<le> n \<Longrightarrow> ec = None \<longrightarrow> length bs = n \<Longrightarrow>
    link_step l (l\<lparr>ln_client := fst (c_body mem ec bs ((ln_client l)\<lparr>c_reads := rs\<rparr>))\<rparr>)"
| ls_transmit: "c_writes (ln_client l) = p # ps \<Longrightarrow> k \<le> length (wire p) - ln_written l \<Longrightarrow>
    link_step l (l\<lparr>ln_pipe := ln_pipe l @ take k (drop (ln_written l) (wire p)),
      ln_written := ln_written l + k\<rparr>)"
| ls_write: "c_writes (ln_client l) = p # ps \<Longrightarrow> ec = None \<longrightarrow> ln_written l = length (wire p) \<Longrightarrow>
    link_step l (l\<lparr>ln_client := fst (c_write_done ec ((ln_client l)\<lparr>c_writes := ps\<rparr>)),
      ln_written := 0\<rparr>)"
| ls_server: "sess_step (ln_server l) e s \<Longrightarrow> \<not> reads_stream e \<Longrightarrow>
    link_step l (l\<lparr>ln_server := s\<rparr>)"
| ls_server_header: "sess_step (ln_server l) (Ev_header mem ec bs h) s \<Longrightarrow> ln_pipe l = bs @ rest \<Longrightarrow>
    link_step l (l\<lparr>ln_server := s, ln_pipe := rest\<rparr>)"
| ls_server_body: "sess_step (ln_server l) (Ev_body mem ec bs h) s \<Longrightarrow> ln_pipe l = bs @ rest \<Longrightarrow>
    link_step l (l\<lparr>ln_server := s, ln_pipe := rest\<rparr>)"

inductive link_reachable :: "link \<Rightarrow> bool" where
  lr_start: "link_reachable (link_start cmem cmems mem mems ip port)"
| lr_step: "link_reachable l \<Longrightarrow> link_step l l' \<Longrightarrow> link_reachable l'"

section \<open>The server's reader\<close>

text \<open>What of a connection only its reads change: the read in flight, the buffer it fills and
  the packets routed.\<close>

definition reader_view :: "session \<Rightarrow> read_op list \<times> inbound option \<times> inbound list" where
  "reader_view s = (reads s, cur_inbound s, routed (trace s))"

lemma reader_view_updates [simp]:
  "reader_view (on_close b s) = reader_view s" "reader_view (close_task s) = reader_view s"
  "reader_view (send_task p s) = reader_view s" "reader_view (fast_send_task p s) = reader_view s"
  "reader_view (snd (on_send b q s)) = reader_view s"
  "reader_view (snd (on_fast_send b q s)) = reader_view s"
  "reader_view (raise_fault f s) = reader_view s"
  "reader_view (snd (session_alloc_outbound mem s)) = reader_view s"
  "reader_view (session_dealloc_inbound ib s) = reader_view s"
  "reader_view (run_dealloc s) = reader_view s"
  "reader_view (write_done ec s) = reader_view s"
  "reader_view (s\<lparr>strand := ts\<rparr>) = reader_view s" "reader_view (s\<lparr>writes := ws\<rparr>) = reader_view s"
  by (auto simp: reader_view_def on_close_def close_task_def send_task_def fast_send_task_def
      on_send_def on_fast_send_def session_alloc_outbound_def session_dealloc_inbound_def
      run_dealloc_def write_done_def async_write_front_def Let_def
      split: list.split option.split prod.split)

lemma reader_view_alloc:
  "session_alloc_outbound mem s = (p, t) \<Longrightarrow> reader_view t = reader_view s"
  using reader_view_updates(8) [of mem s] by simp

lemma reader_view_send [simp]: "reader_view (snd (send b mem i body n s)) = reader_view s"
  by (auto simp: send_def dest: reader_view_alloc split: option.split prod.split)

lemma reader_view_api [simp]: "reader_view (api_call b a s) = reader_view s"
proof (cases a)
  case (Api_fast_send i body n)
  then show ?thesis by (auto simp: fast_send_def split: option.split)
next
  case (Api_set_compid c)
  then show ?thesis by (simp add: reader_view_def set_compid_def)
next
  case Api_set_keep_alive
  then show ?thesis by (simp add: reader_view_def set_keep_alive_flag_def)
next
  case Api_init_keep_alive
  then show ?thesis by (simp add: reader_view_def init_keep_alive_flag_def)
qed simp_all

lemma reader_view_calls [simp]: "reader_view (handler_calls calls s) = reader_view s"
  unfolding handler_calls_def by (induction calls arbitrary: s) simp_all

lemma reader_view_task: "reader_view (run_task calls t s) = reader_view s"
  by (cases t) (simp_all, simp_all add: reader_view_def)

lemma reader_view_step:
  assumes "sess_step s e t" "\<not> reads_stream e"
  shows "reader_view t = reader_view s"
  using assms by (cases rule: sess_step.cases) (simp_all add: reader_view_task)

lemma reader_view_deliver:
  assumes "session_inv s"
  shows "reader_view (deliver h (Some p) s) = (reads s, cur_inbound s, routed (trace s) @ [p])"
proof -
  have "reader_view (emit (Obs_route p) s) = (reads s, cur_inbound s, routed (trace s) @ [p])"
    by (simp add: reader_view_def)
  then show ?thesis
    by (simp add: deliver_Some [OF assms] Let_def split: option.split)
qed

text \<open>A read that completes without an error in a reachable connection, by the kind of read.\<close>

lemma header_completes:
  assumes "session_inv s" "reads s = [Read_header]" "length hb = header_size_c"
    and "\<And>p. 0 < unat (in_body_size (decide (fill_header p hb)))"
  shows "\<exists>p rs n. reader_view (finish_header mem None hb h (s\<lparr>reads := []\<rparr>)) =
    (rs, Some (decide (fill_header p hb)), routed (trace s)) \<and> (rs = [] \<or> rs = [Read_body n])"
proof -
  obtain p where p: "cur_inbound s = Some p"
    using assms(1,2) by (auto simp: session_inv_def reader_ok_def)
  show ?thesis
    using assms(2,3) assms(4) [of p] p
    by (auto simp: finish_header_def read_header_def set_keep_alive_flag_def Let_def deliver_def
        async_read_body_def reader_view_def)
qed

lemma header_fails:
  assumes "session_inv s" "reads s = [Read_header]"
  shows "\<exists>q. reader_view (finish_header mem (Some e) bs h (s\<lparr>reads := []\<rparr>)) = ([], q, routed (trace s))"
proof -
  have v: "finish_header mem (Some e) bs h (s\<lparr>reads := []\<rparr>) =
      on_close True (s\<lparr>reads := [], cur_inbound := map_option (\<lambda>p. fill_header p bs) (cur_inbound s)\<rparr>)"
    by (simp add: finish_header_def read_header_def Let_def deliver_def split: option.split)
  show ?thesis unfolding v reader_view_updates by (simp add: reader_view_def)
qed

lemma body_completes:
  assumes "session_inv s" "reads s = [Read_body n]" "cur_inbound s = Some ib"
    and "length body = unat (in_body_size ib)"
  shows "\<exists>rs q. reader_view (finish_body mem None body h (s\<lparr>reads := []\<rparr>)) =
    (rs, q, routed (trace s) @ [fill_body ib body]) \<and> (rs = [] \<or> rs = [Read_header])"
proof -
  let ?s = "s\<lparr>reads := [], cur_inbound := Some (fill_body ib body)\<rparr>"
  have busy: "reader_busy ?s"
    using assms(1,2) by (auto simp: reader_busy_def session_ok_defs)
  have view: "snd (read_body mem None (length body) ?s) = Some (fill_body ib body) \<and>
      (\<exists>rs q. reader_view (fst (read_body mem None (length body) ?s)) = (rs, q, routed (trace s)) \<and>
        (rs = [] \<or> rs = [Read_header]))"
    using assms(4)
    by (auto simp: read_body_def next_header_def body_decode_id session_alloc_inbound_def
        async_read_header_def Let_def reader_view_def on_close_def close_task_def
        split: prod.split option.split)
  obtain t where t: "read_body mem None (length body) ?s = (t, Some (fill_body ib body))"
    "session_inv t"
    using view session_inv_read_body [OF busy, of mem None "length body"]
    by (metis prod.collapse)
  have "finish_body mem None body h (s\<lparr>reads := []\<rparr>) = deliver h (Some (fill_body ib body)) t"
    using assms(3) t(1) by (simp add: finish_body_def Let_def)
  with view t reader_view_deliver [OF t(2)] show ?thesis
    by (simp add: reader_view_def)
qed

lemma body_fails:
  assumes "session_inv s" "reads s = [Read_body n]"
  shows "\<exists>q. reader_view (finish_body mem (Some e) bs h (s\<lparr>reads := []\<rparr>)) = ([], q, routed (trace s))"
proof -
  have v: "finish_body mem (Some e) bs h (s\<lparr>reads := []\<rparr>) =
      on_close True (s\<lparr>reads := [], cur_inbound := map_option (\<lambda>p. fill_body p bs) (cur_inbound s)\<rparr>)"
    by (simp add: finish_body_def read_body_def Let_def deliver_def split: option.split)
  show ?thesis unfolding v reader_view_updates by (simp add: reader_view_def)
qed

section \<open>Packets and the stream\<close>

definition packet_for :: "u16 \<times> u8 list \<Rightarrow> outbound \<Rightarrow> bool" where
  "packet_for m out \<longleftrightarrow> (\<exists>o1 src n. 0 < n \<and> n \<le> 65519 \<and>
     encode o1 (fst m) (Some src) n = Some out \<and> snd m = slice src 0 n)"

lemma packet_for_wire:
  assumes "packet_for m out"
  shows "wire out = take 16 (wire out) @ snd m" "length (take 16 (wire out)) = 16"
    and "snd m \<noteq> []"
    and "unat (in_body_size (decide (fill_header p (take 16 (wire out))))) = length (snd m)"
    and "content (fill_body (decide (fill_header p (take 16 (wire out)))) (snd m)) = m"
proof -
  obtain o1 src n where e: "0 < n" "n \<le> 65519" "encode o1 (fst m) (Some src) n = Some out"
    "snd m = slice src 0 n"
    using assms by (auto simp: packet_for_def)
  note w = wire_encode [OF e(1-3)]
  let ?hb = "header_bytes (out_header out)"
  have hb: "take 16 (wire out) = ?hb" by (simp add: w(1))
  have "unat (word_of_nat (16 + n) :: u32) = 16 + n"
    using e(2) by (simp only: unat_of_nat) simp
  then have n: "unat (in_body_size (decide (fill_header p ?hb))) = n"
    using e(1,2) by (simp add: in_body_size_decide w(2) Let_def)
  show "wire out = take 16 (wire out) @ snd m" "length (take 16 (wire out)) = 16" "snd m \<noteq> []"
    "unat (in_body_size (decide (fill_header p (take 16 (wire out))))) = length (snd m)"
    using e(1,4) n unfolding hb by (simp_all add: w(1) slice_def)
  show "content (fill_body (decide (fill_header p (take 16 (wire out)))) (snd m)) = m"
    using n e(4) unfolding hb by (cases m) (simp add: content_def slice_fill_body w(2))
qed

lemma packets_nonempty:
  assumes "list_all2 packet_for msgs outs" "p \<in> set outs"
  shows "wire p \<noteq> []"
proof -
  obtain m where "packet_for m p"
    using assms by (metis list_all2_conv_all_nth in_set_conv_nth)
  from packet_for_wire(2) [OF this] show ?thesis by auto
qed

text \<open>The bytes after the first \<open>r\<close> packets start with the packet \<open>r\<close>.\<close>

lemma next_packet:
  assumes "prefix (concat (map wire (take r outs)) @ bs) (concat (map wire outs))" "bs \<noteq> []"
  shows "r < length outs \<and> prefix bs (wire (outs ! r) @ concat (map wire (drop (Suc r) outs)))"
proof -
  have "concat (map wire outs) = concat (map wire (take r outs)) @ concat (map wire (drop r outs))"
    by (metis append_take_drop_id concat_append map_append)
  with assms(1) have p: "prefix bs (concat (map wire (drop r outs)))" by simp
  with assms(2) have "drop r outs \<noteq> []" by auto
  then have "r < length outs" by simp
  with p show ?thesis by (simp add: Cons_nth_drop_Suc [symmetric])
qed

text \<open>What the next sixteen bytes are when the first \<open>r\<close> packets have been consumed, and what
  follows them.\<close>

lemma header_arrives:
  assumes "list_all2 packet_for msgs outs" "length bs = 16"
    and "prefix (concat (map wire (take r outs)) @ bs @ rest) (concat (map wire outs))"
  shows "r < length outs" "packet_for (msgs ! r) (outs ! r)" "bs = take 16 (wire (outs ! r))"
proof -
  have ne: "bs @ rest \<noteq> []" using assms(2) by auto
  have n: "r < length outs" "prefix (bs @ rest) (wire (outs ! r) @ concat (map wire (drop (Suc r) outs)))"
    using next_packet [OF assms(3) ne] by auto
  show "r < length outs" by (rule n)
  show pf: "packet_for (msgs ! r) (outs ! r)"
    using assms(1) n(1) by (simp add: list_all2_conv_all_nth)
  show "bs = take 16 (wire (outs ! r))"
    using n(2) assms(2) packet_for_wire(2) [OF pf]
    by (auto simp: prefix_def append_eq_append_conv_if split: if_splits)
qed

lemma body_arrives:
  assumes "list_all2 packet_for msgs outs" "r < length outs" "length bs = length (snd (msgs ! r))"
    and "prefix (concat (map wire (take r outs)) @ take 16 (wire (outs ! r)) @ bs @ rest) (concat (map wire outs))"
  shows "bs = snd (msgs ! r)"
    and "concat (map wire (take r outs)) @ take 16 (wire (outs ! r)) @ bs = concat (map wire (take (Suc r) outs))"
proof -
  have pf: "packet_for (msgs ! r) (outs ! r)"
    using assms(1,2) by (simp add: list_all2_conv_all_nth)
  note w = packet_for_wire [OF pf]
  have ne: "take 16 (wire (outs ! r)) @ bs @ rest \<noteq> []" using w(2) by auto
  have "prefix (take 16 (wire (outs ! r)) @ bs @ rest)
      (wire (outs ! r) @ concat (map wire (drop (Suc r) outs)))"
    using next_packet [OF assms(4) ne] by blast
  then show body: "bs = snd (msgs ! r)"
    using assms(3) by (subst (asm) (2) w(1)) (auto simp: prefix_def append_eq_append_conv_if)
  show "concat (map wire (take r outs)) @ take 16 (wire (outs ! r)) @ bs = concat (map wire (take (Suc r) outs))"
    using assms(2) body w(1) by (simp add: take_Suc_conv_app_nth)
qed

section \<open>Where the server stands in the stream\<close>

text \<open>The server has routed the first \<open>r\<close> bodies and, unless it has stopped reading, has
  consumed the first \<open>r\<close> packets, or these and the next header.\<close>

definition server_at :: "(u16 \<times> u8 list) list \<Rightarrow> outbound list \<Rightarrow> u8 list \<Rightarrow> session \<Rightarrow> bool" where
  "server_at msgs outs consumed s \<longleftrightarrow> (\<exists>r \<le> length outs. map content (routed (trace s)) = take r msgs \<and>
     (reads s = [] \<or>
      reads s = [Read_header] \<and> consumed = concat (map wire (take r outs)) \<or>
      r < length outs \<and> consumed = concat (map wire (take r outs)) @ take 16 (wire (outs ! r)) \<and>
        (\<exists>n p. reads s = [Read_body n] \<and>
           cur_inbound s = Some (decide (fill_header p (take 16 (wire (outs ! r))))))))"

lemma server_at_frame:
  "reader_view t = reader_view s \<Longrightarrow> server_at msgs outs consumed t = server_at msgs outs consumed s"
  by (simp add: server_at_def reader_view_def)

lemma server_at_stopped:
  "server_at msgs outs consumed s \<Longrightarrow> reader_view t = ([], q, routed (trace s)) \<Longrightarrow>
   server_at msgs outs consumed' t"
  by (auto simp: server_at_def reader_view_def)

lemma server_at_routed:
  assumes "server_at msgs outs consumed s"
  shows "\<exists>r \<le> length outs. map content (routed (trace s)) = take r msgs \<and>
    (reads s = [Read_header] \<longrightarrow> consumed = concat (map wire (take r outs)))"
proof -
  obtain r where "r \<le> length outs" "map content (routed (trace s)) = take r msgs"
    "reads s = [] \<or> reads s = [Read_header] \<and> consumed = concat (map wire (take r outs)) \<or>
      (\<exists>n. reads s = [Read_body n])"
    using assms by (auto simp: server_at_def)
  then show ?thesis by (intro exI [of _ r]) auto
qed

lemma server_at_more:
  assumes "server_at msgs outs consumed s" "length msgs = length outs"
  shows "server_at (msgs @ [m]) (outs @ [out]) consumed s"
proof -
  obtain r where r: "r \<le> length outs" "map content (routed (trace s)) = take r msgs"
    "reads s = [] \<or> reads s = [Read_header] \<and> consumed = concat (map wire (take r outs)) \<or>
      r < length outs \<and> consumed = concat (map wire (take r outs)) @ take 16 (wire (outs ! r)) \<and>
        (\<exists>n p. reads s = [Read_body n] \<and>
           cur_inbound s = Some (decide (fill_header p (take 16 (wire (outs ! r))))))"
    using assms(1) by (auto simp: server_at_def)
  show ?thesis
    unfolding server_at_def using r assms(2) by (intro exI [of _ r]) (auto simp: nth_append)
qed

lemma server_at_header:
  assumes "session_inv s" "server_at msgs outs consumed s" "list_all2 packet_for msgs outs"
    and "prefix (consumed @ bs @ rest) (concat (map wire outs))"
    and "sess_step s (Ev_header mem ec bs h) t"
  shows "server_at msgs outs (consumed @ bs) t"
proof -
  have s: "reads s = [Read_header]" and t: "t = finish_header mem ec bs h (s\<lparr>reads := []\<rparr>)"
    and bs: "ec = None \<Longrightarrow> length bs = header_size_c"
    using assms(1,5) by (auto simp: session_inv_def reader_ok_def elim: sess_step_cases)
  show ?thesis
  proof (cases ec)
    case None
    obtain r where r: "r \<le> length outs" "map content (routed (trace s)) = take r msgs"
      "consumed = concat (map wire (take r outs))"
      using assms(2) s by (auto simp: server_at_def)
    have bs: "length bs = 16" using bs None by simp
    note n = header_arrives [OF assms(3) bs assms(4) [unfolded r(3)]]
    note w = packet_for_wire [OF n(2)]
    note hb = n(3)
    have "0 < unat (in_body_size (decide (fill_header p bs)))" for p
      unfolding hb w(4) using w(3) by simp
    then obtain p rs k where v: "reader_view t = (rs, Some (decide (fill_header p bs)), routed (trace s))"
      "rs = [] \<or> rs = [Read_body k]"
      using header_completes [OF assms(1) s, of bs mem h] bs t None by auto
    show ?thesis
      unfolding server_at_def using v r n(1) hb
      by (intro exI [of _ r]) (auto simp: reader_view_def)
  next
    case (Some e)
    with header_fails [OF assms(1) s, of mem e bs h] t server_at_stopped [OF assms(2)]
    show ?thesis by auto
  qed
qed

lemma server_at_body:
  assumes "session_inv s" "server_at msgs outs consumed s" "list_all2 packet_for msgs outs"
    and "prefix (consumed @ bs @ rest) (concat (map wire outs))"
    and "sess_step s (Ev_body mem ec bs h) t"
  shows "server_at msgs outs (consumed @ bs) t"
proof -
  obtain n where s: "reads s = [Read_body n]" and t: "t = finish_body mem ec bs h (s\<lparr>reads := []\<rparr>)"
    and bs: "ec = None \<Longrightarrow> length bs = n"
    using assms(1,5) by (auto simp: session_inv_def reader_ok_def elim: sess_step_cases)
  show ?thesis
  proof (cases ec)
    case None
    obtain r p where r: "r < length outs" "map content (routed (trace s)) = take r msgs"
      "consumed = concat (map wire (take r outs)) @ take 16 (wire (outs ! r))"
      "cur_inbound s = Some (decide (fill_header p (take 16 (wire (outs ! r)))))"
      using assms(2) s by (auto simp: server_at_def)
    then have pf: "packet_for (msgs ! r) (outs ! r)" and lm: "r < length msgs"
      using assms(3) by (simp_all add: list_all2_conv_all_nth)
    note w = packet_for_wire [OF pf]
    have n: "n = length (snd (msgs ! r))"
      using assms(1) s r(4) w(4) by (auto simp: session_inv_def reader_ok_def)
    have lb: "length bs = length (snd (msgs ! r))" using bs None n by simp
    have pre: "prefix (concat (map wire (take r outs)) @ take 16 (wire (outs ! r)) @ bs @ rest) (concat (map wire outs))"
      using assms(4) unfolding r(3) by simp
    note body = body_arrives [OF assms(3) r(1) lb pre]
    have len: "length bs = unat (in_body_size (decide (fill_header p (take 16 (wire (outs ! r))))))"
      using lb w(4) by simp
    obtain rs q where v: "reader_view t = (rs, q, routed (trace s) @
        [fill_body (decide (fill_header p (take 16 (wire (outs ! r))))) bs])" "rs = [] \<or> rs = [Read_header]"
      using body_completes [OF assms(1) s r(4) len, of mem h] t None by blast
    have "consumed @ bs = concat (map wire (take (Suc r) outs))"
      using r(3) body(2) by simp
    moreover have "map content (routed (trace t)) = take (Suc r) msgs"
      using v(1) r(2) body(1) w(5) lm by (simp add: reader_view_def take_Suc_conv_app_nth)
    ultimately show ?thesis
      unfolding server_at_def using v r(1)
      by (intro exI [of _ "Suc r"]) (auto simp: reader_view_def)
  next
    case (Some e)
    with body_fails [OF assms(1) s, of mem e bs h] t server_at_stopped [OF assms(2)]
    show ?thesis by auto
  qed
qed

section \<open>What the client has given to the stream\<close>

fun sends :: "client_task list \<Rightarrow> outbound list" where
  "sends [] = []"
| "sends (CT_send p # ts) = p # sends ts"
| "sends (CT_close # ts) = sends ts"

lemma sends_append [simp]: "sends (ts @ us) = sends ts @ sends us"
  by (induction ts rule: sends.induct) auto

text \<open>\<open>outs\<close> are the packets accepted so far. While the connection may still write, they are
  the ones written, the queue and the ones on their way to the queue; the bytes given are the
  written packets' and the first of the one in flight.\<close>

definition given :: "outbound list \<Rightarrow> u8 list \<Rightarrow> nat \<Rightarrow> outbound list \<Rightarrow> outbound list \<Rightarrow> outbound list \<Rightarrow> bool" where
  "given outs stream written q ws waiting \<longleftrightarrow> (\<exists>done. outs = done @ q @ waiting \<and>
     (ws = [] \<and> q = [] \<and> written = 0 \<and> stream = concat (map wire done) \<or>
      (\<exists>p ps. ws = [p] \<and> q = p # ps \<and> written \<le> length (wire p) \<and>
         stream = concat (map wire done) @ take written (wire p))))"

definition client_at :: "outbound list \<Rightarrow> u8 list \<Rightarrow> nat \<Rightarrow> csession \<Rightarrow> bool" where
  "client_at outs stream written c \<longleftrightarrow>
     (c_connect_half c \<longrightarrow> \<not> c_connected c \<and> c_outbound_q c = [] \<and> c_writes c = [] \<and> sends (c_strand c) = []) \<and>
     prefix stream (concat (map wire outs)) \<and>
     (c_connected c \<or> c_connect_half c \<or> c_writes c \<noteq> [] \<longrightarrow>
       given outs stream written (c_outbound_q c) (c_writes c) (sends (c_strand c)))"

lemma given_idle:
  "given outs stream written q [] waiting \<longleftrightarrow>
     q = [] \<and> written = 0 \<and> (\<exists>done. outs = done @ waiting \<and> stream = concat (map wire done))"
  by (auto simp: given_def)

lemma given_writing:
  "given outs stream written q (p # ws) waiting \<longleftrightarrow> ws = [] \<and> written \<le> length (wire p) \<and>
     (\<exists>done ps. q = p # ps \<and> outs = done @ p # ps @ waiting \<and>
        stream = concat (map wire done) @ take written (wire p))"
  by (auto simp: given_def)

lemma given_send:
  "given outs stream written q ws waiting \<Longrightarrow> given (outs @ [p]) stream written q ws (waiting @ [p])"
  by (auto simp: given_def)

lemma given_queue:
  "given outs stream written q ws (p # waiting) \<Longrightarrow>
   given outs stream written (q @ [p]) (if q = [] then ws @ [p] else ws) waiting"
  by (auto simp: given_def)

text \<open>An operation that does not write, and at most closes.\<close>

definition only_closes :: "csession \<Rightarrow> csession \<Rightarrow> bool" where
  "only_closes c d \<longleftrightarrow> c_outbound_q d = c_outbound_q c \<and> c_writes d = c_writes c \<and>
     sends (c_strand d) = sends (c_strand c) \<and> c_connect_half d = c_connect_half c \<and>
     (c_connected d \<longrightarrow> c_connected c)"

lemma client_at_only_closes:
  "client_at outs stream written c \<Longrightarrow> only_closes c d \<Longrightarrow> client_at outs stream written d"
  unfolding client_at_def only_closes_def by (elim conjE) (simp, blast)

lemma only_closes_refl [simp]: "only_closes c c"
  by (simp add: only_closes_def)

lemma only_closes_trans: "only_closes a b \<Longrightarrow> only_closes b c \<Longrightarrow> only_closes a c"
  by (simp add: only_closes_def)

lemma only_closes_update [simp]:
  "only_closes c (d\<lparr>c_inbound := p\<rparr>) = only_closes c d"
  "only_closes c (d\<lparr>c_inbound_pool := ps\<rparr>) = only_closes c d"
  "only_closes c (d\<lparr>c_inbound_q := q\<rparr>) = only_closes c d"
  "only_closes c (d\<lparr>c_reads := rs\<rparr>) = only_closes c d"
  "only_closes (c\<lparr>c_reads := rs\<rparr>) d = only_closes c d"
  "only_closes (c\<lparr>c_inbound := p\<rparr>) d = only_closes c d"
  "only_closes c (c_async_read_header d) = only_closes c d"
  "only_closes c (c_async_read_body n d) = only_closes c d"
  by (simp_all add: only_closes_def c_async_read_header_def c_async_read_body_def)

lemma only_closes_on_close: "only_closes c d \<Longrightarrow> only_closes c (fst (c_on_close b d))"
  by (auto simp: only_closes_def c_on_close_def c_close_task_def Let_def)

lemma only_closes_closed: "only_closes c d \<Longrightarrow> c_on_close b d = (e, calls) \<Longrightarrow> only_closes c e"
  using only_closes_on_close [of c d b] by simp

lemma only_closes_next_header: "only_closes c d \<Longrightarrow> only_closes c (fst (c_next_header mem p d))"
  by (auto simp: c_next_header_def Let_def dest: only_closes_closed [rotated]
      split: prod.split option.split)

lemma only_closes_read_header: "only_closes c d \<Longrightarrow> only_closes c (fst (c_read_header mem ec n d))"
  by (auto simp: c_read_header_def c_closed_def Let_def only_closes_next_header
      dest: only_closes_closed [rotated] split: prod.split option.split)

lemma only_closes_read_body: "only_closes c d \<Longrightarrow> only_closes c (fst (c_read_body mem ec n d))"
  by (auto simp: c_read_body_def c_closed_def Let_def only_closes_next_header
      dest: only_closes_closed [rotated] split: prod.split option.split)

lemma only_closes_poll: "only_closes c d \<Longrightarrow> only_closes c (fst (c_route_poll n d))"
proof (induction n d rule: c_route_poll.induct)
  case (2 n d)
  then show ?case
    by (cases "c_inbound_q d") (simp_all add: Let_def prod.case_eq_if)
qed simp

lemma only_closes_route:
  assumes "only_closes c (fst r)"
  shows "only_closes c (fst (c_route_read r))"
proof -
  obtain d calls p where r: "r = (d, calls, p)" by (cases r)
  have "only_closes c (fst (c_route_poll n (d\<lparr>c_inbound_q := q\<rparr>)))" for n q
    using assms r by (simp add: only_closes_poll)
  then show ?thesis
    using assms r by (simp add: c_route_read_def c_route_def Let_def prod.case_eq_if split: option.split)
qed

lemma only_closes_header: "only_closes c (fst (c_header mem ec bs (c\<lparr>c_reads := rs\<rparr>)))"
  unfolding c_header_def by (intro only_closes_route only_closes_read_header) simp

lemma only_closes_body: "only_closes c (fst (c_body mem ec bs (c\<lparr>c_reads := rs\<rparr>)))"
  unfolding c_body_def by (intro only_closes_route only_closes_read_body) simp

lemmas client_at_closing = client_at_only_closes [OF _ only_closes_on_close [OF only_closes_refl]]
  client_at_only_closes [OF _ only_closes_header] client_at_only_closes [OF _ only_closes_body]

lemma client_at_task:
  assumes "client_at outs stream written c" "c_strand c = t # ts"
  shows "client_at outs stream written (fst (c_run_task t (c\<lparr>c_strand := ts\<rparr>)))"
proof (cases t)
  case CT_close
  then have "only_closes c (fst (c_run_task t (c\<lparr>c_strand := ts\<rparr>)))"
    using assms(2) by (auto simp: only_closes_def c_close_task_def)
  with assms(1) show ?thesis by (rule client_at_only_closes)
next
  case (CT_send p)
  let ?d = "fst (c_run_task t (c\<lparr>c_strand := ts\<rparr>))"
  have d: "c_connect_half ?d = c_connect_half c" "c_connected ?d = c_connected c"
    "c_outbound_q ?d = c_outbound_q c @ [p]" "sends (c_strand ?d) = sends ts"
    "c_writes ?d = (if c_outbound_q c = [] \<and> c_connected c then c_writes c @ [p] else c_writes c)"
    using CT_send by (auto simp: c_send_task_def c_async_write_front_def Let_def neq_Nil_conv
        split: list.splits)
  have half: "\<not> c_connect_half c"
    using assms CT_send by (auto simp: client_at_def)
  show ?thesis
  proof (cases "c_connected c \<or> c_writes c \<noteq> []")
    case True
    then have "given outs stream written (c_outbound_q c) (c_writes c) (p # sends ts)"
      using assms CT_send by (auto simp: client_at_def)
    moreover from this have "c_writes c \<noteq> [] \<longrightarrow> c_outbound_q c \<noteq> []"
      by (auto simp: given_def)
    ultimately have "given outs stream written (c_outbound_q ?d) (c_writes ?d) (sends (c_strand ?d))"
      using given_queue True unfolding d by fastforce
    then show ?thesis
      using assms(1) half unfolding client_at_def d(1) by simp
  next
    case False
    then have "c_writes ?d = []" "\<not> c_connected ?d" using d by simp_all
    then show ?thesis using assms(1) half unfolding client_at_def d(1) by simp
  qed
qed

lemma client_at_send:
  assumes "client_at outs stream written c" "c_on_send False (Some p) c = (ok, d)"
  shows "client_at (outs @ (if ok then [p] else [])) stream written d"
proof (cases "c_connected c")
  case True
  then have g: "given outs stream written (c_outbound_q c) (c_writes c) (sends (c_strand c))"
    using assms(1) by (simp add: client_at_def)
  show ?thesis
    using assms given_send [OF g, of p] True
    by (auto simp: client_at_def c_on_send_def prefix_append)
next
  case False
  with assms show ?thesis by (simp add: c_on_send_def)
qed

lemma client_at_transmit:
  assumes "client_at outs stream written c" "c_writes c = p # ps" "k \<le> length (wire p) - written"
  shows "client_at outs (stream @ take k (drop written (wire p))) (written + k) c"
proof -
  obtain don q where l: "outs = don @ p # q @ sends (c_strand c)" "ps = []" "c_outbound_q c = p # q"
    "written \<le> length (wire p)" "stream = concat (map wire don) @ take written (wire p)"
    using assms(1,2) by (auto simp: client_at_def given_writing)
  have "stream @ take k (drop written (wire p)) = concat (map wire don) @ take (written + k) (wire p)"
    using l(5) by (simp add: take_add)
  moreover have "prefix (take (written + k) (wire p)) (wire p @ xs)" for xs
    by (simp add: prefix_prefix take_is_prefix)
  moreover have "\<not> c_connect_half c" using assms(1,2) by (auto simp: client_at_def)
  ultimately show ?thesis
    using assms l by (auto simp: client_at_def given_writing)
qed

lemma client_at_write:
  assumes "client_at outs stream written c" "c_writes c = p # ps"
    and "ec = None \<longrightarrow> written = length (wire p)"
  shows "client_at outs stream 0 (fst (c_write_done ec (c\<lparr>c_writes := ps\<rparr>)))"
proof -
  obtain don q where l: "outs = don @ p # q @ sends (c_strand c)" "ps = []" "c_outbound_q c = p # q"
    "stream = concat (map wire don) @ take written (wire p)" "\<not> c_connect_half c"
    "prefix stream (concat (map wire outs))"
    using assms(1,2) by (auto simp: client_at_def given_writing)
  show ?thesis
  proof (cases ec)
    case (Some e)
    have "c_writes (fst (c_write_done ec (c\<lparr>c_writes := ps\<rparr>))) = []"
      "\<not> c_connected (fst (c_write_done ec (c\<lparr>c_writes := ps\<rparr>)))"
      "\<not> c_connect_half (fst (c_write_done ec (c\<lparr>c_writes := ps\<rparr>)))"
      using l Some by (auto simp: c_write_done_def c_on_close_def c_close_task_def Let_def)
    then show ?thesis using l(6) by (simp add: client_at_def)
  next
    case None
    let ?d = "fst (c_write_done ec (c\<lparr>c_writes := ps\<rparr>))"
    have d: "c_connect_half ?d = c_connect_half c" "c_connected ?d = c_connected c"
      "c_outbound_q ?d = q" "c_strand ?d = c_strand c"
      "c_writes ?d = (if q \<noteq> [] \<and> c_connected c then [hd q] else [])"
      using l None by (auto simp: c_write_done_def Let_def c_async_write_front_def split: list.split)
    have "given outs stream 0 q (if q \<noteq> [] then [hd q] else []) (sends (c_strand c))"
      using l None assms(3) by (cases q) (auto simp: given_def intro: exI [of _ "don @ [p]"])
    then show ?thesis
      using l(5,6) unfolding client_at_def d by (auto split: if_splits)
  qed
qed

lemma client_at_connected:
  assumes "client_at outs stream written c" "c_connect_half c"
  shows "client_at outs stream written (fst (c_connect_finish c))"
  using assms by (auto simp: client_at_def c_connect_finish_def)

section \<open>The joined invariant\<close>

definition link_inv :: "link \<Rightarrow> bool" where
  "link_inv l \<longleftrightarrow> session_inv (ln_server l) \<and>
     (\<exists>outs consumed. list_all2 packet_for (ln_sent l) outs \<and>
        client_at outs (consumed @ ln_pipe l) (ln_written l) (ln_client l) \<and>
        server_at (ln_sent l) outs consumed (ln_server l))"

lemma link_invI:
  "session_inv (ln_server l) \<Longrightarrow> list_all2 packet_for (ln_sent l) outs \<Longrightarrow>
   client_at outs (consumed @ ln_pipe l) (ln_written l) (ln_client l) \<Longrightarrow>
   server_at (ln_sent l) outs consumed (ln_server l) \<Longrightarrow> link_inv l"
  unfolding link_inv_def by blast

lemma link_inv_start: "link_inv (link_start cmem cmems mem mems ip port)"
proof -
  let ?l = "link_start cmem cmems mem mems ip port"
  have "client_at [] [] 0 (ln_client ?l)"
    by (auto simp: client_at_def given_def link_start_def c_connect_def c_on_connect_def c_on_close_def
        bound_csession_def bind_owner_def csession_new_def c_async_read_header_def Let_def
        split: option.split prod.split)
  moreover have "server_at [] [] [] (ln_server ?l)"
    by (auto simp: server_at_def link_start_def start_def session_new_def session_alloc_inbound_def
        async_read_header_def on_close_def Let_def split: option.split prod.split)
  ultimately show ?thesis
    unfolding link_inv_def using session_inv_start
    by (intro conjI exI [of _ "[]"]) (simp_all add: link_start_def)
qed

lemma link_inv_step:
  assumes "link_step l l'" "link_inv l"
  shows "link_inv l'"
proof -
  obtain outs consumed where i: "session_inv (ln_server l)" "list_all2 packet_for (ln_sent l) outs"
    "client_at outs (consumed @ ln_pipe l) (ln_written l) (ln_client l)"
    "server_at (ln_sent l) outs consumed (ln_server l)"
    using assms(2) by (auto simp: link_inv_def)
  have pre: "prefix (consumed @ ln_pipe l) (concat (map wire outs))"
    using i(3) by (simp add: client_at_def)
  note len = list_all2_lengthD [OF i(2)]
  note upd = link_invI [of l' outs consumed]
  from assms(1) show ?thesis
  proof (cases rule: link_step.cases)
    case (ls_send n o1 k src out ok c)
    have pf: "packet_for (k, slice src 0 n) out"
      using ls_send by (auto simp: packet_for_def)
    have "list_all2 packet_for (ln_sent l') (outs @ (if ok then [out] else []))"
      using i(2) pf ls_send by (simp add: list_all2_appendI)
    moreover have "server_at (ln_sent l') (outs @ (if ok then [out] else [])) consumed (ln_server l')"
      using server_at_more [OF i(4) len] i(4) ls_send by simp
    moreover have "client_at (outs @ (if ok then [out] else [])) (consumed @ ln_pipe l') (ln_written l') (ln_client l')"
      using client_at_send [OF i(3)] ls_send by simp
    moreover have "session_inv (ln_server l')" using i(1) ls_send by simp
    ultimately show ?thesis by (metis link_invI)
  next
    case (ls_transmit p ps k)
    with i client_at_transmit [OF i(3), of p ps k] show ?thesis by (intro upd) simp_all
  next
    case (ls_server e s)
    with i session_inv_step server_at_frame [OF reader_view_step] show ?thesis
      by (intro upd) simp_all
  next
    case (ls_server_header mem ec bs h s rest)
    then have p: "prefix (consumed @ bs @ rest) (concat (map wire outs))" using pre by simp
    from i session_inv_step server_at_header [OF i(1,4,2) p] ls_server_header show ?thesis
      by (intro link_invI [of l' outs "consumed @ bs"]) simp_all
  next
    case (ls_server_body mem ec bs h s rest)
    then have p: "prefix (consumed @ bs @ rest) (concat (map wire outs))" using pre by simp
    from i session_inv_step server_at_body [OF i(1,4,2) p] ls_server_body show ?thesis
      by (intro link_invI [of l' outs "consumed @ bs"]) simp_all
  next
    case ls_connected
    with i client_at_connected [OF i(3)] show ?thesis by (intro upd) simp_all
  next
    case ls_close
    with i client_at_closing(1) [OF i(3)] show ?thesis by (intro upd) simp_all
  next
    case (ls_task t ts)
    with i client_at_task [OF i(3)] show ?thesis by (intro upd) simp_all
  next
    case (ls_client_header rs bs ec mem)
    with i client_at_closing(2) [OF i(3)] show ?thesis by (intro upd) simp_all
  next
    case (ls_client_body n rs bs ec mem)
    with i client_at_closing(3) [OF i(3)] show ?thesis by (intro upd) simp_all
  next
    case (ls_write p ps ec)
    with i client_at_write [OF i(3)] show ?thesis by (intro upd) simp_all
  qed
qed

lemma link_reachable_inv: "link_reachable l \<Longrightarrow> link_inv l"
  by (induction rule: link_reachable.induct) (auto intro: link_inv_start link_inv_step)

section \<open>End to end\<close>

text \<open>The client has nothing left to write and the server, between two packets, has read the
  stream empty.\<close>

definition drained :: "link \<Rightarrow> bool" where
  "drained l \<longleftrightarrow> c_connected (ln_client l) \<and> c_strand (ln_client l) = [] \<and>
     c_outbound_q (ln_client l) = [] \<and> ln_pipe l = [] \<and> reads (ln_server l) = [Read_header]"

lemma drained_all_routed:
  assumes "link_inv l" "drained l"
  shows "map content (routed (trace (ln_server l))) = ln_sent l"
proof -
  obtain outs consumed where i: "list_all2 packet_for (ln_sent l) outs"
    "client_at outs (consumed @ ln_pipe l) (ln_written l) (ln_client l)"
    "server_at (ln_sent l) outs consumed (ln_server l)"
    using assms(1) by (auto simp: link_inv_def)
  obtain r where r: "map content (routed (trace (ln_server l))) = take r (ln_sent l)"
    "reads (ln_server l) = [Read_header] \<longrightarrow> consumed = concat (map wire (take r outs))"
    using server_at_routed [OF i(3)] by blast
  have "consumed = concat (map wire outs)"
    using i(2) assms(2) by (auto simp: client_at_def given_def drained_def)
  moreover have "outs = take r outs @ drop r outs" by simp
  ultimately have "concat (map wire (drop r outs)) = []"
    using r(2) assms(2) unfolding drained_def by (metis append_self_conv concat_append map_append)
  then have "drop r outs = []"
    using packets_nonempty [OF i(1)] in_set_dropD [of _ r outs] by (cases "drop r outs") auto
  then show ?thesis using r(1) list_all2_lengthD [OF i(1)] by simp
qed

lemma routed_prefix:
  assumes "link_inv l"
  shows "prefix (map content (routed (trace (ln_server l)))) (ln_sent l)"
proof -
  obtain outs consumed where "server_at (ln_sent l) outs consumed (ln_server l)"
    using assms by (auto simp: link_inv_def)
  from server_at_routed [OF this] show ?thesis by (auto simp: take_is_prefix)
qed

text \<open>C1. End to end: in every reachable state of a client's and a server's connection joined by
  a byte stream, the packets the server has routed are, in order and with their ids and bodies,
  the first of those whose sending the client accepted; and while the client is connected they
  are all of them once the client has nothing left to write and the server, between two
  packets, has read the stream empty.\<close>

theorem link_in_order:
  assumes "link_reachable l"
  shows "prefix (map content (routed (trace (ln_server l)))) (ln_sent l) \<and>
    (drained l \<longrightarrow> map content (routed (trace (ln_server l))) = ln_sent l)"
  using link_reachable_inv [OF assms] routed_prefix drained_all_routed by blast

end
