(* ===== verification/LinkProgress.thy ===== *)
theory LinkProgress
  imports Link
begin

text \<open>
  From every state of two joined open connections there is a run that writes, carries and reads
  all that was accepted for sending: the client's strand, then its queue, then the stream are
  emptied. The last section has a concrete packet, on which the theorems of \<open>Link\<close> and of this
  theory are applied.
\<close>

section \<open>Nothing sent is stuck\<close>

lemma flush_strand:
  "\<exists>c. link_step\<^sup>*\<^sup>* l (l\<lparr>ln_client := c\<rparr>) \<and> c_strand c = [] \<and> c_connected c = c_connected (ln_client l)"
proof (induction "c_strand (ln_client l)" arbitrary: l)
  case Nil
  then show ?case by (intro exI [of _ "ln_client l"]) simp
next
  case (Cons t ts)
  let ?c = "fst (c_run_task t ((ln_client l)\<lparr>c_strand := ts\<rparr>))"
  have c: "c_strand ?c = ts" "c_connected ?c = c_connected (ln_client l)"
    by (cases t; auto simp: c_close_task_def c_send_task_def c_async_write_front_def Let_def
        split: list.split)+
  have "link_step l (l\<lparr>ln_client := ?c\<rparr>)"
    using Cons(2) by (intro ls_task) simp
  with Cons(1) [of "l\<lparr>ln_client := ?c\<rparr>"] c show ?case
    by (auto intro: converse_rtranclp_into_rtranclp)
qed

lemma flush_queue:
  assumes "link_inv l" "c_connected (ln_client l)" "c_strand (ln_client l) = []"
  shows "\<exists>l'. link_step\<^sup>*\<^sup>* l l' \<and> c_connected (ln_client l') \<and> c_strand (ln_client l') = [] \<and>
    c_outbound_q (ln_client l') = [] \<and> ln_server l' = ln_server l \<and> ln_sent l' = ln_sent l"
  using assms
proof (induction "c_outbound_q (ln_client l)" arbitrary: l)
  case Nil
  then show ?case by (intro exI [of _ l]) simp
next
  case (Cons p ps)
  let ?k = "length (wire p) - ln_written l"
  let ?l1 = "l\<lparr>ln_pipe := ln_pipe l @ take ?k (drop (ln_written l) (wire p)), ln_written := ln_written l + ?k\<rparr>"
  let ?c = "fst (c_write_done None ((ln_client l)\<lparr>c_writes := []\<rparr>))"
  let ?l2 = "?l1\<lparr>ln_client := ?c, ln_written := 0\<rparr>"
  have w: "c_writes (ln_client l) = [p]" "ln_written l \<le> length (wire p)"
    using Cons(2-4) by (auto simp: link_inv_def client_at_def given_def)
  have 1: "link_step l ?l1" using w by (intro ls_transmit) simp_all
  have "link_step ?l1 (?l1\<lparr>ln_client := fst (c_write_done None ((ln_client ?l1)\<lparr>c_writes := []\<rparr>)),
      ln_written := 0\<rparr>)"
    using w by (intro ls_write [of _ p]) simp_all
  then have 2: "link_step ?l1 ?l2" by simp
  have c: "c_outbound_q ?c = ps" "c_connected ?c" "c_strand ?c = []"
    using Cons(2,4,5) by (auto simp: c_write_done_def c_async_write_front_def Let_def
        split: list.split if_splits dest: sym)
  have "link_inv ?l2" using link_inv_step [OF 2 link_inv_step [OF 1 Cons(3)]] .
  with Cons(1) [of ?l2] c obtain l' where "link_step\<^sup>*\<^sup>* ?l2 l'" "c_connected (ln_client l')"
    "c_strand (ln_client l') = []" "c_outbound_q (ln_client l') = []" "ln_server l' = ln_server l"
    "ln_sent l' = ln_sent l"
    by auto
  with 1 2 show ?case by (meson converse_rtranclp_into_rtranclp)
qed

text \<open>A read of a well-formed packet keeps an open connection open.\<close>

definition open_sane :: "session \<Rightarrow> bool" where
  "open_sane s \<longleftrightarrow> is_connected s \<and> fault s = None"

lemma header_keeps_open:
  assumes "session_inv s" "reads s = [Read_header]" "open_sane s" "length hb = 16"
    and "\<And>p. 0 < unat (in_body_size (decide (fill_header p hb))) \<and> body_in_bounds (decide (fill_header p hb))"
  shows "open_sane (finish_header True None hb (Some True, []) (s\<lparr>reads := []\<rparr>))"
proof -
  have "idle s" using assms(1-3) by (simp add: idle_def open_sane_def)
  moreover obtain p where p: "cur_inbound s = Some p" using idle_cur [OF \<open>idle s\<close>] by blast
  ultimately have "feed (Suc 0) (hb @ []) s = feed 0 [] (s\<lparr>keep_alive_flag := True,
      cur_inbound := Some (decide (fill_header p hb)),
      reads := [Read_body (unat (in_body_size (decide (fill_header p hb))))]\<rparr>)"
    using assms(4,5) by (intro feed_header) auto
  then show ?thesis using assms(2-4) by (simp add: open_sane_def)
qed

lemma body_keeps_open:
  assumes "session_inv s" "reads s = [Read_body n]" "cur_inbound s = Some ib" "open_sane s"
    and "length body = unat (in_body_size ib)"
  shows "open_sane (finish_body True None body (Some True, []) (s\<lparr>reads := []\<rparr>))"
proof -
  let ?s = "s\<lparr>reads := [], cur_inbound := Some (fill_body ib body)\<rparr>"
  have busy: "reader_busy ?s"
    using assms(1,2) by (auto simp: reader_busy_def session_ok_defs)
  obtain q ps where q: "session_alloc_inbound True (?s\<lparr>cur_inbound := None\<rparr>) =
      (Some q, ?s\<lparr>cur_inbound := None, inbound_pool := ps\<rparr>)"
    using session_alloc_inbound_True [of "?s\<lparr>cur_inbound := None\<rparr>"] by auto
  obtain t where t: "read_body True None (length body) ?s = (t, Some (fill_body ib body))" "open_sane t"
    using assms(4,5) q
    by (simp add: read_body_def next_header_def body_decode_id async_read_header_def open_sane_def)
  have "session_inv t"
    using session_inv_read_body [OF busy, of True None "length body"] t(1) by simp
  then have "deliver (Some True, []) (Some (fill_body ib body)) t =
      session_dealloc_inbound (fill_body ib body) (emit (Obs_route (fill_body ib body)) t)"
    by (simp add: deliver_Some Let_def handler_calls_def)
  with t assms(3) show ?thesis
    by (simp add: finish_body_def Let_def open_sane_def session_dealloc_inbound_def)
qed

text \<open>While bytes wait in the stream of a client that has written all its packets, the server's
  read completes.\<close>

lemma server_progress:
  assumes "link_inv l" "c_connected (ln_client l)" "c_strand (ln_client l) = []"
    and "c_outbound_q (ln_client l) = []" "open_sane (ln_server l)" "ln_pipe l \<noteq> []"
  shows "\<exists>s bs rest. link_step l (l\<lparr>ln_server := s, ln_pipe := rest\<rparr>) \<and> open_sane s \<and>
    ln_pipe l = bs @ rest \<and> bs \<noteq> []"
proof -
  obtain outs consumed where i: "session_inv (ln_server l)" "list_all2 packet_for (ln_sent l) outs"
    "client_at outs (consumed @ ln_pipe l) (ln_written l) (ln_client l)"
    "server_at (ln_sent l) outs consumed (ln_server l)"
    using assms(1) by (auto simp: link_inv_def)
  have stream: "consumed @ ln_pipe l = concat (map wire outs)"
    using i(3) assms(2-4) by (auto simp: client_at_def given_def)
  have rd: "reads (ln_server l) \<noteq> []"
    using i(1) assms(5) by (auto simp: session_inv_def reader_ok_def open_sane_def)
  have split: "concat (map wire outs) = concat (map wire (take r outs)) @ wire (outs ! r) @
      concat (map wire (drop (Suc r) outs))" if "r < length outs" for r
    using that by (metis concat.simps(2) concat_append id_take_nth_drop list.simps(9) map_append)
  have sane: "fault (ln_server l) = None" using assms(5) by (simp add: open_sane_def)
  from i(4) rd consider
      (head) r where "r \<le> length outs" "reads (ln_server l) = [Read_header]"
        "consumed = concat (map wire (take r outs))"
    | (body) r n p where "r < length outs" "reads (ln_server l) = [Read_body n]"
        "consumed = concat (map wire (take r outs)) @ take 16 (wire (outs ! r))"
        "cur_inbound (ln_server l) = Some (decide (fill_header p (take 16 (wire (outs ! r)))))"
    unfolding server_at_def by blast
  then show ?thesis
  proof cases
    case head
    have r: "r < length outs"
      using head stream assms(6) by (cases "r < length outs") auto
    have pf: "packet_for (ln_sent l ! r) (outs ! r)"
      using i(2) r by (simp add: list_all2_conv_all_nth)
    note w = packet_for_wire [OF pf]
    define hb where "hb = take 16 (wire (outs ! r))"
    let ?rest = "snd (ln_sent l ! r) @ concat (map wire (drop (Suc r) outs))"
    have pipe: "ln_pipe l = hb @ ?rest"
      using stream head(3) split [OF r] w(1) unfolding hb_def by (metis append_assoc same_append_eq)
    have len: "length hb = 16" using w(2) by (simp add: hb_def)
    let ?s = "finish_header True None hb (Some True, []) ((ln_server l)\<lparr>reads := []\<rparr>)"
    have "sess_step (ln_server l) (Ev_header True None hb (Some True, [])) ?s"
      using sane head(2) len by (intro step_header) simp_all
    then have "link_step l (l\<lparr>ln_server := ?s, ln_pipe := ?rest\<rparr>)"
      using pipe by (intro ls_server_header)
    moreover have "0 < unat (in_body_size (decide (fill_header p hb))) \<and>
        body_in_bounds (decide (fill_header p hb))" for p
      using w(3,4) pf by (auto simp: hb_def body_in_bounds_def packet_for_def)
    then have "open_sane ?s" using header_keeps_open [OF i(1) head(2) assms(5) len] by blast
    ultimately show ?thesis using pipe len by (metis length_0_conv zero_neq_numeral)
  next
    case body
    have pf: "packet_for (ln_sent l ! r) (outs ! r)"
      using i(2) body(1) by (simp add: list_all2_conv_all_nth)
    note w = packet_for_wire [OF pf]
    define bs where "bs = snd (ln_sent l ! r)"
    let ?rest = "concat (map wire (drop (Suc r) outs))"
    have pipe: "ln_pipe l = bs @ ?rest"
      using stream body(3) split [OF body(1)] w(1) unfolding bs_def
      by (metis append_assoc same_append_eq)
    have len: "length bs = unat (in_body_size (decide (fill_header p (take 16 (wire (outs ! r))))))"
      using w(4) by (simp add: bs_def)
    then have n: "length bs = n"
      using i(1) body(2,4) by (auto simp: session_inv_def reader_ok_def)
    let ?s = "finish_body True None bs (Some True, []) ((ln_server l)\<lparr>reads := []\<rparr>)"
    have "sess_step (ln_server l) (Ev_body True None bs (Some True, [])) ?s"
      using sane body(2) n by (intro step_body) simp_all
    then have "link_step l (l\<lparr>ln_server := ?s, ln_pipe := ?rest\<rparr>)"
      using pipe by (intro ls_server_body)
    moreover have "open_sane ?s" using body_keeps_open [OF i(1) body(2,4) assms(5) len] .
    ultimately show ?thesis using pipe w(3) bs_def by blast
  qed
qed

lemma flush_stream:
  assumes "link_inv l" "c_connected (ln_client l)" "c_strand (ln_client l) = []"
    and "c_outbound_q (ln_client l) = []" "open_sane (ln_server l)"
  shows "\<exists>l'. link_step\<^sup>*\<^sup>* l l' \<and> ln_client l' = ln_client l \<and> ln_sent l' = ln_sent l \<and>
    open_sane (ln_server l') \<and> ln_pipe l' = []"
  using assms
proof (induction "length (ln_pipe l)" arbitrary: l rule: less_induct)
  case less
  show ?case
  proof (cases "ln_pipe l = []")
    case True
    with less.prems show ?thesis by (intro exI [of _ l]) simp
  next
    case False
    obtain s bs rest where s: "link_step l (l\<lparr>ln_server := s, ln_pipe := rest\<rparr>)" "open_sane s"
      "ln_pipe l = bs @ rest" "bs \<noteq> []"
      using server_progress [OF less.prems False] by blast
    let ?l = "l\<lparr>ln_server := s, ln_pipe := rest\<rparr>"
    have "link_inv ?l" using link_inv_step [OF s(1) less.prems(1)] .
    with less.hyps [of ?l] less.prems s obtain l' where "link_step\<^sup>*\<^sup>* ?l l'" "ln_client l' = ln_client l"
      "ln_sent l' = ln_sent l" "open_sane (ln_server l')" "ln_pipe l' = []"
      by auto
    with s(1) show ?thesis by (meson converse_rtranclp_into_rtranclp)
  qed
qed

text \<open>An open connection that has read the whole stream is between two packets.\<close>

lemma emptied_between_packets:
  assumes "link_inv l" "c_connected (ln_client l)" "c_strand (ln_client l) = []"
    and "c_outbound_q (ln_client l) = []" "open_sane (ln_server l)" "ln_pipe l = []"
  shows "reads (ln_server l) = [Read_header]"
proof -
  obtain outs consumed where i: "session_inv (ln_server l)" "list_all2 packet_for (ln_sent l) outs"
    "client_at outs (consumed @ ln_pipe l) (ln_written l) (ln_client l)"
    "server_at (ln_sent l) outs consumed (ln_server l)"
    using assms(1) by (auto simp: link_inv_def)
  have stream: "consumed = concat (map wire outs)"
    using i(3) assms(2-4,6) by (auto simp: client_at_def given_def)
  have rd: "reads (ln_server l) \<noteq> []"
    using i(1) assms(5) by (auto simp: session_inv_def reader_ok_def open_sane_def)
  have "\<not> (r < length outs \<and> consumed = concat (map wire (take r outs)) @ take 16 (wire (outs ! r)))" for r
  proof (intro notI)
    assume r: "r < length outs \<and> consumed = concat (map wire (take r outs)) @ take 16 (wire (outs ! r))"
    then have pf: "packet_for (ln_sent l ! r) (outs ! r)"
      using i(2) by (simp add: list_all2_conv_all_nth)
    have "outs = take r outs @ outs ! r # drop (Suc r) outs" using r by (simp add: id_take_nth_drop)
    then have "concat (map wire outs) = concat (map wire (take r outs)) @ wire (outs ! r) @
        concat (map wire (drop (Suc r) outs))"
      by (metis concat.simps(2) concat_append list.simps(9) map_append)
    with r stream have "take 16 (wire (outs ! r)) = wire (outs ! r) @ concat (map wire (drop (Suc r) outs))"
      by simp
    then have "length (take 16 (wire (outs ! r))) =
        length (wire (outs ! r)) + length (concat (map wire (drop (Suc r) outs)))"
      by (metis length_append)
    then have "length (wire (outs ! r)) \<le> 16" by simp
    moreover have "length (wire (outs ! r)) = 16 + length (snd (ln_sent l ! r))"
      using arg_cong [OF packet_for_wire(1) [OF pf], of length] packet_for_wire(2) [OF pf] by simp
    then have "16 < length (wire (outs ! r))" using packet_for_wire(3) [OF pf] by simp
    ultimately show False by simp
  qed
  with i(4) rd show ?thesis unfolding server_at_def by blast
qed

lemma link_inv_run: "link_step\<^sup>*\<^sup>* l l' \<Longrightarrow> link_inv l \<Longrightarrow> link_inv l'"
  by (induction rule: rtranclp_induct) (auto intro: link_inv_step)

lemma link_drains:
  assumes "link_inv l" "c_connected (ln_client l)" "open_sane (ln_server l)"
  shows "\<exists>l'. link_step\<^sup>*\<^sup>* l l' \<and> drained l' \<and> open_sane (ln_server l') \<and> ln_sent l' = ln_sent l"
proof -
  obtain c where 1: "link_step\<^sup>*\<^sup>* l (l\<lparr>ln_client := c\<rparr>)" "c_strand c = []" "c_connected c"
    using flush_strand [of l] assms(2) by auto
  let ?l1 = "l\<lparr>ln_client := c\<rparr>"
  obtain l2 where 2: "link_step\<^sup>*\<^sup>* ?l1 l2" "c_connected (ln_client l2)" "c_strand (ln_client l2) = []"
    "c_outbound_q (ln_client l2) = []" "ln_server l2 = ln_server l" "ln_sent l2 = ln_sent l"
    using flush_queue [of ?l1] link_inv_run [OF 1(1) assms(1)] 1 by auto
  have i2: "link_inv l2" using link_inv_run [OF 2(1) link_inv_run [OF 1(1) assms(1)]] .
  obtain l3 where 3: "link_step\<^sup>*\<^sup>* l2 l3" "ln_client l3 = ln_client l2" "ln_sent l3 = ln_sent l2"
    "open_sane (ln_server l3)" "ln_pipe l3 = []"
    using flush_stream [OF i2 2(2-4)] 2(5) assms(3) by auto
  have "reads (ln_server l3) = [Read_header]"
    using emptied_between_packets [OF link_inv_run [OF 3(1) i2]] 2 3 by simp
  with 1(1) 2 3 have "link_step\<^sup>*\<^sup>* l l3" "drained l3" by (auto simp: drained_def)
  with 2 3 show ?thesis by auto
qed

text \<open>C2. Delivery: from every reachable state in which both connections are open, joined by a
  byte stream that keeps delivering, nothing that was accepted for sending is stuck: there is a
  run, without further sends, at whose end the server has routed every accepted packet, in
  order, and is open.\<close>

theorem link_delivers:
  assumes "link_reachable l" and "c_connected (ln_client l)"
    and "is_connected (ln_server l)" and "fault (ln_server l) = None"
  shows "\<exists>l'. link_step\<^sup>*\<^sup>* l l' \<and> ln_sent l' = ln_sent l \<and>
    map content (routed (trace (ln_server l'))) = ln_sent l \<and>
    is_connected (ln_server l') \<and> fault (ln_server l') = None"
proof -
  have i: "link_inv l" by (rule link_reachable_inv [OF assms(1)])
  have "open_sane (ln_server l)" using assms(3,4) by (simp add: open_sane_def)
  from link_drains [OF i assms(2) this] obtain l' where l': "link_step\<^sup>*\<^sup>* l l'" "drained l'"
    "open_sane (ln_server l')" "ln_sent l' = ln_sent l"
    by blast
  with drained_all_routed [OF link_inv_run [OF l'(1) i] l'(2)] show ?thesis
    by (auto simp: open_sane_def)
qed

section \<open>A packet sent\<close>

definition demo_body :: buffer where
  "demo_body = (\<lambda>i. word_of_nat i)"

definition demo_connected :: link where
  "demo_connected = (link_start True (\<lambda>_. True) True (\<lambda>_. (True, True)) ''10.0.0.1'' 4000)
     \<lparr>ln_client := fst (c_connect_finish (ln_client
        (link_start True (\<lambda>_. True) True (\<lambda>_. (True, True)) ''10.0.0.1'' 4000)))\<rparr>"

lemma demo_start_client:
  "c_connect_half (ln_client (link_start True mems mem mems' ip port)) \<or> ip = [] \<or> port = 0"
  by (auto simp: link_start_def c_connect_def c_on_connect_def c_async_read_header_def Let_def
      bound_csession_def bind_owner_def csession_new_def c_alloc_inbound_def split: list.split)

lemma demo_connected: "link_reachable demo_connected" "c_connected (ln_client demo_connected)"
  "ln_server demo_connected = demo_session" "ln_sent demo_connected = []"
proof -
  have "c_connect_half (ln_client (link_start True (\<lambda>_. True) True (\<lambda>_. (True, True)) ''10.0.0.1'' 4000))"
    using demo_start_client [of "\<lambda>_. True" True "\<lambda>_. (True, True)" "''10.0.0.1''" 4000] by simp
  from ls_connected [OF this] show "link_reachable demo_connected"
    unfolding demo_connected_def by (rule lr_step [OF lr_start])
  show "c_connected (ln_client demo_connected)" "ln_server demo_connected = demo_session"
    "ln_sent demo_connected = []"
    by (simp_all add: demo_connected_def c_connect_finish_def link_start_def demo_session_def)
qed

text \<open>The client sends a packet of eight bytes.\<close>

definition demo_link :: link where
  "demo_link = demo_connected
     \<lparr>ln_client := snd (c_on_send False (encode outbound_new 1000 (Some demo_body) 8) (ln_client demo_connected)),
      ln_sent := [(1000, [0, 1, 2, 3, 4, 5, 6, 7])]\<rparr>"

lemma demo_link: "link_reachable demo_link" "c_connected (ln_client demo_link)"
  "ln_server demo_link = demo_session" "ln_sent demo_link = [(1000, [0, 1, 2, 3, 4, 5, 6, 7])]"
proof -
  obtain out where out: "encode outbound_new 1000 (Some demo_body) 8 = Some out"
    by (simp add: encode_Some Let_def)
  have s: "slice demo_body 0 8 = [0, 1, 2, 3, 4, 5, 6, 7]"
    by (simp add: slice_def demo_body_def numeral_eq_Suc)
  have "c_on_send False (Some out) (ln_client demo_connected) =
      (True, snd (c_on_send False (Some out) (ln_client demo_connected)))"
    using demo_connected(2) by (simp add: c_on_send_def)
  from ls_send [OF _ _ out this] have "link_step demo_connected demo_link"
    by (simp add: demo_link_def out s demo_connected(4))
  then show "link_reachable demo_link" by (rule lr_step [OF demo_connected(1)])
  show "c_connected (ln_client demo_link)" "ln_server demo_link = demo_session"
    "ln_sent demo_link = [(1000, [0, 1, 2, 3, 4, 5, 6, 7])]"
    using demo_connected(2,3) by (simp_all add: demo_link_def c_on_send_def out)
qed

theorem link_delivers_witness:
  "\<exists>l. link_step\<^sup>*\<^sup>* demo_link l \<and>
     map content (routed (trace (ln_server l))) = [(1000, [0, 1, 2, 3, 4, 5, 6, 7])]"
  using link_delivers [OF demo_link(1,2)] by (auto simp: demo_link(3,4) demo_session_fields)

theorem link_in_order_witness:
  "\<exists>l. link_step\<^sup>*\<^sup>* demo_link l \<and> drained l \<and>
     map content (routed (trace (ln_server l))) = [(1000, [0, 1, 2, 3, 4, 5, 6, 7])]"
proof -
  obtain l where l: "link_step\<^sup>*\<^sup>* demo_link l" "drained l" "ln_sent l = ln_sent demo_link"
    using link_drains [OF link_reachable_inv [OF demo_link(1)] demo_link(2)]
    by (auto simp: demo_link(3) open_sane_def demo_session_fields)
  have "link_reachable l"
    using l(1) demo_link(1) by (induction rule: rtranclp_induct) (auto intro: lr_step)
  from link_in_order [OF this] l show ?thesis by (auto simp: demo_link(4))
qed

end
