(* ===== verification/StreamSession.thy ===== *)
theory StreamSession
  imports SessionStep
begin

text \<open>
  The connections over other streams than a plain socket: what \<open>ssl_session\<close>, \<open>ws_session\<close> and
  \<open>wss_session\<close> share, and \<open>ssl_session\<close> (\<^verbatim>\<open>source/impl/network/server/ssl_session.ipp\<close>). All three
  inherit \<open>primitive_session\<close> and repeat the text of \<open>tcp_session\<close> for the two queues, so their
  state contains one of \<open>ServerSession\<close>, whose operations they use; reads and handshakes in flight
  are in \<open>k_ops\<close>.

  The three classes call members that no file of the repository declares. These are parameters:
  \<open>is_enc\<close>, the packet's \<open>is_encode\<close>; the handler's three route functions, chosen by the packet's
  \<open>encode_type\<close>, are one function \<open>on_route\<close>. A TLS stream delivers what a socket delivers; its
  handshake and its shutdown are operations of their own.
\<close>

section \<open>State\<close>

datatype stream_op =
    Tls_handshake
  | Tls_shutdown
  | Op_header
  | Op_body nat
  | Request_read
  | Response_write outbound "u8 list"
  | Frame_head
  | Frame_length nat u8
  | Frame_payload nat u8

record conn =
  k_base :: session
  k_ops :: "stream_op list"
  k_stream :: "u8 list"
  k_undefined :: bool

definition conn_new :: "(nat \<Rightarrow> bool \<times> bool) \<Rightarrow> conn" where
  "conn_new mems = \<lparr>k_base = session_new mems, k_ops = [], k_stream = [], k_undefined = False\<rparr>"

definition on_base :: "(session \<Rightarrow> session) \<Rightarrow> conn \<Rightarrow> conn" where
  "on_base f k = k\<lparr>k_base := f (k_base k)\<rparr>"

definition begin_op :: "stream_op \<Rightarrow> conn \<Rightarrow> conn" where
  "begin_op x k = k\<lparr>k_ops := k_ops k @ [x]\<rparr>"

abbreviation set_connected :: "conn \<Rightarrow> conn" where
  "set_connected k \<equiv> on_base (\<lambda>s. s\<lparr>is_connected := True\<rparr>) k"

definition session_dealloc_outbound :: "outbound \<Rightarrow> session \<Rightarrow> session" where
  "session_dealloc_outbound p s = s\<lparr>outbound_pool := dealloc_outbound p (outbound_pool s)\<rparr>"

definition stream_alloc_outbound :: "bool \<Rightarrow> conn \<Rightarrow> outbound option \<times> conn" where
  "stream_alloc_outbound mem k =
     (let (p, s) = session_alloc_outbound mem (k_base k) in (p, k\<lparr>k_base := s\<rparr>))"

definition stream_alloc_inbound :: "bool \<Rightarrow> conn \<Rightarrow> inbound option \<times> conn" where
  "stream_alloc_inbound mem k =
     (let (p, s) = session_alloc_inbound mem (k_base k) in (p, k\<lparr>k_base := s\<rparr>))"

section \<open>Closing\<close>

text \<open>The flag is tested and cleared, the rest is dispatched: over a plain socket it is the
  \<open>close_task\<close> of \<open>tcp_session\<close>; over TLS the socket's operations are cancelled and the shutdown
  of the stream is begun, whose completion closes the socket and posts the leave.\<close>

definition tls_close_task :: "conn \<Rightarrow> conn" where
  "tls_close_task k = begin_op Tls_shutdown k"

definition tls_shutdown_done :: "conn \<Rightarrow> conn" where
  "tls_shutdown_done k = on_base (\<lambda>s. s\<lparr>sock_open := False, strand := strand s @ [Task_user_leave]\<rparr>) k"

definition close_with :: "(conn \<Rightarrow> conn) \<Rightarrow> bool \<Rightarrow> conn \<Rightarrow> conn" where
  "close_with task in_strand k =
     (if \<not> is_connected (k_base k) then k
      else let k1 = on_base (\<lambda>s. s\<lparr>is_connected := False\<rparr>) k
           in if in_strand then task k1
              else on_base (\<lambda>s. s\<lparr>strand := strand s @ [Task_close]\<rparr>) k1)"

definition ssl_on_close :: "bool \<Rightarrow> conn \<Rightarrow> conn" where
  "ssl_on_close in_strand k = close_with tls_close_task in_strand k"

section \<open>The queues\<close>

text \<open>The functions take the class's \<open>on_close\<close>.\<close>

type_synonym closer = "bool \<Rightarrow> conn \<Rightarrow> conn"

fun stream_route_poll ::
  "closer \<Rightarrow> nat \<Rightarrow> (conn \<Rightarrow> inbound \<Rightarrow> bool option \<times> conn) \<Rightarrow> conn \<Rightarrow> conn" where
  "stream_route_poll close 0 on_route k = k"
| "stream_route_poll close (Suc n) on_route k =
     (case inbound_q (k_base k) of
        [] \<Rightarrow> k
      | p # ps \<Rightarrow>
          let k1 = on_base (\<lambda>s. emit (Obs_route p) (s\<lparr>inbound_q := ps\<rparr>)) k
          in case on_route k1 p of
               (None, k2) \<Rightarrow> on_base (raise_fault Terminate) k2
             | (Some ok, k2) \<Rightarrow>
                 let k3 = (if \<not> ok then close True k2 else k2);
                     k4 = on_base (session_dealloc_inbound p) k3
                 in if inbound_q (k_base k4) = [] then k4
                    else stream_route_poll close n on_route k4)"

definition stream_route ::
  "closer \<Rightarrow> (conn \<Rightarrow> inbound \<Rightarrow> bool option \<times> conn) \<Rightarrow> inbound option \<Rightarrow> conn \<Rightarrow> conn" where
  "stream_route close on_route p k =
     (case p of
        None \<Rightarrow> close True k
      | Some q \<Rightarrow>
          let k1 = on_base (\<lambda>s. s\<lparr>inbound_q := inbound_q s @ [q]\<rparr>) k
          in if 1 < length (inbound_q (k_base k1)) then k1
             else stream_route_poll close (length (inbound_q (k_base k1))) on_route k1)"

definition stream_write :: "closer \<Rightarrow> error_code option \<Rightarrow> conn \<Rightarrow> conn" where
  "stream_write close ec k =
     (let k1 = (if ec \<noteq> None then close True k else k)
      in case outbound_q (k_base k1) of
           [] \<Rightarrow> close True k1
         | pk # q \<Rightarrow>
             let k2 = on_base (\<lambda>s. s\<lparr>outbound_q := q\<rparr>) k1;
                 k3 = (if ec = None \<and> q \<noteq> [] \<and> is_connected (k_base k2)
                       then on_base async_write_front k2 else k2)
             in on_base (session_dealloc_outbound pk) k3)"

definition stream_on_send ::
  "(outbound \<Rightarrow> bool) \<Rightarrow> bool \<Rightarrow> outbound option \<Rightarrow> conn \<Rightarrow> bool \<times> conn" where
  "stream_on_send is_enc in_strand out k =
     (case out of
        None \<Rightarrow> (False, k)
      | Some p \<Rightarrow>
          if \<not> is_enc p then (False, k)
          else if \<not> is_connected (k_base k) then (False, k)
          else if in_strand then (True, on_base (send_task p) k)
          else (True, on_base (\<lambda>s. s\<lparr>strand := strand s @ [Task_send p]\<rparr>) k))"

text \<open>\<open>interface_session\<close>'s \<open>send\<close> over the class's \<open>on_send\<close>.\<close>

definition stream_send ::
  "(outbound \<Rightarrow> bool) \<Rightarrow> bool \<Rightarrow> bool \<Rightarrow> u16 \<Rightarrow> buffer option \<Rightarrow> nat \<Rightarrow> conn \<Rightarrow> bool \<times> conn" where
  "stream_send is_enc in_strand mem packet_id body n k =
     (if \<not> is_connected (k_base k) then (False, k)
      else case stream_alloc_outbound mem k of
        (None, k1) \<Rightarrow> (False, k1)
      | (Some out, k1) \<Rightarrow>
          (case encode out packet_id body n of
             None \<Rightarrow> (False, on_base (raise_fault Out_of_bounds) k1)
           | Some out1 \<Rightarrow> stream_on_send is_enc in_strand (Some out1) k1))"

section \<open>ssl_session\<close>

definition ssl_start :: "string \<Rightarrow> u16 \<Rightarrow> conn \<Rightarrow> conn" where
  "ssl_start ip port k =
     begin_op Tls_handshake (on_base (\<lambda>s. s\<lparr>socket_ip := ip, socket_port := port\<rparr>) k)"

text \<open>A failed handshake marks the connection as connected only to close it.\<close>

definition ssl_handshake :: "bool \<Rightarrow> error_code option \<Rightarrow> conn \<Rightarrow> conn" where
  "ssl_handshake mem ec k =
     (let k1 = set_connected k
      in if ec \<noteq> None then ssl_on_close True k1
         else case stream_alloc_inbound mem k1 of
           (None, k2) \<Rightarrow> ssl_on_close True k2
         | (Some p, k2) \<Rightarrow>
             let k3 = begin_op Op_header (on_base (\<lambda>s. s\<lparr>cur_inbound := Some p\<rparr>) k2)
             in on_base (\<lambda>s. s\<lparr>strand := strand s @ [Task_user_enter]\<rparr>) k3)"

text \<open>The end of both reads: the packet is taken out and routed when the function returns.\<close>

definition ssl_next_header :: "bool \<Rightarrow> inbound \<Rightarrow> conn \<Rightarrow> conn \<times> inbound option" where
  "ssl_next_header mem done k =
     (case stream_alloc_inbound mem (on_base (\<lambda>s. s\<lparr>cur_inbound := None\<rparr>) k) of
        (None, k1) \<Rightarrow> (ssl_on_close True k1, Some done)
      | (Some q, k1) \<Rightarrow>
          let k2 = on_base (\<lambda>s. s\<lparr>cur_inbound := Some q\<rparr>) k1
          in if \<not> is_connected (k_base k2) then (k2, Some done)
             else (begin_op Op_header k2, Some done))"

definition begin_body :: "nat \<Rightarrow> conn \<Rightarrow> conn" where
  "begin_body n k =
     (let k1 = begin_op (Op_body n) k
      in if raw_size_c < n then on_base (raise_fault Out_of_bounds) k1 else k1)"

definition ssl_read_header :: "bool \<Rightarrow> error_code option \<Rightarrow> nat \<Rightarrow> conn \<Rightarrow> conn \<times> inbound option" where
  "ssl_read_header mem ec bytes_transferred k =
     (case cur_inbound (k_base k) of
        None \<Rightarrow> (ssl_on_close True k, None)
      | Some p \<Rightarrow>
          if ec \<noteq> None then (ssl_on_close True k, None)
          else if bytes_transferred = 0 then
            (if \<not> is_connected (k_base k) then (k, None)
             else (begin_op Op_header (on_base (\<lambda>s. s\<lparr>cur_inbound := Some (inbound_init p)\<rparr>) k), None))
          else if header_size_c \<noteq> bytes_transferred then (ssl_on_close True k, None)
          else
            let p1 = decide p;
                k1 = on_base (\<lambda>s. (set_keep_alive_flag s)\<lparr>cur_inbound := Some p1\<rparr>) k
            in if 0 < unat (in_body_size p1) then
                 (if \<not> is_connected (k_base k1) then (k1, None)
                  else (begin_body (unat (in_body_size p1)) k1, None))
               else ssl_next_header mem p1 k1)"

definition ssl_read_body :: "bool \<Rightarrow> error_code option \<Rightarrow> nat \<Rightarrow> conn \<Rightarrow> conn \<times> inbound option" where
  "ssl_read_body mem ec bytes_transferred k =
     (case cur_inbound (k_base k) of
        None \<Rightarrow> (ssl_on_close True k, None)
      | Some p \<Rightarrow>
          if ec \<noteq> None then (ssl_on_close True k, None)
          else if bytes_transferred \<noteq> unat (in_body_size p) then (ssl_on_close True k, None)
          else ssl_next_header mem p k)"

end
