(* ===== verification/WebSocket.thy ===== *)
theory WebSocket
  imports StreamSession
begin

unbundle bit_operations_syntax

text \<open>
  The WebSocket connections \<open>ws_session\<close> and \<open>wss_session\<close>
  (\<^verbatim>\<open>source/impl/network/server/{ws_session,wss_session}.ipp\<close>): the HTTP upgrade, the framing of
  RFC 6455 over the received bytes, and the packet taken out of a frame. \<open>k_stream\<close> is
  \<open>_inbound_ws_stream\<close>. The two classes have the same text but for the stream and for \<open>on_close\<close>,
  so a function takes the class's \<open>on_close\<close>, and the ones of \<open>wss_session\<close> are instances.

  Parameters stand for the classes the repository does not have: \<open>parse\<close> and \<open>generate\<close> for
  \<open>websocket::server::parse_handshake\<close> and \<open>generate_handshake\<close> over its header type \<open>'h\<close>,
  \<open>ws_enc\<close> for the packet's \<open>ws_encode\<close>.
\<close>

section \<open>The handshake\<close>

definition ws_on_close :: closer where
  "ws_on_close in_strand k = close_with (on_base close_task) in_strand k"

definition wss_on_close :: closer where
  "wss_on_close in_strand k = close_with tls_close_task in_strand k"

text \<open>\<open>set_connected\<close> and \<open>on_close\<close>: the way a failed handshake is ended.\<close>

definition refuse :: "closer \<Rightarrow> conn \<Rightarrow> conn" where
  "refuse close k = close True (set_connected k)"

definition request_read :: "conn \<Rightarrow> conn" where
  "request_read k = begin_op Request_read (k\<lparr>k_stream := []\<rparr>)"

definition ws_start :: "string \<Rightarrow> u16 \<Rightarrow> conn \<Rightarrow> conn" where
  "ws_start ip port k = request_read (on_base (\<lambda>s. s\<lparr>socket_ip := ip, socket_port := port\<rparr>) k)"

definition wss_start :: "string \<Rightarrow> u16 \<Rightarrow> conn \<Rightarrow> conn" where
  "wss_start ip port k =
     begin_op Tls_handshake (on_base (\<lambda>s. s\<lparr>socket_ip := ip, socket_port := port\<rparr>) k)"

definition wss_handshake :: "error_code option \<Rightarrow> conn \<Rightarrow> conn" where
  "wss_handshake ec k = (if ec \<noteq> None then refuse wss_on_close k else request_read k)"

text \<open>The lines of the request, as \<open>std::getline\<close> splits them.\<close>

fun getlines :: "u8 list \<Rightarrow> u8 list list" where
  "getlines [] = []"
| "getlines (b # bs) =
     (if b = 10 then [] # getlines bs
      else case getlines bs of
             [] \<Rightarrow> [[b]]
           | l # ls \<Rightarrow> (b # l) # ls)"

text \<open>The request has been read up to its empty line; what came with it is taken as well.\<close>

definition ws_handshake_read ::
  "closer \<Rightarrow> (u8 list list \<Rightarrow> 'h option) \<Rightarrow> ('h \<Rightarrow> u8 list option) \<Rightarrow> bool \<Rightarrow> error_code option \<Rightarrow>
   u8 list \<Rightarrow> conn \<Rightarrow> conn" where
  "ws_handshake_read close parse generate mem ec bs k =
     (let k0 = k\<lparr>k_stream := k_stream k @ bs\<rparr>
      in if ec \<noteq> None then refuse close k0
         else
           let k1 = k0\<lparr>k_stream := []\<rparr>
           in case parse (getlines (k_stream k0)) of
                None \<Rightarrow> refuse close k1
              | Some h \<Rightarrow>
                  (case stream_alloc_outbound mem k1 of
                     (None, k2) \<Rightarrow> refuse close k2
                   | (Some ob, k2) \<Rightarrow>
                       (case generate h of
                          None \<Rightarrow> refuse close k2
                        | Some response \<Rightarrow> begin_op (Response_write ob response) k2)))"

text \<open>Without \<open>set_connected\<close>, the \<open>on_close\<close> of a failed response does nothing.\<close>

definition ws_handshake_write :: "closer \<Rightarrow> outbound \<Rightarrow> error_code option \<Rightarrow> conn \<Rightarrow> conn" where
  "ws_handshake_write close out ec k =
     (let k1 = (if ec \<noteq> None then close True k
                else
                  let k2 = set_connected (begin_op Frame_head (k\<lparr>k_stream := []\<rparr>))
                  in on_base (\<lambda>s. s\<lparr>strand := strand s @ [Task_user_enter]\<rparr>) k2)
      in on_base (session_dealloc_outbound out) k1)"

section \<open>The header of a frame\<close>

text \<open>\<open>length_bytes[i] << (8 * (num_bytes - 1 - i))\<close> shifts an \<open>int\<close> of 32 bits: from 32 on the
  result is not defined (\<open>None\<close>).\<close>

definition shift_int :: "u8 \<Rightarrow> nat \<Rightarrow> nat option" where
  "shift_int b n = (if n < 32 then Some (unat b * 2 ^ n) else None)"

fun frame_length :: "u8 list \<Rightarrow> nat option" where
  "frame_length [] = Some 0"
| "frame_length (b # bs) =
     (case (shift_int b (8 * length bs), frame_length bs) of
        (Some x, Some y) \<Rightarrow> Some (x + y)
      | _ \<Rightarrow> None)"

text \<open>A completed read appends its bytes to the stream.\<close>

definition ws_read_header :: "closer \<Rightarrow> error_code option \<Rightarrow> u8 list \<Rightarrow> conn \<Rightarrow> conn" where
  "ws_read_header close ec bs k =
     (let k0 = k\<lparr>k_stream := k_stream k @ bs\<rparr>
      in if ec \<noteq> None then close True k0
         else if bs = [] then
           (if \<not> is_connected (k_base k0) then k0 else begin_op Frame_head k0)
         else
           let k1 = on_base set_keep_alive_flag k0;
               first = take 2 (k_stream k1 @ [0, 0]);
               k2 = k1\<lparr>k_stream := drop 2 (k_stream k1)\<rparr>;
               fin_rsv_opcode = first ! 0
           in if unat (first ! 1) < 128 then close True k2
              else if \<not> is_connected (k_base k2) then k2
              else
                let n = unat (first ! 1 AND 127)
                in if n = 126 then begin_op (Frame_length 2 fin_rsv_opcode) k2
                   else if n = 127 then begin_op (Frame_length 8 fin_rsv_opcode) k2
                   else begin_op (Frame_payload n fin_rsv_opcode) k2)"

definition ws_read_header_126 :: "closer \<Rightarrow> u8 \<Rightarrow> error_code option \<Rightarrow> u8 list \<Rightarrow> conn \<Rightarrow> conn" where
  "ws_read_header_126 close fin_rsv_opcode ec bs k =
     (let k0 = k\<lparr>k_stream := k_stream k @ bs\<rparr>
      in if ec \<noteq> None then close True k0
         else
           let k1 = k0\<lparr>k_stream := drop 2 (k_stream k0)\<rparr>
           in case frame_length (take 2 (k_stream k0 @ replicate 2 0)) of
                None \<Rightarrow> k1\<lparr>k_undefined := True\<rparr>
              | Some n \<Rightarrow>
                  if \<not> is_connected (k_base k1) then k1
                  else begin_op (Frame_payload n fin_rsv_opcode) k1)"

definition ws_read_header_127 :: "closer \<Rightarrow> u8 \<Rightarrow> error_code option \<Rightarrow> u8 list \<Rightarrow> conn \<Rightarrow> conn" where
  "ws_read_header_127 close fin_rsv_opcode ec bs k =
     (let k0 = k\<lparr>k_stream := k_stream k @ bs\<rparr>
      in if ec \<noteq> None then close True k0
         else
           let k1 = k0\<lparr>k_stream := drop 8 (k_stream k0)\<rparr>
           in case frame_length (take 8 (k_stream k0 @ replicate 8 0)) of
                None \<Rightarrow> k1\<lparr>k_undefined := True\<rparr>
              | Some n \<Rightarrow> begin_op (Frame_payload n fin_rsv_opcode) k1)"

section \<open>The payload\<close>

definition unmask :: "u8 list \<Rightarrow> nat \<Rightarrow> u8 \<Rightarrow> u8" where
  "unmask key i b = b XOR key ! (i mod 4)"

text \<open>The packet in a frame: four bytes of mask, the packet's header, its body.\<close>

definition frame_packet :: "nat \<Rightarrow> u8 list \<Rightarrow> inbound \<Rightarrow> inbound" where
  "frame_packet n stream p =
     (let key = take 4 stream; payload = take n (drop 4 stream);
          p1 = fill_header (inbound_init p)
                 (map (\<lambda>i. unmask key i (payload ! i)) [0..<header_size_c]);
          p2 = decide p1
      in if header_size_c < n
         then fill_body p2 (map (\<lambda>i. unmask key (i + header_size_c) (payload ! (i + header_size_c)))
                [0..<n - header_size_c])
         else p2)"

datatype frame_action = No_action | Pong u8 | Route_frame inbound

definition opcode :: "u8 \<Rightarrow> nat" where
  "opcode fin_rsv_opcode = unat (fin_rsv_opcode AND 15)"

text \<open>\<open>read\<close> up to the end of its scope, with the action it runs there.\<close>

definition ws_read ::
  "closer \<Rightarrow> bool \<Rightarrow> nat \<Rightarrow> u8 \<Rightarrow> error_code option \<Rightarrow> u8 list \<Rightarrow> conn \<Rightarrow> conn \<times> frame_action" where
  "ws_read close mem n fin_rsv_opcode ec bs k =
     (let k0 = k\<lparr>k_stream := k_stream k @ bs\<rparr>
      in if ec = None \<and> n = 2 \<and> length bs = 6 then (close True k0, No_action)
         else if length bs < 4 + header_size_c \<or> length bs \<noteq> 4 + n \<or> packet_size_c < length bs
         then (close True k0, No_action)
         else if ec \<noteq> None then (close True k0, No_action)
         else case stream_alloc_inbound mem k0 of
           (None, k1) \<Rightarrow> (close True k1, No_action)
         | (Some p, k1) \<Rightarrow>
             let inb = frame_packet n (k_stream k1) p;
                 k2 = k1\<lparr>k_stream := drop (4 + n) (k_stream k1)\<rparr>
             in if opcode fin_rsv_opcode = 8 then (close True k2, No_action)
                else
                  let action = (if opcode fin_rsv_opcode = 9 then Pong fin_rsv_opcode else Route_frame inb);
                      k3 = k2\<lparr>k_stream := []\<rparr>
                  in if \<not> is_connected (k_base k3) then (k3, action)
                     else (begin_op Frame_head k3, action))"

definition ws_pong ::
  "(outbound \<Rightarrow> bool) \<Rightarrow> (outbound \<Rightarrow> nat \<Rightarrow> outbound option) \<Rightarrow> bool \<Rightarrow> u8 \<Rightarrow> conn \<Rightarrow> conn" where
  "ws_pong is_enc ws_enc mem fin_rsv_opcode k =
     (case stream_alloc_outbound mem k of
        (None, k1) \<Rightarrow> k1
      | (Some ob, k1) \<Rightarrow>
          (case ws_enc ob (unat fin_rsv_opcode + 1) of
             None \<Rightarrow> k1
           | Some ob1 \<Rightarrow> snd (stream_on_send is_enc True (Some ob1) k1)))"

definition frame_end ::
  "closer \<Rightarrow> (outbound \<Rightarrow> bool) \<Rightarrow> (outbound \<Rightarrow> nat \<Rightarrow> outbound option) \<Rightarrow> bool \<Rightarrow>
   (conn \<Rightarrow> inbound \<Rightarrow> bool option \<times> conn) \<Rightarrow> conn \<times> frame_action \<Rightarrow> conn" where
  "frame_end close is_enc ws_enc mem on_route r =
     (case r of
        (k, No_action) \<Rightarrow> k
      | (k, Pong b) \<Rightarrow> ws_pong is_enc ws_enc mem b k
      | (k, Route_frame p) \<Rightarrow> stream_route close on_route (Some p) k)"

section \<open>The queues of ws_session and wss_session\<close>

definition ws_route ::
  "(conn \<Rightarrow> inbound \<Rightarrow> bool option \<times> conn) \<Rightarrow> inbound option \<Rightarrow> conn \<Rightarrow> conn" where
  "ws_route = stream_route ws_on_close"

definition ws_route_poll ::
  "nat \<Rightarrow> (conn \<Rightarrow> inbound \<Rightarrow> bool option \<times> conn) \<Rightarrow> conn \<Rightarrow> conn" where
  "ws_route_poll = stream_route_poll ws_on_close"

definition ws_write :: "error_code option \<Rightarrow> conn \<Rightarrow> conn" where
  "ws_write = stream_write ws_on_close"

definition ws_on_send :: "(outbound \<Rightarrow> bool) \<Rightarrow> bool \<Rightarrow> outbound option \<Rightarrow> conn \<Rightarrow> bool \<times> conn" where
  "ws_on_send = stream_on_send"

section \<open>The handshake and the frames of wss_session\<close>

definition wss_handshake_read ::
  "(u8 list list \<Rightarrow> 'h option) \<Rightarrow> ('h \<Rightarrow> u8 list option) \<Rightarrow> bool \<Rightarrow> error_code option \<Rightarrow> u8 list \<Rightarrow>
   conn \<Rightarrow> conn" where
  "wss_handshake_read = ws_handshake_read wss_on_close"

definition wss_handshake_write :: "outbound \<Rightarrow> error_code option \<Rightarrow> conn \<Rightarrow> conn" where
  "wss_handshake_write = ws_handshake_write wss_on_close"

definition wss_read_header :: "error_code option \<Rightarrow> u8 list \<Rightarrow> conn \<Rightarrow> conn" where
  "wss_read_header = ws_read_header wss_on_close"

definition wss_read_header_126 :: "u8 \<Rightarrow> error_code option \<Rightarrow> u8 list \<Rightarrow> conn \<Rightarrow> conn" where
  "wss_read_header_126 = ws_read_header_126 wss_on_close"

definition wss_read_header_127 :: "u8 \<Rightarrow> error_code option \<Rightarrow> u8 list \<Rightarrow> conn \<Rightarrow> conn" where
  "wss_read_header_127 = ws_read_header_127 wss_on_close"

definition wss_read ::
  "bool \<Rightarrow> nat \<Rightarrow> u8 \<Rightarrow> error_code option \<Rightarrow> u8 list \<Rightarrow> conn \<Rightarrow> conn \<times> frame_action" where
  "wss_read = ws_read wss_on_close"

definition wss_pong ::
  "(outbound \<Rightarrow> bool) \<Rightarrow> (outbound \<Rightarrow> nat \<Rightarrow> outbound option) \<Rightarrow> bool \<Rightarrow> u8 \<Rightarrow> conn \<Rightarrow> conn" where
  "wss_pong = ws_pong"

definition wss_route ::
  "(conn \<Rightarrow> inbound \<Rightarrow> bool option \<times> conn) \<Rightarrow> inbound option \<Rightarrow> conn \<Rightarrow> conn" where
  "wss_route = stream_route wss_on_close"

definition wss_route_poll ::
  "nat \<Rightarrow> (conn \<Rightarrow> inbound \<Rightarrow> bool option \<times> conn) \<Rightarrow> conn \<Rightarrow> conn" where
  "wss_route_poll = stream_route_poll wss_on_close"

definition wss_write :: "error_code option \<Rightarrow> conn \<Rightarrow> conn" where
  "wss_write = stream_write wss_on_close"

definition wss_on_send :: "(outbound \<Rightarrow> bool) \<Rightarrow> bool \<Rightarrow> outbound option \<Rightarrow> conn \<Rightarrow> bool \<times> conn" where
  "wss_on_send = stream_on_send"

end
