(* ===== verification/StreamStep.thy ===== *)
theory StreamStep
  imports WebSocket SessionProps
begin

text \<open>
  The TLS and WebSocket connections as one family of state machines, by the value their class
  returns from \<open>on_protocol_type\<close>, with the environment's events as for \<open>tcp_session\<close> in
  \<open>SessionStep\<close>; and the invariant of their reachable states.
\<close>

section \<open>Events and steps\<close>

datatype protocol_type = Protocol_none | Protocol_tcp | Protocol_ssl | Protocol_ws | Protocol_wss

fun close_of :: "protocol_type \<Rightarrow> closer" where
  "close_of Protocol_ssl = ssl_on_close"
| "close_of Protocol_wss = wss_on_close"
| "close_of _ = ws_on_close"

fun close_task_of :: "protocol_type \<Rightarrow> conn \<Rightarrow> conn" where
  "close_task_of Protocol_ssl = tls_close_task"
| "close_task_of Protocol_wss = tls_close_task"
| "close_task_of _ = on_base close_task"

lemma close_of_with: "close_of t b k = close_with (close_task_of t) b k"
  by (cases t) (simp_all add: ssl_on_close_def ws_on_close_def wss_on_close_def)

text \<open>What a handler or another thread calls; these classes have no \<open>fast_send\<close>.\<close>

datatype stream_call =
  Sc_send bool u16 "buffer option" nat | Sc_close | Sc_set_keep_alive | Sc_init_keep_alive

fun run_call :: "protocol_type \<Rightarrow> (outbound \<Rightarrow> bool) \<Rightarrow> bool \<Rightarrow> stream_call \<Rightarrow> conn \<Rightarrow> conn" where
  "run_call t is_enc in_strand (Sc_send mem i b n) k = snd (stream_send is_enc in_strand mem i b n k)"
| "run_call t is_enc in_strand Sc_close k = close_of t in_strand k"
| "run_call t is_enc in_strand Sc_set_keep_alive k = on_base set_keep_alive_flag k"
| "run_call t is_enc in_strand Sc_init_keep_alive k = on_base init_keep_alive_flag k"

definition run_calls :: "protocol_type \<Rightarrow> (outbound \<Rightarrow> bool) \<Rightarrow> stream_call list \<Rightarrow> conn \<Rightarrow> conn" where
  "run_calls t is_enc calls k = fold (run_call t is_enc True) calls k"

fun stream_task :: "protocol_type \<Rightarrow> (outbound \<Rightarrow> bool) \<Rightarrow> stream_call list \<Rightarrow> task \<Rightarrow> conn \<Rightarrow> conn" where
  "stream_task t is_enc calls Task_user_enter k = run_calls t is_enc calls (on_base (emit Obs_enter) k)"
| "stream_task t is_enc calls Task_user_leave k = run_calls t is_enc calls (on_base (emit Obs_leave) k)"
| "stream_task t is_enc calls Task_close k = close_task_of t k"
| "stream_task t is_enc calls (Task_send p) k = on_base (send_task p) k"
| "stream_task t is_enc calls (Task_fast_send p) k = k"

definition routing ::
  "protocol_type \<Rightarrow> (outbound \<Rightarrow> bool) \<Rightarrow> bool option \<times> stream_call list \<Rightarrow> conn \<Rightarrow> inbound \<Rightarrow>
   bool option \<times> conn" where
  "routing t is_enc h k p = (fst h, run_calls t is_enc (snd h) k)"

definition ssl_routed ::
  "(outbound \<Rightarrow> bool) \<Rightarrow> bool option \<times> stream_call list \<Rightarrow> conn \<times> inbound option \<Rightarrow> conn" where
  "ssl_routed is_enc h r =
     (case snd r of
        None \<Rightarrow> fst r
      | Some p \<Rightarrow> stream_route ssl_on_close (routing Protocol_ssl is_enc h) (Some p) (fst r))"

definition received :: "(inbound \<Rightarrow> inbound) \<Rightarrow> conn \<Rightarrow> conn" where
  "received f k = on_base (\<lambda>s. s\<lparr>cur_inbound := map_option f (cur_inbound s)\<rparr>) k"

definition is_ws :: "protocol_type \<Rightarrow> bool" where
  "is_ws t \<longleftrightarrow> t = Protocol_ws \<or> t = Protocol_wss"

definition sane :: "conn \<Rightarrow> bool" where
  "sane k \<longleftrightarrow> fault (k_base k) = None \<and> \<not> k_undefined k"

inductive stream_step ::
  "protocol_type \<Rightarrow> (outbound \<Rightarrow> bool) \<Rightarrow> (outbound \<Rightarrow> nat \<Rightarrow> outbound option) \<Rightarrow>
   (u8 list list \<Rightarrow> 'h option) \<Rightarrow> ('h \<Rightarrow> u8 list option) \<Rightarrow> conn \<Rightarrow> conn \<Rightarrow> bool"
  for t is_enc ws_enc parse generate where
  st_call: "sane k \<Longrightarrow> stream_step t is_enc ws_enc parse generate k (run_call t is_enc False c k)"
| st_task: "sane k \<Longrightarrow> strand (k_base k) = x # xs \<Longrightarrow>
    stream_step t is_enc ws_enc parse generate k
      (stream_task t is_enc calls x (on_base (\<lambda>s. s\<lparr>strand := xs\<rparr>) k))"
| st_write: "sane k \<Longrightarrow> writes (k_base k) = Write_queued p # ws \<Longrightarrow>
    stream_step t is_enc ws_enc parse generate k
      (stream_write (close_of t) ec (on_base (\<lambda>s. s\<lparr>writes := ws\<rparr>) k))"
| st_shutdown: "sane k \<Longrightarrow> k_ops k = xs @ Tls_shutdown # ys \<Longrightarrow>
    stream_step t is_enc ws_enc parse generate k (tls_shutdown_done (k\<lparr>k_ops := xs @ ys\<rparr>))"
| st_ssl_handshake: "sane k \<Longrightarrow> t = Protocol_ssl \<Longrightarrow> k_ops k = xs @ Tls_handshake # ys \<Longrightarrow>
    stream_step t is_enc ws_enc parse generate k (ssl_handshake mem ec (k\<lparr>k_ops := xs @ ys\<rparr>))"
| st_ssl_header: "sane k \<Longrightarrow> t = Protocol_ssl \<Longrightarrow> k_ops k = xs @ Op_header # ys \<Longrightarrow>
    length bs \<le> header_size_c \<Longrightarrow> ec = None \<longrightarrow> length bs = header_size_c \<Longrightarrow>
    stream_step t is_enc ws_enc parse generate k
      (ssl_routed is_enc h (ssl_read_header mem ec (length bs)
         (received (\<lambda>p. fill_header p bs) (k\<lparr>k_ops := xs @ ys\<rparr>))))"
| st_ssl_body: "sane k \<Longrightarrow> t = Protocol_ssl \<Longrightarrow> k_ops k = xs @ Op_body n # ys \<Longrightarrow>
    length bs \<le> n \<Longrightarrow> ec = None \<longrightarrow> length bs = n \<Longrightarrow>
    stream_step t is_enc ws_enc parse generate k
      (ssl_routed is_enc h (ssl_read_body mem ec (length bs)
         (received (\<lambda>p. fill_body p bs) (k\<lparr>k_ops := xs @ ys\<rparr>))))"
| st_wss_handshake: "sane k \<Longrightarrow> t = Protocol_wss \<Longrightarrow> k_ops k = xs @ Tls_handshake # ys \<Longrightarrow>
    stream_step t is_enc ws_enc parse generate k (wss_handshake ec (k\<lparr>k_ops := xs @ ys\<rparr>))"
| st_request: "sane k \<Longrightarrow> is_ws t \<Longrightarrow> k_ops k = xs @ Request_read # ys \<Longrightarrow>
    stream_step t is_enc ws_enc parse generate k
      (ws_handshake_read (close_of t) parse generate mem ec bs (k\<lparr>k_ops := xs @ ys\<rparr>))"
| st_response: "sane k \<Longrightarrow> is_ws t \<Longrightarrow> k_ops k = xs @ Response_write out response # ys \<Longrightarrow>
    stream_step t is_enc ws_enc parse generate k
      (ws_handshake_write (close_of t) out ec (k\<lparr>k_ops := xs @ ys\<rparr>))"
| st_frame_head: "sane k \<Longrightarrow> is_ws t \<Longrightarrow> k_ops k = xs @ Frame_head # ys \<Longrightarrow>
    length bs \<le> 2 \<Longrightarrow> ec = None \<longrightarrow> length bs = 2 \<Longrightarrow>
    stream_step t is_enc ws_enc parse generate k
      (ws_read_header (close_of t) ec bs (k\<lparr>k_ops := xs @ ys\<rparr>))"
| st_frame_126: "sane k \<Longrightarrow> is_ws t \<Longrightarrow> k_ops k = xs @ Frame_length 2 b # ys \<Longrightarrow>
    length bs \<le> 2 \<Longrightarrow> ec = None \<longrightarrow> length bs = 2 \<Longrightarrow>
    stream_step t is_enc ws_enc parse generate k
      (ws_read_header_126 (close_of t) b ec bs (k\<lparr>k_ops := xs @ ys\<rparr>))"
| st_frame_127: "sane k \<Longrightarrow> is_ws t \<Longrightarrow> k_ops k = xs @ Frame_length 8 b # ys \<Longrightarrow>
    length bs \<le> 8 \<Longrightarrow> ec = None \<longrightarrow> length bs = 8 \<Longrightarrow>
    stream_step t is_enc ws_enc parse generate k
      (ws_read_header_127 (close_of t) b ec bs (k\<lparr>k_ops := xs @ ys\<rparr>))"
| st_frame: "sane k \<Longrightarrow> is_ws t \<Longrightarrow> k_ops k = xs @ Frame_payload n b # ys \<Longrightarrow>
    length bs \<le> 4 + n \<Longrightarrow> ec = None \<longrightarrow> length bs = 4 + n \<Longrightarrow>
    stream_step t is_enc ws_enc parse generate k
      (frame_end (close_of t) is_enc ws_enc pmem (routing t is_enc h)
         (ws_read (close_of t) mem n b ec bs (k\<lparr>k_ops := xs @ ys\<rparr>)))"

fun start_of :: "protocol_type \<Rightarrow> string \<Rightarrow> u16 \<Rightarrow> conn \<Rightarrow> conn" where
  "start_of Protocol_ssl ip port k = ssl_start ip port k"
| "start_of Protocol_wss ip port k = wss_start ip port k"
| "start_of _ ip port k = ws_start ip port k"

inductive stream_reachable ::
  "protocol_type \<Rightarrow> (outbound \<Rightarrow> bool) \<Rightarrow> (outbound \<Rightarrow> nat \<Rightarrow> outbound option) \<Rightarrow>
   (u8 list list \<Rightarrow> 'h option) \<Rightarrow> ('h \<Rightarrow> u8 list option) \<Rightarrow> conn \<Rightarrow> bool"
  for t is_enc ws_enc parse generate where
  stream_start: "stream_reachable t is_enc ws_enc parse generate (start_of t ip port (conn_new mems))"
| stream_next: "stream_reachable t is_enc ws_enc parse generate k \<Longrightarrow>
    stream_step t is_enc ws_enc parse generate k k' \<Longrightarrow>
    stream_reachable t is_enc ws_enc parse generate k'"

section \<open>The invariant\<close>

definition reader_ops :: "conn \<Rightarrow> stream_op list" where
  "reader_ops k = filter (\<lambda>x. x \<noteq> Tls_shutdown) (k_ops k)"

definition shutdowns :: "conn \<Rightarrow> nat" where
  "shutdowns k = length (filter (\<lambda>x. x = Tls_shutdown) (k_ops k))"

fun handshake_op :: "stream_op \<Rightarrow> bool" where
  "handshake_op Tls_handshake = True"
| "handshake_op Request_read = True"
| "handshake_op (Response_write p r) = True"
| "handshake_op x = False"

text \<open>Leaves under way, reported, or still to come.\<close>

definition leaves :: "conn \<Rightarrow> nat" where
  "leaves k = leave_tasks (strand (k_base k)) + leave_obs (trace (k_base k)) + shutdowns k +
     (if is_connected (k_base k) then 1 else 0)"

definition core_ok :: "conn \<Rightarrow> bool" where
  "core_ok k \<longleftrightarrow> writer_ok (k_base k) \<and> pools_ok (k_base k) \<and> inbound_q (k_base k) = [] \<and>
     (\<forall>w \<in> set (writes (k_base k)). \<exists>p. w = Write_queued p) \<and> leaves k \<le> 1"

definition untouched_conn :: "conn \<Rightarrow> bool" where
  "untouched_conn k \<longleftrightarrow> \<not> is_connected (k_base k) \<and> strand (k_base k) = [] \<and> writes (k_base k) = [] \<and>
     outbound_q (k_base k) = [] \<and> trace (k_base k) = [] \<and> shutdowns k = 0"

fun op_ok :: "stream_op \<Rightarrow> session \<Rightarrow> bool" where
  "op_ok Op_header s = (cur_inbound s \<noteq> None)"
| "op_ok (Op_body n) s = (\<exists>p. cur_inbound s = Some p \<and> n = unat (in_body_size p) \<and> 0 < n \<and>
     (n \<le> raw_size_c \<or> fault s \<noteq> None))"
| "op_ok (Frame_payload n b) s = (n < 65536)"
| "op_ok x s = True"

definition stream_inv :: "conn \<Rightarrow> bool" where
  "stream_inv k \<longleftrightarrow> core_ok k \<and>
     (reader_ops k = [] \<and> (is_connected (k_base k) \<longrightarrow> k_undefined k) \<or>
      (\<exists>x. reader_ops k = [x] \<and> handshake_op x \<and> untouched_conn k) \<or>
      (\<exists>x. reader_ops k = [x] \<and> \<not> handshake_op x \<and> op_ok x (k_base k)))"

section \<open>Every operation keeps it\<close>

lemma on_base_simps [simp]:
  "k_base (on_base f k) = f (k_base k)" "k_ops (on_base f k) = k_ops k"
  "reader_ops (on_base f k) = reader_ops k" "shutdowns (on_base f k) = shutdowns k"
  "k_stream (on_base f k) = k_stream k" "k_undefined (on_base f k) = k_undefined k"
  by (simp_all add: on_base_def reader_ops_def shutdowns_def)

lemma begin_op_simps [simp]:
  "k_base (begin_op x k) = k_base k"
  "reader_ops (begin_op x k) = reader_ops k @ (if x = Tls_shutdown then [] else [x])"
  "shutdowns (begin_op x k) = shutdowns k + (if x = Tls_shutdown then 1 else 0)"
  "k_stream (begin_op x k) = k_stream k" "k_undefined (begin_op x k) = k_undefined k"
  by (simp_all add: begin_op_def reader_ops_def shutdowns_def)

lemma conn_update_simps [simp]:
  "reader_ops (k\<lparr>k_stream := bs\<rparr>) = reader_ops k" "shutdowns (k\<lparr>k_stream := bs\<rparr>) = shutdowns k"
  "reader_ops (k\<lparr>k_base := s\<rparr>) = reader_ops k" "shutdowns (k\<lparr>k_base := s\<rparr>) = shutdowns k"
  "reader_ops (k\<lparr>k_undefined := u\<rparr>) = reader_ops k" "shutdowns (k\<lparr>k_undefined := u\<rparr>) = shutdowns k"
  by (simp_all add: reader_ops_def shutdowns_def)

lemma core_ok_parts:
  "core_ok (k\<lparr>k_stream := bs\<rparr>) = core_ok k" "core_ok (k\<lparr>k_undefined := u\<rparr>) = core_ok k"
  by (simp_all add: core_ok_def leaves_def)

lemma core_ok_begin: "x \<noteq> Tls_shutdown \<Longrightarrow> core_ok (begin_op x k) = core_ok k"
  by (simp add: core_ok_def leaves_def)

declare core_ok_parts [simp] core_ok_begin [simp]

lemmas core_defs = core_ok_def leaves_def writer_ok_def pools_ok_def

text \<open>An operation of the base that keeps its queues, its closing and the flag.\<close>

lemma core_ok_base:
  assumes "core_ok k" "writer_ok (f (k_base k))" "pools_ok (f (k_base k))"
    and "inbound_q (f (k_base k)) = []" "writes (f (k_base k)) = writes (k_base k)"
    and "leave_tasks (strand (f (k_base k))) + leave_obs (trace (f (k_base k))) \<le>
      leave_tasks (strand (k_base k)) + leave_obs (trace (k_base k))"
    and "is_connected (f (k_base k)) = is_connected (k_base k)"
  shows "core_ok (on_base f k)"
  using assms by (auto simp: core_ok_def leaves_def)

lemma writer_pools_update [simp]:
  "writer_ok (s\<lparr>strand := ts\<rparr>) = writer_ok s" "pools_ok (s\<lparr>strand := ts\<rparr>) = pools_ok s"
  "writer_ok (s\<lparr>sock_open := b\<rparr>) = writer_ok s" "pools_ok (s\<lparr>sock_open := b\<rparr>) = pools_ok s"
  "writer_ok (s\<lparr>cur_inbound := p\<rparr>) = writer_ok s" "pools_ok (s\<lparr>cur_inbound := p\<rparr>) = pools_ok s"
  "writer_ok (s\<lparr>keep_alive_flag := b\<rparr>) = writer_ok s" "pools_ok (s\<lparr>keep_alive_flag := b\<rparr>) = pools_ok s"
  "writer_ok (s\<lparr>socket_ip := i\<rparr>) = writer_ok s" "pools_ok (s\<lparr>socket_ip := i\<rparr>) = pools_ok s"
  "writer_ok (s\<lparr>socket_port := w\<rparr>) = writer_ok s" "pools_ok (s\<lparr>socket_port := w\<rparr>) = pools_ok s"
  "writer_ok (s\<lparr>fault := e\<rparr>) = writer_ok s" "pools_ok (s\<lparr>fault := e\<rparr>) = pools_ok s"
  "writer_ok (raise_fault f s) = writer_ok s" "pools_ok (raise_fault f s) = pools_ok s"
  "pools_ok (s\<lparr>is_connected := c\<rparr>) = pools_ok s"
  by (simp_all add: writer_ok_def pools_ok_def)

lemma writer_disconnect: "writer_ok s \<Longrightarrow> writer_ok (s\<lparr>is_connected := False\<rparr>)"
  by (auto simp: writer_ok_def)

lemma close_task_of_cases: "close_task_of t = tls_close_task \<or> close_task_of t = on_base close_task"
  by (cases t) simp_all

lemma core_close_task:
  assumes "core_ok k" "leaves k = 0"
  shows "core_ok (close_task_of t k)" "core_ok (on_base (\<lambda>s. s\<lparr>strand := strand s @ [Task_close]\<rparr>) k)"
proof -
  have "core_ok (tls_close_task k)" "core_ok (on_base close_task k)"
    using assms by (auto simp: core_ok_def leaves_def tls_close_task_def close_task_def)
  then show "core_ok (close_task_of t k)" using close_task_of_cases [of t] by auto
  show "core_ok (on_base (\<lambda>s. s\<lparr>strand := strand s @ [Task_close]\<rparr>) k)"
    using assms by (auto simp: core_ok_def leaves_def)
qed

lemma core_close:
  assumes "core_ok k"
  shows "core_ok (close_of t b k)"
proof (cases "is_connected (k_base k)")
  case True
  let ?k = "on_base (\<lambda>s. s\<lparr>is_connected := False\<rparr>) k"
  have "core_ok ?k" "leaves ?k = 0"
    using assms True by (auto simp: core_ok_def leaves_def writer_disconnect)
  from core_close_task [OF this] show ?thesis
    using True by (simp add: close_of_with close_with_def Let_def)
qed (use assms in \<open>simp add: close_of_with close_with_def\<close>)

lemma close_task_base [simp]:
  "is_connected (k_base (close_task_of t k)) = is_connected (k_base k)"
  "cur_inbound (k_base (close_task_of t k)) = cur_inbound (k_base k)"
  "fault (k_base (close_task_of t k)) = fault (k_base k)"
  "inbound_q (k_base (close_task_of t k)) = inbound_q (k_base k)"
  "outbound_q (k_base (close_task_of t k)) = outbound_q (k_base k)"
  "writes (k_base (close_task_of t k)) = writes (k_base k)"
  "trace (k_base (close_task_of t k)) = trace (k_base k)"
  "inbound_pool (k_base (close_task_of t k)) = inbound_pool (k_base k)"
  "outbound_pool (k_base (close_task_of t k)) = outbound_pool (k_base k)"
  "k_undefined (close_task_of t k) = k_undefined k"
  "reader_ops (close_task_of t k) = reader_ops k"
  using close_task_of_cases [of t] by (auto simp: tls_close_task_def close_task_def)

lemma close_base [simp]:
  "\<not> is_connected (k_base (close_of t b k))"
  "cur_inbound (k_base (close_of t b k)) = cur_inbound (k_base k)"
  "fault (k_base (close_of t b k)) = fault (k_base k)"
  "inbound_q (k_base (close_of t b k)) = inbound_q (k_base k)"
  "outbound_q (k_base (close_of t b k)) = outbound_q (k_base k)"
  "writes (k_base (close_of t b k)) = writes (k_base k)"
  "trace (k_base (close_of t b k)) = trace (k_base k)"
  "inbound_pool (k_base (close_of t b k)) = inbound_pool (k_base k)"
  "outbound_pool (k_base (close_of t b k)) = outbound_pool (k_base k)"
  "k_undefined (close_of t b k) = k_undefined k"
  "reader_ops (close_of t b k) = reader_ops k"
  by (simp_all add: close_of_with close_with_def Let_def)

lemma close_disconnected [simp]: "\<not> is_connected (k_base k) \<Longrightarrow> close_of t b k = k"
  by (simp add: close_of_with close_with_def)

lemma core_send_task: "core_ok k \<Longrightarrow> core_ok (on_base (send_task p) k)"
  by (auto simp: send_task_def async_write_front_def Let_def core_ok_def leaves_def writer_ok_def
      pools_ok_def neq_Nil_conv split: list.splits)

lemma core_strand_send:
  "core_ok k \<Longrightarrow> core_ok (on_base (\<lambda>s. s\<lparr>strand := strand s @ [Task_send p]\<rparr>) k)"
  by (auto simp: core_defs)

lemma core_on_send: "core_ok k \<Longrightarrow> core_ok (snd (stream_on_send is_enc b out k))"
  by (auto simp: stream_on_send_def core_send_task core_strand_send split: option.split)

lemma core_alloc_outbound:
  assumes "core_ok k" "stream_alloc_outbound mem k = (p, k')"
  shows "core_ok k'"
  using assms out_pool.pool_ok_alloc [of "outbound_pool (k_base k)" mem]
  by (auto simp: stream_alloc_outbound_def session_alloc_outbound_def core_defs split: prod.splits)

lemma core_alloc_inbound:
  assumes "core_ok k" "stream_alloc_inbound mem k = (p, k')"
  shows "core_ok k'"
  using assms in_pool.pool_ok_alloc [of "inbound_pool (k_base k)" mem]
  by (auto simp: stream_alloc_inbound_def session_alloc_inbound_def core_defs split: prod.splits)

lemma alloc_frames:
  "stream_alloc_outbound mem k = (p, k') \<Longrightarrow> reader_ops k' = reader_ops k \<and>
     is_connected (k_base k') = is_connected (k_base k) \<and> cur_inbound (k_base k') = cur_inbound (k_base k) \<and>
     fault (k_base k') = fault (k_base k) \<and> (untouched_conn k \<longrightarrow> untouched_conn k') \<and>
     k_stream k' = k_stream k \<and> k_undefined k' = k_undefined k"
  "stream_alloc_inbound mem k = (q, k') \<Longrightarrow> reader_ops k' = reader_ops k \<and>
     is_connected (k_base k') = is_connected (k_base k) \<and> cur_inbound (k_base k') = cur_inbound (k_base k) \<and>
     fault (k_base k') = fault (k_base k) \<and> (untouched_conn k \<longrightarrow> untouched_conn k') \<and>
     k_stream k' = k_stream k \<and> k_undefined k' = k_undefined k"
  by (auto simp: stream_alloc_outbound_def session_alloc_outbound_def stream_alloc_inbound_def
      session_alloc_inbound_def untouched_conn_def split: prod.splits)

text \<open>What the reader of a connection depends on; queueing, closing and the flags keep it.\<close>

definition keeps_reader :: "conn \<Rightarrow> conn \<Rightarrow> bool" where
  "keeps_reader k k' \<longleftrightarrow> reader_ops k' = reader_ops k \<and> cur_inbound (k_base k') = cur_inbound (k_base k) \<and>
     (fault (k_base k) \<noteq> None \<longrightarrow> fault (k_base k') \<noteq> None) \<and>
     (is_connected (k_base k') \<longrightarrow> is_connected (k_base k)) \<and> k_undefined k' = k_undefined k \<and>
     (untouched_conn k \<longrightarrow> untouched_conn k')"

lemma op_ok_keeps: "op_ok x s \<Longrightarrow> cur_inbound s' = cur_inbound s \<Longrightarrow>
    (fault s \<noteq> None \<Longrightarrow> fault s' \<noteq> None) \<Longrightarrow> op_ok x s'"
  by (cases x) auto

lemma stream_inv_keeps:
  assumes "stream_inv k" "core_ok k'" "keeps_reader k k'"
  shows "stream_inv k'"
  using assms op_ok_keeps [of _ "k_base k" "k_base k'"]
  unfolding stream_inv_def keeps_reader_def by auto

lemma keeps_reader_refl [simp]: "keeps_reader k k"
  by (simp add: keeps_reader_def)

lemma keeps_reader_trans: "keeps_reader a b \<Longrightarrow> keeps_reader b c \<Longrightarrow> keeps_reader a c"
  by (auto simp: keeps_reader_def)

lemma keeps_close [simp]: "keeps_reader k (close_of t b k)"
  by (cases "is_connected (k_base k)") (simp_all add: keeps_reader_def untouched_conn_def)

text \<open>Most operations keep both the core and what the reader depends on.\<close>

definition mild :: "conn \<Rightarrow> conn \<Rightarrow> bool" where
  "mild k k' \<longleftrightarrow> (core_ok k \<longrightarrow> core_ok k') \<and> keeps_reader k k'"

lemma mild_inv: "stream_inv k \<Longrightarrow> mild k k' \<Longrightarrow> stream_inv k'"
  using stream_inv_keeps by (auto simp: mild_def stream_inv_def)

lemma mild_refl [simp]: "mild k k"
  by (simp add: mild_def)

lemma mild_trans: "mild a b \<Longrightarrow> mild b c \<Longrightarrow> mild a c"
  using keeps_reader_trans by (auto simp: mild_def)

lemma mild_close [simp]: "mild k (close_of t b k)"
  by (simp add: mild_def core_close)

lemma mild_alloc: "stream_alloc_outbound mem k = (p, k') \<Longrightarrow> mild k k'"
  using core_alloc_outbound alloc_frames(1) by (fastforce simp: mild_def keeps_reader_def)

lemma send_task_frame [simp]:
  "cur_inbound (send_task p s) = cur_inbound s" "is_connected (send_task p s) = is_connected s"
  by (auto simp: send_task_def async_write_front_def Let_def split: list.split)

lemma mild_on_send: "mild k (snd (stream_on_send is_enc b out k))"
proof (cases "\<exists>p. out = Some p \<and> is_enc p \<and> is_connected (k_base k)")
  case True
  then have "\<not> untouched_conn k" by (auto simp: untouched_conn_def)
  then show ?thesis
    using True core_on_send [of k is_enc b out]
    by (auto simp: mild_def keeps_reader_def stream_on_send_def split: if_splits)
next
  case False
  then show ?thesis by (auto simp: stream_on_send_def split: option.split)
qed

lemma mild_fault: "mild k (on_base (raise_fault f) k)"
  by (auto simp: mild_def keeps_reader_def untouched_conn_def core_ok_def leaves_def raise_fault_def)

lemma mild_send: "mild k (snd (stream_send is_enc b mem i body n k))"
proof (cases "stream_alloc_outbound mem k")
  case (Pair p k')
  then show ?thesis
    using mild_alloc [OF Pair] mild_trans mild_fault mild_on_send
    by (cases p) (auto simp: stream_send_def split: option.split)
qed

lemma mild_call: "mild k (run_call t is_enc b c k)"
proof (cases c)
  case (Sc_send mem i body n)
  then show ?thesis by (simp add: mild_send)
next
  case Sc_set_keep_alive
  then show ?thesis
    by (simp add: mild_def keeps_reader_def untouched_conn_def core_ok_def leaves_def set_keep_alive_flag_def)
next
  case Sc_init_keep_alive
  then show ?thesis
    by (simp add: mild_def keeps_reader_def untouched_conn_def core_ok_def leaves_def init_keep_alive_flag_def)
qed simp

lemma mild_calls: "mild k (run_calls t is_enc calls k)"
  unfolding run_calls_def
proof (induction calls arbitrary: k)
  case (Cons c calls)
  show ?case using mild_trans [OF mild_call Cons] by simp
qed simp

lemma inbound_q_calls_k: "core_ok k \<Longrightarrow> inbound_q (k_base (run_calls t is_enc calls k)) = []"
  using mild_calls [of k t is_enc calls] by (simp add: mild_def core_ok_def)

lemma mild_dealloc_inbound: "mild k (on_base (session_dealloc_inbound p) k)"
  using in_pool.pool_ok_dealloc
  by (auto simp: mild_def keeps_reader_def untouched_conn_def session_dealloc_inbound_def core_ok_def
      leaves_def writer_ok_def pools_ok_def)

lemma mild_dealloc_outbound: "mild k (on_base (session_dealloc_outbound p) k)"
  using out_pool.pool_ok_dealloc
  by (auto simp: mild_def keeps_reader_def untouched_conn_def session_dealloc_outbound_def core_ok_def
      leaves_def writer_ok_def pools_ok_def)

text \<open>A packet is routed at once, since no other waits; the connection has been in use.\<close>

lemma route_Some:
  assumes "core_ok k"
  shows "stream_route (close_of t) (routing t is_enc h) (Some p) k =
    (let k2 = run_calls t is_enc (snd h) (on_base (emit (Obs_route p)) k)
     in case fst h of
          None \<Rightarrow> on_base (raise_fault Terminate) k2
        | Some ok \<Rightarrow> on_base (session_dealloc_inbound p) (if ok then k2 else close_of t True k2))"
proof -
  have q: "inbound_q (k_base k) = []" using assms by (simp add: core_ok_def)
  have e: "on_base (\<lambda>s. emit (Obs_route p) (s\<lparr>inbound_q := []\<rparr>))
      (on_base (\<lambda>s. s\<lparr>inbound_q := inbound_q s @ [p]\<rparr>) k) = on_base (emit (Obs_route p)) k"
    using q by (simp add: on_base_def emit_def inbound_q_same)
  have "core_ok (on_base (emit (Obs_route p)) k)"
    using assms by (simp add: core_ok_def leaves_def writer_ok_def pools_ok_def)
  then have "inbound_q (k_base (run_calls t is_enc (snd h) (on_base (emit (Obs_route p)) k))) = []"
    by (rule inbound_q_calls_k)
  then show ?thesis
    using q e by (cases "fst h")
      (auto simp: stream_route_def routing_def Let_def session_dealloc_inbound_def)
qed

lemma inv_route:
  assumes "stream_inv k" "\<forall>x \<in> set (reader_ops k). \<not> handshake_op x"
  shows "stream_inv (stream_route (close_of t) (routing t is_enc h) (Some p) k)"
proof -
  have c: "core_ok k" using assms(1) by (simp add: stream_inv_def)
  have "op_ok x (emit (Obs_route p) (k_base k)) = op_ok x (k_base k)" for x
    by (cases x) simp_all
  then have e: "stream_inv (on_base (emit (Obs_route p)) k)"
    using assms by (auto simp: stream_inv_def core_ok_def leaves_def writer_ok_def pools_ok_def)
  let ?k2 = "run_calls t is_enc (snd h) (on_base (emit (Obs_route p)) k)"
  have 2: "stream_inv ?k2" by (rule mild_inv [OF e mild_calls])
  have 3: "stream_inv (if ok then ?k2 else close_of t True ?k2)" for ok
    using 2 mild_inv [OF 2 mild_close] by simp
  show ?thesis
    unfolding route_Some [OF c] Let_def
    using mild_inv [OF 2 mild_fault] mild_inv [OF 3 mild_dealloc_inbound]
    by (cases "fst h") simp_all
qed

lemma mild_pong: "mild k (ws_pong is_enc ws_enc mem b k)"
proof (cases "stream_alloc_outbound mem k")
  case (Pair p k')
  then show ?thesis
    using mild_alloc [OF Pair] mild_trans [OF _ mild_on_send]
    by (cases p) (auto simp: ws_pong_def split: option.split)
qed

section \<open>The reads and the handshakes\<close>

text \<open>While the handler of a completed read runs, no read is in flight.\<close>

definition busy :: "conn \<Rightarrow> bool" where
  "busy k \<longleftrightarrow> core_ok k \<and> reader_ops k = []"

lemma busy_update [simp]:
  "busy (k\<lparr>k_stream := bs\<rparr>) = busy k" "busy (k\<lparr>k_undefined := u\<rparr>) = busy k"
  by (simp_all add: busy_def)

lemma untouched_update [simp]:
  "untouched_conn (k\<lparr>k_stream := bs\<rparr>) = untouched_conn k"
  "untouched_conn (on_base (\<lambda>s. s\<lparr>cur_inbound := f s\<rparr>) k) = untouched_conn k"
  by (simp_all add: untouched_conn_def)

lemma busy_cur_inbound [simp]: "busy (on_base (\<lambda>s. s\<lparr>cur_inbound := f s\<rparr>) k) = busy k"
  by (simp add: busy_def core_ok_def leaves_def)

lemma busy_close: "busy k \<Longrightarrow> stream_inv (close_of t b k)"
  by (simp add: busy_def stream_inv_def core_close)

lemma busy_idle: "busy k \<Longrightarrow> \<not> is_connected (k_base k) \<Longrightarrow> stream_inv k"
  by (simp add: busy_def stream_inv_def)

lemma busy_begin:
  "busy k \<Longrightarrow> \<not> handshake_op x \<Longrightarrow> x \<noteq> Tls_shutdown \<Longrightarrow> op_ok x (k_base k) \<Longrightarrow> stream_inv (begin_op x k)"
  by (auto simp: busy_def stream_inv_def)

lemma busy_handshake:
  "busy k \<Longrightarrow> untouched_conn k \<Longrightarrow> handshake_op x \<Longrightarrow> stream_inv (begin_op x k)"
  by (cases x) (auto simp: busy_def stream_inv_def untouched_conn_def)

lemma busy_connect: "busy k \<Longrightarrow> untouched_conn k \<Longrightarrow> busy (set_connected k)"
  by (auto simp: busy_def core_ok_def leaves_def untouched_conn_def writer_ok_def)

lemma busy_refuse: "busy k \<Longrightarrow> untouched_conn k \<Longrightarrow> stream_inv (refuse (close_of t) k)"
  by (simp add: refuse_def busy_close busy_connect)

lemma busy_alloc:
  "busy k \<Longrightarrow> stream_alloc_outbound mem k = (p, k') \<Longrightarrow> busy k'"
  "busy k \<Longrightarrow> stream_alloc_inbound mem k = (q, k') \<Longrightarrow> busy k'"
  unfolding busy_def
  using core_alloc_outbound alloc_frames(1) [of mem k p k'] core_alloc_inbound
    alloc_frames(2) [of mem k q k'] by metis+

lemma take_op:
  assumes "stream_inv k" "k_ops k = xs @ x # ys" "x \<noteq> Tls_shutdown"
  shows "busy (k\<lparr>k_ops := xs @ ys\<rparr>)" "reader_ops k = [x]"
    "handshake_op x \<Longrightarrow> untouched_conn (k\<lparr>k_ops := xs @ ys\<rparr>)" "\<not> handshake_op x \<Longrightarrow> op_ok x (k_base k)"
proof -
  have "length (reader_ops k) \<le> 1" using assms(1) by (auto simp: stream_inv_def)
  then have r: "reader_ops k = [x]" "reader_ops (k\<lparr>k_ops := xs @ ys\<rparr>) = []"
    using assms(2,3) by (auto simp: reader_ops_def)
  have "shutdowns (k\<lparr>k_ops := xs @ ys\<rparr>) = shutdowns k"
    using assms(2,3) by (simp add: shutdowns_def)
  then show "busy (k\<lparr>k_ops := xs @ ys\<rparr>)" "handshake_op x \<Longrightarrow> untouched_conn (k\<lparr>k_ops := xs @ ys\<rparr>)"
    "\<not> handshake_op x \<Longrightarrow> op_ok x (k_base k)" "reader_ops k = [x]"
    using assms(1) r by (auto simp: stream_inv_def busy_def core_ok_def leaves_def untouched_conn_def)
qed

lemma op_ok_strand [simp]: "op_ok x (s\<lparr>strand := ts\<rparr>) = op_ok x s"
  by (cases x) simp_all

lemma busy_enter: "stream_inv k \<Longrightarrow> is_connected (k_base k) \<Longrightarrow>
    stream_inv (on_base (\<lambda>s. s\<lparr>strand := strand s @ [Task_user_enter]\<rparr>) k)"
  by (auto simp: stream_inv_def core_ok_def leaves_def untouched_conn_def)

lemma inv_ssl_handshake:
  assumes "busy k" "untouched_conn k"
  shows "stream_inv (ssl_handshake mem ec k)"
proof (cases "stream_alloc_inbound mem (set_connected k)")
  case (Pair p k')
  have b: "busy (set_connected k)" by (rule busy_connect [OF assms])
  have b': "busy k'" using busy_alloc(2) [OF b Pair] .
  have c: "is_connected (k_base k')" using alloc_frames(2) [OF Pair] by simp
  note close = busy_close [of _ Protocol_ssl, simplified]
  have "stream_inv (begin_op Op_header (on_base (\<lambda>s. s\<lparr>cur_inbound := Some q\<rparr>) k'))" for q
    using b' by (intro busy_begin) simp_all
  then show ?thesis
    using Pair b b' c close busy_enter
    by (auto simp: ssl_handshake_def Let_def split: option.split)
qed

lemma inv_ssl_next:
  assumes "busy k"
  shows "stream_inv (fst (ssl_next_header mem p k))"
proof (cases "stream_alloc_inbound mem (on_base (\<lambda>s. s\<lparr>cur_inbound := None\<rparr>) k)")
  case (Pair q k')
  have b: "busy k'" using busy_alloc(2) [OF _ Pair] assms by simp
  note close = busy_close [of _ Protocol_ssl, simplified]
  have "stream_inv (begin_op Op_header (on_base (\<lambda>s. s\<lparr>cur_inbound := Some q\<rparr>) k'))" for q
    using b by (intro busy_begin) simp_all
  then show ?thesis
    using Pair b close by (auto simp: ssl_next_header_def Let_def busy_idle split: option.split)
qed

lemma begin_body_inv:
  assumes "busy k" "cur_inbound (k_base k) = Some p" "n = unat (in_body_size p)" "0 < n"
  shows "stream_inv (begin_body n k)"
proof (cases "raw_size_c < n")
  case True
  then show ?thesis
    using assms by (auto simp: begin_body_def Let_def stream_inv_def busy_def core_ok_def leaves_def)
next
  case False
  then show ?thesis using assms by (auto simp: begin_body_def Let_def intro!: busy_begin)
qed

lemma inv_ssl_header:
  assumes "busy k"
  shows "stream_inv (fst (ssl_read_header mem ec n k))"
proof (cases "cur_inbound (k_base k)")
  case None
  then show ?thesis
    using assms busy_close [of _ Protocol_ssl, simplified] by (simp add: ssl_read_header_def)
next
  case (Some p)
  let ?k = "on_base (\<lambda>s. (set_keep_alive_flag s)\<lparr>cur_inbound := Some (decide p)\<rparr>) k"
  have b: "busy ?k"
    using assms by (simp add: busy_def core_ok_def leaves_def set_keep_alive_flag_def)
  have "stream_inv (begin_body (unat (in_body_size (decide p))) ?k)" if "0 < unat (in_body_size (decide p))"
    using begin_body_inv [OF b _ refl that] by simp
  moreover have "stream_inv (begin_op Op_header (on_base (\<lambda>s. s\<lparr>cur_inbound := Some (inbound_init p)\<rparr>) k))"
    using assms by (intro busy_begin) simp_all
  ultimately show ?thesis
    using assms Some b busy_close [of _ Protocol_ssl, simplified] inv_ssl_next [OF b] busy_idle [OF b]
    by (simp add: ssl_read_header_def Let_def busy_idle)
qed

lemma inv_ssl_body: "busy k \<Longrightarrow> stream_inv (fst (ssl_read_body mem ec n k))"
  using busy_close [of _ Protocol_ssl, simplified] inv_ssl_next
  by (auto simp: ssl_read_body_def split: option.split)

lemma inv_wss_handshake:
  assumes "busy k" "untouched_conn k"
  shows "stream_inv (wss_handshake ec k)"
  using assms busy_refuse [of _ Protocol_wss, simplified]
  by (auto simp: wss_handshake_def request_read_def intro!: busy_handshake)

lemma inv_ws_handshake_read:
  assumes "busy k" "untouched_conn k"
  shows "stream_inv (ws_handshake_read (close_of t) parse generate mem ec bs k)"
proof (cases "stream_alloc_outbound mem (k\<lparr>k_stream := []\<rparr>)")
  case (Pair p k')
  have "busy k'" "untouched_conn k'"
    using busy_alloc(1) [OF _ Pair] alloc_frames(1) [OF Pair] assms by simp_all
  with Pair assms busy_refuse busy_handshake show ?thesis
    by (auto simp: ws_handshake_read_def Let_def split: option.split)
qed

lemma readers_ssl_next:
  assumes "reader_ops k = []"
  shows "\<forall>x \<in> set (reader_ops (fst (ssl_next_header mem p k))). \<not> handshake_op x"
proof (cases "stream_alloc_inbound mem (on_base (\<lambda>s. s\<lparr>cur_inbound := None\<rparr>) k)")
  case (Pair q k')
  have r: "reader_ops k' = []" using alloc_frames(2) [OF Pair] assms by simp
  then have "reader_ops (ssl_on_close b k') = []" for b
    using close_base(11) [of Protocol_ssl b k'] by simp
  with Pair r show ?thesis by (auto simp: ssl_next_header_def Let_def split: option.split)
qed

lemma readers_ssl_reads:
  assumes "reader_ops k = []"
  shows "\<forall>x \<in> set (reader_ops (fst (ssl_read_header mem ec n k))). \<not> handshake_op x"
    "\<forall>x \<in> set (reader_ops (fst (ssl_read_body mem ec n k))). \<not> handshake_op x"
proof -
  have c: "reader_ops (ssl_on_close b k) = []" for b
    using close_base(11) [of Protocol_ssl b k] assms by simp
  show "\<forall>x \<in> set (reader_ops (fst (ssl_read_header mem ec n k))). \<not> handshake_op x"
    using assms c readers_ssl_next [of "on_base _ k"]
    by (auto simp: ssl_read_header_def Let_def begin_body_def split: option.split)
  show "\<forall>x \<in> set (reader_ops (fst (ssl_read_body mem ec n k))). \<not> handshake_op x"
    using assms c readers_ssl_next [of k]
    by (auto simp: ssl_read_body_def split: option.split)
qed

lemma inv_ssl_routed:
  assumes "stream_inv (fst r)" "\<forall>x \<in> set (reader_ops (fst r)). \<not> handshake_op x"
  shows "stream_inv (ssl_routed is_enc h r)"
  using inv_route [OF assms, of Protocol_ssl] assms(1) by (auto simp: ssl_routed_def split: option.split)

lemma inv_ws_handshake_write:
  assumes "busy k" "untouched_conn k"
  shows "stream_inv (ws_handshake_write (close_of t) out ec k)"
proof -
  let ?k = "set_connected (begin_op Frame_head (k\<lparr>k_stream := []\<rparr>))"
  have "set_connected (begin_op Frame_head (k\<lparr>k_stream := []\<rparr>)) =
      begin_op Frame_head (set_connected (k\<lparr>k_stream := []\<rparr>))"
    by (simp add: begin_op_def on_base_def)
  then have "stream_inv ?k" using assms by (simp add: busy_begin busy_connect)
  then have "stream_inv (on_base (\<lambda>s. s\<lparr>strand := strand s @ [Task_user_enter]\<rparr>) ?k)"
    by (rule busy_enter) simp
  moreover have "stream_inv (close_of t True k)" using assms(1) by (rule busy_close)
  ultimately show ?thesis
    by (auto simp: ws_handshake_write_def Let_def intro: mild_inv [OF _ mild_dealloc_outbound])
qed

lemma busy_keep_alive [simp]: "busy (on_base set_keep_alive_flag k) = busy k"
  by (simp add: busy_def core_ok_def leaves_def set_keep_alive_flag_def)

lemma connected_keep_alive [simp]: "is_connected (set_keep_alive_flag s) = is_connected s"
  by (simp add: set_keep_alive_flag_def)

lemma inv_ws_header:
  assumes "busy k"
  shows "stream_inv (ws_read_header (close_of t) ec bs k)"
proof -
  have "op_ok (Frame_payload (unat (w AND 127 :: u8)) f) s" for w f s
    using unat_byte_bound [of "w AND 127"] by simp
  with assms show ?thesis
    by (simp add: ws_read_header_def Let_def busy_close busy_idle busy_begin del: op_ok.simps(3))
qed

lemma take_2: "\<exists>a b. take 2 (xs @ replicate 2 0) = [a, b]"
proof -
  define ys where "ys = take 2 (xs @ replicate 2 0)"
  have "length ys = 2" by (simp add: ys_def)
  then show ?thesis unfolding ys_def [symmetric] by (auto simp: numeral_eq_Suc length_Suc_conv)
qed

lemma take_8: "\<exists>a b c d e f g h. take 8 (xs @ replicate 8 0) = [a, b, c, d, e, f, g, h]"
proof -
  define ys where "ys = take 8 (xs @ replicate 8 0)"
  have "length ys = 8" by (simp add: ys_def)
  then show ?thesis unfolding ys_def [symmetric] by (auto simp: numeral_eq_Suc length_Suc_conv)
qed

lemma frame_length_2: "frame_length [a, b] = Some (unat a * 256 + unat b)"
  by (simp add: shift_int_def)

lemma frame_length_8: "frame_length [a, b, c, d, e, f, g, h] = None"
  by (simp add: shift_int_def)

lemma inv_ws_126:
  assumes "busy k"
  shows "stream_inv (ws_read_header_126 (close_of t) f ec bs k)"
proof -
  obtain a b where ab: "take 2 ((k_stream k @ bs) @ replicate 2 0) = [a, b]"
    using take_2 by blast
  have "op_ok (Frame_payload (unat a * 256 + unat b) f) s" for s
    using unat_byte_bound [of a] unat_byte_bound [of b] unfolding op_ok.simps by linarith
  with assms show ?thesis
    unfolding ws_read_header_126_def Let_def conn.select_convs conn.update_convs
    by (simp add: ab frame_length_2 busy_close busy_idle busy_begin del: op_ok.simps(3) append_assoc take_append frame_length.simps)
qed

text \<open>The 64-bit length is computed with shifts that are not defined.\<close>

lemma ws_127_undefined:
  "ws_read_header_127 close f ec bs k =
    (let k0 = k\<lparr>k_stream := k_stream k @ bs\<rparr>
     in if ec \<noteq> None then close True k0
        else k0\<lparr>k_stream := drop 8 (k_stream k0), k_undefined := True\<rparr>)"
proof -
  obtain a b c d e f' g h where "take 8 ((k_stream k @ bs) @ replicate 8 0) = [a, b, c, d, e, f', g, h]"
    using take_8 by blast
  then show ?thesis
    by (simp add: ws_read_header_127_def Let_def frame_length_8 del: append_assoc take_append frame_length.simps)
qed

lemma inv_ws_127:
  assumes "busy k"
  shows "stream_inv (ws_read_header_127 (close_of t) f ec bs k)"
  using assms
  by (auto simp: ws_127_undefined Let_def busy_close) (auto simp: busy_def stream_inv_def)

lemma inv_ws_read:
  assumes "busy k"
  shows "stream_inv (fst (ws_read (close_of t) mem n f ec bs k)) \<and>
    (\<forall>x \<in> set (reader_ops (fst (ws_read (close_of t) mem n f ec bs k))). \<not> handshake_op x)"
proof (cases "stream_alloc_inbound mem (k\<lparr>k_stream := k_stream k @ bs\<rparr>)")
  case (Pair p k')
  have b: "busy k'" using busy_alloc(2) [OF _ Pair] assms by simp
  have r: "reader_ops k = []" "reader_ops k' = []" using assms b by (simp_all add: busy_def)
  show ?thesis
    using Pair assms b r
    by (cases p) (simp_all add: ws_read_def Let_def busy_close busy_idle busy_begin)
qed

lemma inv_frame_end:
  assumes "stream_inv (fst r)" "\<forall>x \<in> set (reader_ops (fst r)). \<not> handshake_op x"
  shows "stream_inv (frame_end (close_of t) is_enc ws_enc pmem (routing t is_enc h) r)"
proof -
  obtain k a where r: "r = (k, a)" by (cases r)
  show ?thesis
    using assms inv_route [of k t is_enc h] mild_inv [OF _ mild_pong, of k] unfolding r
    by (cases a) (simp_all add: frame_end_def)
qed

section \<open>Every step keeps it\<close>

lemma inv_task:
  assumes "stream_inv k" "strand (k_base k) = x # xs"
  shows "stream_inv (stream_task t is_enc calls x (on_base (\<lambda>s. s\<lparr>strand := xs\<rparr>) k))"
proof -
  let ?k = "on_base (\<lambda>s. s\<lparr>strand := xs\<rparr>) k"
  have nu: "\<not> untouched_conn k" using assms(2) by (simp add: untouched_conn_def)
  have i: "stream_inv (on_base f k)"
    if "core_ok (on_base f k)" "cur_inbound (f (k_base k)) = cur_inbound (k_base k)"
      "fault (f (k_base k)) = fault (k_base k)" "is_connected (f (k_base k)) = is_connected (k_base k)" for f
    using stream_inv_keeps [OF assms(1) that(1)] that nu by (simp add: keeps_reader_def)
  have emit: "stream_inv (on_base (\<lambda>s. emit ob (s\<lparr>strand := xs\<rparr>)) k)"
    if "(x = Task_user_enter \<and> ob = Obs_enter) \<or> (x = Task_user_leave \<and> ob = Obs_leave)" for ob
    using assms that by (intro i) (auto simp: stream_inv_def core_ok_def leaves_def writer_ok_def pools_ok_def)
  show ?thesis
  proof (cases x)
    case Task_user_enter
    with emit [of Obs_enter] mild_inv [OF _ mild_calls] show ?thesis by (simp add: on_base_def)
  next
    case Task_user_leave
    with emit [of Obs_leave] mild_inv [OF _ mild_calls] show ?thesis by (simp add: on_base_def)
  next
    case Task_close
    then have c: "core_ok ?k" "leaves ?k = 0"
      using assms by (auto simp: stream_inv_def core_ok_def leaves_def)
    have "keeps_reader k (close_task_of t ?k)" using nu by (simp add: keeps_reader_def)
    with Task_close stream_inv_keeps [OF assms(1) core_close_task(1) [OF c]] show ?thesis by simp
  next
    case (Task_send p)
    have c: "core_ok (on_base (\<lambda>s. s\<lparr>strand := xs\<rparr>) k)"
      using assms Task_send by (simp add: stream_inv_def core_ok_def leaves_def)
    have "keeps_reader k (on_base (send_task p) ?k)" using nu by (simp add: keeps_reader_def)
    with Task_send stream_inv_keeps [OF assms(1) core_send_task [OF c]] show ?thesis by simp
  next
    case (Task_fast_send p)
    with assms show ?thesis by (intro stream_inv_keeps [OF assms(1)])
        (auto simp: stream_inv_def core_ok_def leaves_def keeps_reader_def nu)
  qed
qed

lemma inv_write:
  assumes "stream_inv k" "writes (k_base k) = Write_queued p # ws"
  shows "stream_inv (stream_write (close_of t) ec (on_base (\<lambda>s. s\<lparr>writes := ws\<rparr>) k))"
proof -
  let ?k = "on_base (\<lambda>s. s\<lparr>writes := ws\<rparr>) k"
  let ?k1 = "if ec \<noteq> None then close_of t True ?k else ?k"
  obtain q where q: "outbound_q (k_base k) = p # q" "queued_writes ws = []"
    "queued_obs (trace (k_base k)) = write_obs (trace (k_base k)) @ q"
    using assms by (auto simp: stream_inv_def core_ok_def writer_ok_def)
  have ws: "ws = []"
    using assms q(2) by (cases ws) (auto simp: stream_inv_def core_ok_def)
  have nu: "\<not> untouched_conn k" using assms(2) by (simp add: untouched_conn_def)
  let ?k2 = "on_base (\<lambda>s. s\<lparr>outbound_q := q\<rparr>) ?k1"
  let ?k3 = "if ec = None \<and> q \<noteq> [] \<and> is_connected (k_base ?k2) then on_base async_write_front ?k2 else ?k2"
  have l: "leaves ?k1 \<le> 1"
  proof (cases ec)
    case None
    then show ?thesis using assms(1) by (simp add: stream_inv_def core_ok_def leaves_def)
  next
    case (Some e)
    have "leaves (close_of t True ?k) = leaves k"
      using close_task_of_cases [of t]
      by (auto simp: close_of_with close_with_def leaves_def tls_close_task_def close_task_def Let_def)
    with Some assms(1) show ?thesis by (simp add: stream_inv_def core_ok_def)
  qed
  have pools: "pools_ok (k_base ?k3)" "inbound_q (k_base ?k3) = []"
    using assms(1) by (auto simp: stream_inv_def core_ok_def pools_ok_def async_write_front_def
        split: list.split)
  have "writer_ok (k_base ?k3)" "\<forall>w \<in> set (writes (k_base ?k3)). \<exists>p. w = Write_queued p"
    using q ws by (auto simp: writer_ok_def async_write_front_def split: list.split)
  moreover have "leaves ?k3 \<le> 1"
    using l by (auto simp: leaves_def async_write_front_def split: list.split)
  ultimately have "core_ok ?k3" using pools unfolding core_ok_def by blast
  moreover have "keeps_reader k ?k3"
    using nu by (auto simp: keeps_reader_def async_write_front_def split: list.split)
  ultimately have "stream_inv ?k3" using stream_inv_keeps [OF assms(1)] by blast
  moreover have "stream_write (close_of t) ec ?k = on_base (session_dealloc_outbound p) ?k3"
    using q(1) by (simp add: stream_write_def Let_def)
  ultimately show ?thesis using mild_inv [OF _ mild_dealloc_outbound] by simp
qed

lemma inv_shutdown:
  assumes "stream_inv k" "k_ops k = xs @ Tls_shutdown # ys"
  shows "stream_inv (tls_shutdown_done (k\<lparr>k_ops := xs @ ys\<rparr>))"
proof -
  let ?k = "tls_shutdown_done (k\<lparr>k_ops := xs @ ys\<rparr>)"
  have s: "shutdowns k = Suc (shutdowns (k\<lparr>k_ops := xs @ ys\<rparr>))"
    and r: "reader_ops ?k = reader_ops k"
    using assms(2) by (simp_all add: shutdowns_def reader_ops_def tls_shutdown_done_def)
  have "core_ok ?k"
    using assms(1) s by (auto simp: stream_inv_def core_ok_def leaves_def tls_shutdown_done_def)
  moreover have "keeps_reader k ?k"
    using s r by (auto simp: keeps_reader_def untouched_conn_def tls_shutdown_done_def)
  ultimately show ?thesis by (rule stream_inv_keeps [OF assms(1)])
qed

lemma inv_start: "stream_inv (start_of t ip port (conn_new mems))"
proof -
  have p: "in_pool.pool_ok (snd (new_pools mems default_pool_size))"
    "out_pool.pool_ok (fst (new_pools mems default_pool_size))"
    using fill_pools_props [of mems 4]
    unfolding in_pool.pool_ok_def out_pool.pool_ok_def new_pools_def clamp_pool_size_def
    by (auto simp: pool_sizes)
  let ?k = "on_base (\<lambda>s. s\<lparr>socket_ip := ip, socket_port := port\<rparr>) (conn_new mems)"
  have "busy ?k" "untouched_conn ?k"
    using p by (auto simp: busy_def core_ok_def leaves_def conn_new_def session_new_def writer_ok_def
        pools_ok_def reader_ops_def shutdowns_def untouched_conn_def split: prod.split)
  then show ?thesis
    by (cases t) (simp_all add: ssl_start_def wss_start_def ws_start_def request_read_def busy_handshake)
qed

lemma inv_step:
  assumes "stream_step t is_enc ws_enc parse generate k k'" "stream_inv k"
  shows "stream_inv k'"
  using assms(1)
proof (cases rule: stream_step.cases)
  case (st_call c)
  then show ?thesis using mild_inv [OF assms(2) mild_call] by simp
next
  case (st_task x xs calls)
  then show ?thesis using inv_task [OF assms(2)] by simp
next
  case (st_write p ws ec)
  then show ?thesis using inv_write [OF assms(2)] by simp
next
  case (st_shutdown xs ys)
  then show ?thesis using inv_shutdown [OF assms(2)] by simp
next
  case (st_ssl_handshake xs ys mem ec)
  then show ?thesis using take_op [OF assms(2)] inv_ssl_handshake by simp
next
  case (st_ssl_header xs ys bs ec h mem)
  let ?k = "received (\<lambda>p. fill_header p bs) (k\<lparr>k_ops := xs @ ys\<rparr>)"
  have b: "busy ?k" using take_op(1) [OF assms(2)] st_ssl_header by (simp add: received_def)
  then have "reader_ops ?k = []" by (simp add: busy_def)
  with st_ssl_header inv_ssl_routed [OF inv_ssl_header [OF b] readers_ssl_reads(1)] show ?thesis by simp
next
  case (st_ssl_body xs n ys bs ec h mem)
  let ?k = "received (\<lambda>p. fill_body p bs) (k\<lparr>k_ops := xs @ ys\<rparr>)"
  have b: "busy ?k" using take_op(1) [OF assms(2)] st_ssl_body by (simp add: received_def)
  then have "reader_ops ?k = []" by (simp add: busy_def)
  with st_ssl_body inv_ssl_routed [OF inv_ssl_body [OF b] readers_ssl_reads(2)] show ?thesis by simp
next
  case (st_wss_handshake xs ys ec)
  then show ?thesis using take_op [OF assms(2)] inv_wss_handshake by simp
next
  case (st_request xs ys mem ec bs)
  with take_op(1,3) [OF assms(2) st_request(4)] show ?thesis
    by (simp add: inv_ws_handshake_read)
next
  case (st_response xs out response ys ec)
  then show ?thesis using take_op [OF assms(2)] inv_ws_handshake_write by simp
next
  case (st_frame_head xs ys bs ec)
  then show ?thesis using take_op(1) [OF assms(2)] inv_ws_header by simp
next
  case (st_frame_126 xs b ys bs ec)
  then show ?thesis using take_op(1) [OF assms(2)] inv_ws_126 by simp
next
  case (st_frame_127 xs b ys bs ec)
  then show ?thesis using take_op(1) [OF assms(2)] inv_ws_127 by simp
next
  case (st_frame xs n b ys bs ec pmem h mem)
  have "busy (k\<lparr>k_ops := xs @ ys\<rparr>)" using take_op(1) [OF assms(2) st_frame(4)] by simp
  from inv_ws_read [OF this] st_frame(1) inv_frame_end show ?thesis by blast
qed

lemma stream_reachable_inv:
  "stream_reachable t is_enc ws_enc parse generate k \<Longrightarrow> stream_inv k"
  by (induction rule: stream_reachable.induct) (auto intro: inv_start inv_step)

end
