(* ===== verification/StreamProps.thy ===== *)
theory StreamProps
  imports StreamStep Link
begin

text \<open>
  What holds of the TLS and WebSocket connections: the invariant of the reachable states, the
  packets that arrive in masked frames, and the frames on which the code leaves its contract.
\<close>

unbundle bit_operations_syntax

section \<open>Every reachable state\<close>


section \<open>Packets in frames\<close>

text \<open>A client's frame (RFC 6455): the byte with the final flag and the opcode, the length with
  the mask bit, the length of 16 bits if it is 126 or more, the mask, the masked payload.\<close>

definition masked :: "u8 list \<Rightarrow> u8 list \<Rightarrow> u8 list" where
  "masked key bs = map (\<lambda>i. (bs ! i) XOR (key ! (i mod 4))) [0..<length bs]"

definition frame_head :: "u8 \<Rightarrow> nat \<Rightarrow> u8 list" where
  "frame_head b n =
     (if n < 126 then [b, word_of_nat (128 + n)]
      else [b, 254, word_of_nat (n div 256), word_of_nat (n mod 256)])"

definition frame_bytes :: "u8 \<Rightarrow> u8 list \<Rightarrow> u8 list \<Rightarrow> u8 list" where
  "frame_bytes b key payload = frame_head b (length payload) @ key @ masked key payload"

lemma length_masked [simp]: "length (masked key bs) = length bs"
  by (simp add: masked_def)

lemma unmask_masked: "i < length bs \<Longrightarrow> unmask key i (masked key bs ! i) = bs ! i"
  by (simp add: masked_def unmask_def xor.assoc)

text \<open>The packet taken out of a frame is the packet that was put in.\<close>

lemma frame_packet_masked:
  assumes "length key = 4" "length hb = 16" "body \<noteq> []"
  shows "frame_packet (16 + length body) (key @ masked key (hb @ body)) p =
    fill_body (decide (fill_header (inbound_init p) hb)) body"
proof -
  let ?m = "masked key (hb @ body)"
  have t: "take (16 + length body) (drop 4 (key @ ?m)) = ?m" "take 4 (key @ ?m) = key"
    using assms(1,2) by simp_all
  have h: "map (\<lambda>i. unmask key i (?m ! i)) [0..<16] = hb"
    using assms(2) by (intro nth_equalityI) (simp_all add: unmask_masked nth_append)
  have "map (\<lambda>i. unmask key (i + 16) (?m ! (i + 16))) [0..<length body] = body"
    using assms(2) unmask_masked [of "_ + 16" "hb @ body" key]
    by (intro nth_equalityI) (simp_all add: nth_append)
  with t h assms(3) show ?thesis by (simp add: frame_packet_def Let_def)
qed

text \<open>What a frame's body writes stays inside the receive buffer.\<close>

lemma frame_body_fits:
  "4 + n \<le> packet_size_c \<Longrightarrow> header_size_c < n \<Longrightarrow> n - header_size_c \<le> raw_size_c"
  by simp

lemma low_bits_127:
  assumes "n < 128"
  shows "(word_of_nat (128 + n) :: u8) AND 127 = word_of_nat n" "unat (word_of_nat (128 + n) :: u8) = 128 + n"
proof -
  have u: "unat (word_of_nat (128 + n) :: u8) = 128 + n" using assms by (simp only: unat_of_nat) simp
  have "(127 :: u8) = mask 7" by (simp add: mask_eq_exp_minus_1)
  then have "(word_of_nat (128 + n) :: u8) AND 127 = take_bit 7 (word_of_nat (128 + n))"
    by (simp only: take_bit_eq_mask)
  moreover have "unat (take_bit 7 (word_of_nat (128 + n) :: u8)) =
      take_bit 7 (unat (word_of_nat (128 + n) :: u8))"
    by (rule unsigned_take_bit_eq)
  then have "unat (take_bit 7 (word_of_nat (128 + n) :: u8)) = n"
    using u assms unfolding u by (simp add: take_bit_eq_mod)
  moreover have "unat (word_of_nat n :: u8) = n" using assms by (simp only: unat_of_nat) simp
  ultimately have "unat ((word_of_nat (128 + n) :: u8) AND 127) = unat (word_of_nat n :: u8)" by simp
  then show "(word_of_nat (128 + n) :: u8) AND 127 = word_of_nat n" by (rule unsigned_word_eqI)
  show "unat (word_of_nat (128 + n) :: u8) = 128 + n" by (rule u)
qed

text \<open>A connection between two frames.\<close>

definition between_frames :: "conn \<Rightarrow> bool" where
  "between_frames k \<longleftrightarrow> stream_inv k \<and> is_connected (k_base k) \<and> sane k \<and> k_ops k = [Frame_head] \<and>
     k_stream k = []"

text \<open>The peer sends the bytes \<open>bs\<close>: the read in flight takes its bytes from the front, for at
  most \<open>n\<close> reads; the handler accepts every packet. What is left of the bytes is returned.\<close>

fun feed_frames :: "protocol_type \<Rightarrow> nat \<Rightarrow> u8 list \<Rightarrow> conn \<Rightarrow> conn \<times> u8 list" where
  "feed_frames t 0 bs k = (k, bs)"
| "feed_frames t (Suc n) bs k =
     (case k_ops k of
        [Frame_head] \<Rightarrow>
          if 2 \<le> length bs
          then feed_frames t n (drop 2 bs) (ws_read_header (close_of t) None (take 2 bs) (k\<lparr>k_ops := []\<rparr>))
          else (k, bs)
      | [Frame_length m b] \<Rightarrow>
          if m \<le> length bs
          then feed_frames t n (drop m bs)
                 ((if m = 2 then ws_read_header_126 else ws_read_header_127) (close_of t) b None
                    (take m bs) (k\<lparr>k_ops := []\<rparr>))
          else (k, bs)
      | [Frame_payload m b] \<Rightarrow>
          if 4 + m \<le> length bs
          then feed_frames t n (drop (4 + m) bs)
                 (frame_end (close_of t) (\<lambda>_. True) (\<lambda>p _. Some p) True (routing t (\<lambda>_. True) (Some True, []))
                    (ws_read (close_of t) True m b None (take (4 + m) bs) (k\<lparr>k_ops := []\<rparr>)))
          else (k, bs)
      | _ \<Rightarrow> (k, bs))"

text \<open>The header of a frame has been read.\<close>

definition after_head :: "nat \<Rightarrow> u8 \<Rightarrow> conn \<Rightarrow> conn" where
  "after_head n b k = k\<lparr>k_base := set_keep_alive_flag (k_base k), k_stream := [],
     k_ops := [Frame_payload n b]\<rparr>"

lemma feed_head_short:
  assumes "between_frames k" "n < 126"
  shows "feed_frames t (Suc m) (frame_head b n @ bs) k =
    feed_frames t m bs (after_head n b k)"
proof -
  have u: "unat (word_of_nat (128 + n) :: u8) = 128 + n"
    "unat ((word_of_nat (128 + n) :: u8) AND 127) = n"
    using low_bits_127 [of n] assms(2) by (simp_all only: unat_of_nat) simp_all
  show ?thesis
    using assms u
    by (simp add: between_frames_def frame_head_def ws_read_header_def Let_def begin_op_def on_base_def after_head_def
        set_keep_alive_flag_def del: of_nat_add)
qed

lemma feed_head_long:
  assumes "between_frames k" "126 \<le> n" "n < 65536"
  shows "feed_frames t (Suc (Suc m)) (frame_head b n @ bs) k =
    feed_frames t m bs (after_head n b k)"
proof -
  have u: "unat (254 AND 127 :: u8) = 126" by simp
  have d: "unat (word_of_nat (n div 256) :: u8) = n div 256" "unat (word_of_nat (n mod 256) :: u8) = n mod 256"
    using assms(3) by (simp_all only: unat_of_nat) (simp_all add: less_mult_imp_div_less)
  have l: "frame_length [word_of_nat (n div 256), word_of_nat (n mod 256)] = Some n"
    unfolding frame_length_2 d by simp
  show ?thesis
    using assms(1,2) u l
    by (simp add: between_frames_def frame_head_def ws_read_header_def ws_read_header_126_def Let_def
        begin_op_def on_base_def after_head_def set_keep_alive_flag_def del: frame_length.simps)
qed

lemma stream_alloc_inbound_True:
  "\<exists>q ps. stream_alloc_inbound True k = (Some q, on_base (\<lambda>s. s\<lparr>inbound_pool := ps\<rparr>) k)"
  using session_alloc_inbound_True [of "k_base k"]
  by (auto simp: stream_alloc_inbound_def on_base_def)

lemma feed_payload:
  assumes "between_frames k" "length key = 4" "length hb = 16" "body \<noteq> []"
    and "length body \<le> 65515" "opcode b \<noteq> 8" "opcode b \<noteq> 9"
  shows "\<exists>u p. (\<forall>m bs. feed_frames t (Suc m) (key @ masked key (hb @ body) @ bs)
      (after_head (16 + length body) b k) = feed_frames t m bs u) \<and> between_frames u \<and>
    trace (k_base u) = trace (k_base k) @ [Obs_route (fill_body (decide (fill_header (inbound_init p) hb)) body)]"
proof -
  let ?n = "16 + length body" and ?pay = "key @ masked key (hb @ body)"
  let ?k0 = "k\<lparr>k_base := set_keep_alive_flag (k_base k), k_stream := ?pay, k_ops := []\<rparr>"
  obtain p ps where p: "stream_alloc_inbound True ?k0 = (Some p, on_base (\<lambda>s. s\<lparr>inbound_pool := ps\<rparr>) ?k0)"
    using stream_alloc_inbound_True by blast
  let ?ib = "fill_body (decide (fill_header (inbound_init p) hb)) body"
  let ?k1 = "on_base (\<lambda>s. s\<lparr>inbound_pool := ps\<rparr>) (?k0\<lparr>k_stream := []\<rparr>)"
  let ?k2 = "begin_op Frame_head ?k1"
  have ne: "0 < length body" using assms(4) by simp
  have rd: "ws_read (close_of t) True ?n b None ?pay ((after_head ?n b k)\<lparr>k_ops := []\<rparr>) =
      (?k2, Route_frame ?ib)"
    using p assms(1-3,5-7) ne frame_packet_masked [OF assms(2-4), of p]
    by (cases k) (simp add: ws_read_def Let_def after_head_def between_frames_def on_base_def
        set_keep_alive_flag_def)
  have k0: "?k0 = (on_base set_keep_alive_flag (k\<lparr>k_ops := []\<rparr>))\<lparr>k_stream := ?pay\<rparr>"
    by (cases k) (simp add: on_base_def)
  have b0: "busy ?k0"
    unfolding k0 using take_op(1) [of k "[]" Frame_head "[]"] assms(1)
    by (simp add: between_frames_def)
  have b1: "busy ?k1"
    using busy_alloc(2) [OF b0 p] by (cases k) (simp add: on_base_def busy_def reader_ops_def core_ok_def leaves_def shutdowns_def)
  then have i2: "stream_inv ?k2" by (intro busy_begin) simp_all
  let ?u = "on_base (session_dealloc_inbound ?ib) (on_base (emit (Obs_route ?ib)) ?k2)"
  have c2: "core_ok ?k2" using i2 by (simp add: stream_inv_def)
  have rt: "frame_end (close_of t) (\<lambda>_. True) (\<lambda>p _. Some p) True
      (routing t (\<lambda>_. True) (Some True, [])) (?k2, Route_frame ?ib) = ?u"
    using route_Some [OF c2, of t "\<lambda>_. True" "(Some True, [])" ?ib]
    by (simp add: frame_end_def Let_def run_calls_def)
  have "stream_inv ?u"
    using inv_frame_end [of "(?k2, Route_frame ?ib)" t "\<lambda>_. True" "\<lambda>p _. Some p" True "(Some True, [])"]
      i2 b1 rt by (simp add: busy_def)
  then have "between_frames ?u"
    using assms(1) by (simp add: between_frames_def sane_def on_base_def begin_op_def
        session_dealloc_inbound_def emit_def set_keep_alive_flag_def)
  moreover have "trace (k_base ?u) = trace (k_base k) @ [Obs_route ?ib]"
    by (simp add: on_base_def begin_op_def session_dealloc_inbound_def emit_def set_keep_alive_flag_def)
  moreover have "feed_frames t (Suc m) (key @ masked key (hb @ body) @ bs) (after_head ?n b k) =
      feed_frames t m bs ?u" for m bs
    using rd rt assms(2,3) by (simp add: after_head_def)
  ultimately show ?thesis by blast
qed

lemma feed_frame:
  assumes "between_frames k" "packet_for m out" "length (snd m) \<le> 65515" "length key = 4"
    and "opcode b \<noteq> 8" "opcode b \<noteq> 9"
  shows "\<exists>u c. c \<le> 3 \<and> (\<forall>l bs. feed_frames t (c + l) (frame_bytes b key (wire out) @ bs) k =
      feed_frames t l bs u) \<and>
    between_frames u \<and> map content (routed (trace (k_base u))) =
      map content (routed (trace (k_base k))) @ [m]"
proof -
  note w = packet_for_wire [OF assms(2)]
  let ?hb = "take 16 (wire out)" and ?n = "16 + length (snd m)"
  have len: "length (wire out) = ?n" using arg_cong [OF w(1), of length] w(2) by simp
  have fb: "frame_bytes b key (wire out) = frame_head b ?n @ key @ masked key (?hb @ snd m)"
    unfolding frame_bytes_def len w(1) [symmetric] ..
  obtain u p where u: "\<And>l bs. feed_frames t (Suc l) (key @ masked key (?hb @ snd m) @ bs) (after_head ?n b k) =
      feed_frames t l bs u" "between_frames u"
    "trace (k_base u) = trace (k_base k) @ [Obs_route (fill_body (decide (fill_header (inbound_init p) ?hb)) (snd m))]"
    using feed_payload [OF assms(1,4) w(2,3) assms(3,5,6)] by blast
  have r: "map content (routed (trace (k_base u))) = map content (routed (trace (k_base k))) @ [m]"
    using u(3) w(5) by simp
  show ?thesis
  proof (cases "?n < 126")
    case True
    have "feed_frames t (2 + l) (frame_bytes b key (wire out) @ bs) k = feed_frames t l bs u" for l bs
      using feed_head_short [OF assms(1) True, of t "Suc l" b] u(1) by (simp add: fb del: feed_frames.simps)
    with u(2) r show ?thesis by (intro exI [of _ u] exI [of _ 2]) simp
  next
    case False
    have "feed_frames t (3 + l) (frame_bytes b key (wire out) @ bs) k = feed_frames t l bs u" for l bs
      using feed_head_long [OF assms(1), of ?n t "Suc l" b] False assms(3) u(1)
      by (simp add: fb numeral_3_eq_3 del: feed_frames.simps)
    with u(2) r show ?thesis by (intro exI [of _ u] exI [of _ 3]) simp
  qed
qed

lemma feed_frames_all:
  assumes "between_frames k"
    and "list_all2 (\<lambda>m (b, key, out). packet_for m out \<and> length (snd m) \<le> 65515 \<and> length key = 4 \<and>
      opcode b \<noteq> 8 \<and> opcode b \<noteq> 9) msgs frames"
  shows "\<exists>u n. n \<le> 3 * length frames \<and>
    feed_frames t n (concat (map (\<lambda>(b, key, out). frame_bytes b key (wire out)) frames)) k = (u, []) \<and>
    between_frames u \<and> map content (routed (trace (k_base u))) = map content (routed (trace (k_base k))) @ msgs"
  using assms(2,1)
proof (induction msgs frames arbitrary: k rule: list_all2_induct)
  case Nil
  then show ?case by (intro exI [of _ k] exI [of _ 0]) simp
next
  case (Cons m msgs f frames)
  obtain b key out where f: "f = (b, key, out)" by (cases f)
  obtain u c where u: "c \<le> 3" "\<And>l bs. feed_frames t (c + l) (frame_bytes b key (wire out) @ bs) k =
      feed_frames t l bs u" "between_frames u"
    "map content (routed (trace (k_base u))) = map content (routed (trace (k_base k))) @ [m]"
    using feed_frame [OF Cons.prems, of m out key b t] Cons.hyps(1) f by auto
  obtain v n where v: "n \<le> 3 * length frames"
    "feed_frames t n (concat (map (\<lambda>(b, key, out). frame_bytes b key (wire out)) frames)) u = (v, [])"
    "between_frames v"
    "map content (routed (trace (k_base v))) = map content (routed (trace (k_base u))) @ msgs"
    using Cons.IH [OF u(3)] by blast
  show ?case
    using u v f by (intro exI [of _ v] exI [of _ "c + n"]) simp
qed

text \<open>C12. When a WebSocket client's packets, each a body of 1 to 65515 bytes encoded under a packet id
  and masked into a frame of its own whose opcode is neither close nor ping, arrive as one byte
  stream at an open connection between two frames, the connection consumes the stream exactly,
  with at most three reads a frame, routes the packets in order with their ids and bodies, and is
  again open and between two frames.\<close>

theorem ws_framing:
  assumes "stream_reachable t is_enc ws_enc parse generate k" and "is_connected (k_base k)"
    and "sane k" and "k_ops k = [Frame_head]" and "k_stream k = []"
    and "list_all2 (\<lambda>(i, src, n) (b, key, out). 0 < n \<and> n \<le> 65515 \<and>
      encode outbound_new i (Some src) n = Some out \<and> length key = 4 \<and> opcode b \<noteq> 8 \<and> opcode b \<noteq> 9)
      msgs frames"
  shows "\<exists>u n. n \<le> 3 * length frames \<and>
    feed_frames t n (concat (map (\<lambda>(b, key, out). frame_bytes b key (wire out)) frames)) k = (u, []) \<and>
    is_connected (k_base u) \<and> sane u \<and> k_ops u = [Frame_head] \<and> k_stream u = [] \<and>
    map content (routed (trace (k_base u))) =
      map content (routed (trace (k_base k))) @ map (\<lambda>(i, src, n). (i, slice src 0 n)) msgs"
proof -
  have b: "between_frames k"
    using assms(1-5) stream_reachable_inv by (simp add: between_frames_def)
  have "list_all2 (\<lambda>m (b, key, out). packet_for m out \<and> length (snd m) \<le> 65515 \<and> length key = 4 \<and>
      opcode b \<noteq> 8 \<and> opcode b \<noteq> 9) (map (\<lambda>(i, src, n). (i, slice src 0 n)) msgs) frames"
    unfolding list_all2_map1 using assms(6)
    by (rule list_all2_mono) (fastforce simp: packet_for_def slice_def)
  from feed_frames_all [OF b this, of t] show ?thesis by (auto simp: between_frames_def)
qed

text \<open>A WebSocket connection after its handshake.\<close>

abbreviation demo_reachable :: "conn \<Rightarrow> bool" where
  "demo_reachable \<equiv> stream_reachable Protocol_ws (\<lambda>_. True) (\<lambda>p _. Some p) (\<lambda>_. Some ()) (\<lambda>_. Some [])"

definition demo_upgraded :: conn where
  "demo_upgraded =
     (let k = ws_start ''10.0.0.1'' 4000 (conn_new (\<lambda>_. (True, True)));
          k1 = ws_handshake_read ws_on_close (\<lambda>_. Some ()) (\<lambda>_. Some []) True None [13, 10, 13, 10] (k\<lparr>k_ops := []\<rparr>);
          out = outbound_init outbound_new
      in ws_handshake_write ws_on_close out None (k1\<lparr>k_ops := []\<rparr>))"

lemma single_handshake:
  "sane k \<Longrightarrow> is_ws t \<Longrightarrow> k_ops k = [Request_read] \<Longrightarrow> stream_step t is_enc ws_enc parse generate k
     (ws_handshake_read (close_of t) parse generate mem ec bs (k\<lparr>k_ops := []\<rparr>))"
  "sane k \<Longrightarrow> is_ws t \<Longrightarrow> k_ops k = [Response_write out r] \<Longrightarrow> stream_step t is_enc ws_enc parse generate k
     (ws_handshake_write (close_of t) out ec (k\<lparr>k_ops := []\<rparr>))"
  using st_request [of k t "[]" "[]"] st_response [of k t "[]" out r "[]"] by simp_all

lemma demo_upgraded: "demo_reachable demo_upgraded" "is_connected (k_base demo_upgraded)"
  "sane demo_upgraded" "k_ops demo_upgraded = [Frame_head]" "k_stream demo_upgraded = []"
  "trace (k_base demo_upgraded) = []"
proof -
  let ?k = "ws_start ''10.0.0.1'' 4000 (conn_new (\<lambda>_. (True, True)))"
  let ?k1 = "ws_handshake_read ws_on_close (\<lambda>_. Some ()) (\<lambda>_. Some []) True None [13, 10, 13, 10] (?k\<lparr>k_ops := []\<rparr>)"
  have k: "k_ops ?k = [Request_read]" "sane ?k" "trace (k_base ?k) = []"
    by (simp_all add: ws_start_def request_read_def begin_op_def on_base_def conn_new_def session_new_def
        sane_def split: prod.split)
  have k1: "k_ops ?k1 = [Response_write (outbound_init outbound_new) []]" "sane ?k1" "trace (k_base ?k1) = []"
    by (simp_all add: ws_handshake_read_def Let_def ws_start_def request_read_def begin_op_def on_base_def
        conn_new_def session_new_def new_pools_4 numeral_eq_Suc stream_alloc_outbound_def
        session_alloc_outbound_def alloc_outbound_def sane_def)
  have 0: "demo_reachable ?k" by (rule stream_start [of Protocol_ws, simplified])
  note step = single_handshake [of _ Protocol_ws, simplified is_ws_def close_of.simps, simplified]
  have 1: "demo_reachable ?k1" using stream_next [OF 0 step(1) [OF k(2,1)]] .
  show "demo_reachable demo_upgraded"
    unfolding demo_upgraded_def Let_def using stream_next [OF 1 step(2) [OF k1(2,1)]] .
  show "is_connected (k_base demo_upgraded)" "sane demo_upgraded" "k_ops demo_upgraded = [Frame_head]"
    "k_stream demo_upgraded = []" "trace (k_base demo_upgraded) = []"
    using k1 by (simp_all add: demo_upgraded_def ws_handshake_write_def Let_def begin_op_def on_base_def
        sane_def session_dealloc_outbound_def)
qed


theorem ws_framing_witness:
  "\<exists>u n. n \<le> 3 \<and> feed_frames Protocol_ws n
      (frame_bytes 130 [1, 2, 3, 4] (wire (the (encode outbound_new 1000 (Some zero_buffer) 8)))) demo_upgraded = (u, []) \<and>
     map content (routed (trace (k_base u))) = [(1000, replicate 8 0)]"
proof -
  obtain out where out: "encode outbound_new 1000 (Some zero_buffer) 8 = Some out"
    by (simp add: encode_Some Let_def)
  have "list_all2 (\<lambda>(i, src, n) (b, key, out). 0 < n \<and> n \<le> 65515 \<and>
      encode outbound_new i (Some src) n = Some out \<and> length key = 4 \<and> opcode b \<noteq> 8 \<and> opcode b \<noteq> 9)
      [(1000, zero_buffer, 8)] [(130, [1, 2, 3, 4 :: u8], out)]"
    using out by (simp add: opcode_def)
  from ws_framing [OF demo_upgraded(1-5) this] obtain u n where u: "n \<le> 3"
    "feed_frames Protocol_ws n (frame_bytes 130 [1, 2, 3, 4] (wire out)) demo_upgraded = (u, [])"
    "map content (routed (trace (k_base u))) = [(1000, slice zero_buffer 0 8)]"
    by (auto simp: demo_upgraded(6))
  moreover have "slice zero_buffer 0 8 = replicate 8 0"
    by (simp add: slice_def zero_buffer_def map_replicate_const)
  ultimately show ?thesis using out by (intro exI [of _ u] exI [of _ n]) simp
qed

section \<open>Where the code leaves its contract\<close>

text \<open>C35. A frame whose length does not fit 16 bits: on every open WebSocket connection between two
  frames ten received bytes, a header with the length 127 and its eight further bytes, whatever
  they are, lead to a shift of a 32-bit integer by 56 bits, which is not defined.\<close>

theorem long_frame_undefined:
  assumes "stream_reachable t is_enc ws_enc parse generate k" and "is_ws t"
    and "is_connected (k_base k)" and "sane k" and "k_ops k = [Frame_head]" and "k_stream k = []"
    and "length bs = 8"
  shows "\<exists>k1 k2. stream_step t is_enc ws_enc parse generate k k1 \<and>
    stream_step t is_enc ws_enc parse generate k1 k2 \<and> k_undefined k2 \<and>
    feed_frames t 2 (130 # 255 # bs) k = (k2, [])"
proof -
  let ?k1 = "ws_read_header (close_of t) None [130, 255] (k\<lparr>k_ops := []\<rparr>)"
  let ?k2 = "ws_read_header_127 (close_of t) 130 None bs (?k1\<lparr>k_ops := []\<rparr>)"
  have 1: "stream_step t is_enc ws_enc parse generate k ?k1"
    using st_frame_head [where xs = "[]" and ys = "[]" and k = k and ec = None and bs = "[130, 255]"] assms
    by simp
  have k1: "k_ops ?k1 = [Frame_length 8 130]" "sane ?k1" "k_stream ?k1 = []"
    using assms(3-6) by (simp_all add: ws_read_header_def Let_def begin_op_def on_base_def sane_def
        set_keep_alive_flag_def)
  have 2: "stream_step t is_enc ws_enc parse generate ?k1 ?k2"
    using st_frame_127 [where xs = "[]" and ys = "[]" and k = ?k1 and ec = None and bs = bs and b = 130]
      assms(2,7) k1 by simp
  have "k_undefined ?k2" by (simp add: ws_127_undefined Let_def)
  moreover have "feed_frames t 2 (130 # 255 # bs) k = (?k2, [])"
    using assms(5,7) k1(1) by (simp add: numeral_2_eq_2)
  ultimately show ?thesis using 1 2 by blast
qed

theorem long_frame_undefined_witness:
  "\<exists>k. feed_frames Protocol_ws 2 (130 # 255 # replicate 8 0) demo_upgraded = (k, []) \<and> k_undefined k"
  using long_frame_undefined [OF demo_upgraded(1) _ demo_upgraded(2-5), of "replicate 8 0"]
  by (auto simp: is_ws_def simp del: feed_frames.simps)

text \<open>A frame whose payload is shorter than a packet's header, such as a usual ping, pong or
  close, closes the connection; so does a payload above 65531 bytes.\<close>

lemma short_or_long_frame_closes:
  assumes "n < header_size_c \<or> packet_size_c < 4 + n" "length bs = 4 + n"
  shows "ws_read close mem n b None bs k = (close True (k\<lparr>k_stream := k_stream k @ bs\<rparr>), No_action)"
  using assms by (auto simp: ws_read_def Let_def)

text \<open>A TLS or HTTP handshake that fails reports the leave of a user that never entered.\<close>

lemma failed_handshake_leaves:
  assumes "\<not> is_connected (k_base k)"
  shows "k_ops (ssl_handshake mem (Some e) k) = k_ops k @ [Tls_shutdown] \<and>
    strand (k_base (tls_shutdown_done (ssl_handshake mem (Some e) k))) = strand (k_base k) @ [Task_user_leave] \<and>
    strand (k_base (ws_handshake_read ws_on_close parse generate mem (Some e) bs k)) =
      strand (k_base k) @ [Task_user_leave]"
  using assms
  by (simp add: ssl_handshake_def ssl_on_close_def close_with_def tls_close_task_def begin_op_def on_base_def
      tls_shutdown_done_def ws_handshake_read_def refuse_def ws_on_close_def close_task_def Let_def)

text \<open>A failed write of the upgrade response does not close: \<open>on_close\<close> returns at once.\<close>

lemma failed_response_stays_open:
  assumes "\<not> is_connected (k_base k)" "sock_open (k_base k)"
  shows "sock_open (k_base (ws_handshake_write ws_on_close out (Some e) k)) \<and>
    strand (k_base (ws_handshake_write ws_on_close out (Some e) k)) = strand (k_base k) \<and>
    k_ops (ws_handshake_write ws_on_close out (Some e) k) = k_ops k"
  using assms
  by (simp add: ws_handshake_write_def ws_on_close_def close_with_def on_base_def Let_def
      session_dealloc_outbound_def)

end
