(* ===== verification/StreamAcceptor.thy ===== *)
theory StreamAcceptor
  imports StreamProps
begin

text \<open>
  The acceptor of TLS connections (\<^verbatim>\<open>source/impl/network/server/ssl_acceptor.ipp\<close>), which gives its
  connections the TLS context, and how far an \<open>ssl_session\<close> is a \<open>tcp_session\<close>. As for the plain
  acceptor, the results of the operating system and of the heap are arguments; \<open>tl_started\<close>
  counts the calls of the handler's \<open>on_start\<close>.
\<close>

section \<open>ssl_acceptor\<close>

record tls_listener =
  tl_open :: bool
  tl_waiting :: bool
  tl_shutdown :: bool
  tl_port :: u16
  tl_started :: nat
  tl_crashed :: bool
  tl_conns :: "conn list"

definition tls_listener_new :: tls_listener where
  "tls_listener_new = \<lparr>tl_open = False, tl_waiting = False, tl_shutdown = False, tl_port = 0,
     tl_started = 0, tl_crashed = False, tl_conns = []\<rparr>"

definition ssl_listen_start :: "bool \<Rightarrow> bool \<Rightarrow> u16 \<Rightarrow> tls_listener \<Rightarrow> bool \<times> tls_listener" where
  "ssl_listen_start bind_ok mem port l =
     (let l0 = l\<lparr>tl_open := True\<rparr>
      in if \<not> bind_ok then (False, l0\<lparr>tl_open := False\<rparr>)
         else
           let l1 = l0\<lparr>tl_started := tl_started l0 + 1\<rparr>
           in if \<not> mem then (False, l1)
              else (True, l1\<lparr>tl_waiting := True, tl_port := port\<rparr>))"

text \<open>The completion of an accept; a connection accepted is started, which begins its TLS
  handshake.\<close>

definition ssl_accept ::
  "error_code option \<Rightarrow> bool \<Rightarrow> (nat \<Rightarrow> bool \<times> bool) \<Rightarrow> string \<Rightarrow> u16 \<Rightarrow> bool \<Rightarrow> tls_listener \<Rightarrow> tls_listener" where
  "ssl_accept ec options_ok mems ip port next_mem l =
     (let l0 = l\<lparr>tl_waiting := False\<rparr>
      in if ec = None \<and> \<not> options_ok then l0\<lparr>tl_crashed := True\<rparr>
         else
           let l1 = (if ec = None
                     then l0\<lparr>tl_conns := tl_conns l0 @ [ssl_start ip port (conn_new mems)]\<rparr>
                     else l0)
           in if tl_shutdown l1 then l1
              else if next_mem then l1\<lparr>tl_waiting := True\<rparr> else l1)"

text \<open>A port that is taken ends the listening with nothing started; otherwise the handler has
  been started before anything else can fail. A completed accept leaves the next one in flight
  unless the acceptor was stopped or an exception came between.\<close>

lemma ssl_listen_cases:
  "ssl_listen_start False mem port l = (False, l\<lparr>tl_open := False\<rparr>)"
  "tl_started (snd (ssl_listen_start True mem port l)) = tl_started l + 1"
  "fst (ssl_listen_start True mem port l) \<longleftrightarrow> mem"
  by (simp_all add: ssl_listen_start_def Let_def)

lemma ssl_accept_continues:
  "tl_waiting (ssl_accept ec options_ok mems ip port next_mem l) \<longleftrightarrow>
     (ec = None \<longrightarrow> options_ok) \<and> \<not> tl_shutdown l \<and> next_mem"
  by (auto simp: ssl_accept_def Let_def)

lemma ssl_accept_conns:
  "list_all (\<lambda>k. k_ops k = [Tls_handshake] \<and> \<not> is_connected (k_base k)) (tl_conns l) \<Longrightarrow>
   list_all (\<lambda>k. k_ops k = [Tls_handshake] \<and> \<not> is_connected (k_base k))
     (tl_conns (ssl_accept ec options_ok mems ip port next_mem l))"
  by (auto simp: ssl_accept_def Let_def ssl_start_def begin_op_def on_base_def conn_new_def session_new_def
      split: prod.split)

section \<open>ssl_session and tcp_session\<close>

text \<open>The state of a plain connection in a TLS one.\<close>

fun op_read :: "stream_op \<Rightarrow> read_op list" where
  "op_read Op_header = [Read_header]"
| "op_read (Op_body n) = [Read_body n]"
| "op_read x = []"

definition as_tcp :: "conn \<Rightarrow> session" where
  "as_tcp k = (k_base k)\<lparr>reads := concat (map op_read (k_ops k))\<rparr>"

lemma as_tcp_begin:
  "as_tcp (begin_op Op_header k) = async_read_header (as_tcp k)"
  "as_tcp (begin_body n k) = async_read_body n (as_tcp k)"
  by (auto simp: as_tcp_def begin_op_def begin_body_def async_read_header_def async_read_body_def Let_def
      on_base_def raise_fault_def)

lemma as_tcp_base:
  "(\<And>s r. f (s\<lparr>reads := r\<rparr>) = (f s)\<lparr>reads := r\<rparr>) \<Longrightarrow> as_tcp (on_base f k) = f (as_tcp k)"
  by (simp add: as_tcp_def on_base_def)

lemma as_tcp_alloc:
  "stream_alloc_inbound mem k = (p, k') \<Longrightarrow> session_alloc_inbound mem (as_tcp k) = (p, as_tcp k')"
  by (auto simp: stream_alloc_inbound_def session_alloc_inbound_def as_tcp_def split: prod.splits)

lemma as_tcp_fields [simp]:
  "cur_inbound (as_tcp k) = cur_inbound (k_base k)" "is_connected (as_tcp k) = is_connected (k_base k)"
  by (simp_all add: as_tcp_def)

lemma ssl_close_disconnects: "\<not> is_connected (k_base (ssl_on_close b k))"
  using close_base(1) [of Protocol_ssl b k] by simp

lemma next_header_as_tcp:
  assumes "is_connected (k_base (fst (ssl_next_header mem p k)))"
  shows "next_header mem p (as_tcp k) =
    (as_tcp (fst (ssl_next_header mem p k)), snd (ssl_next_header mem p k))"
proof -
  let ?k = "on_base (\<lambda>s. s\<lparr>cur_inbound := None\<rparr>) k"
  obtain q k' where q: "stream_alloc_inbound mem ?k = (q, k')" by fastforce
  have t: "session_alloc_inbound mem ((as_tcp k)\<lparr>cur_inbound := None\<rparr>) = (q, as_tcp k')"
    using as_tcp_alloc [OF q] by (simp add: as_tcp_base)
  show ?thesis
    using assms q t ssl_close_disconnects
    by (cases q) (simp_all add: ssl_next_header_def next_header_def Let_def as_tcp_begin as_tcp_base)
qed

lemma header_as_tcp:
  assumes "is_connected (k_base (fst (ssl_read_header mem ec n k)))"
  shows "read_header mem ec n (as_tcp k) =
    (as_tcp (fst (ssl_read_header mem ec n k)), snd (ssl_read_header mem ec n k))"
proof (cases "cur_inbound (k_base k)")
  case None
  then show ?thesis using assms ssl_close_disconnects by (simp add: ssl_read_header_def)
next
  case (Some p)
  let ?k = "on_base (\<lambda>s. (set_keep_alive_flag s)\<lparr>cur_inbound := Some (decide p)\<rparr>) k"
  have t: "(set_keep_alive_flag (as_tcp k))\<lparr>cur_inbound := Some (decide p)\<rparr> = as_tcp ?k"
    by (simp add: as_tcp_def on_base_def set_keep_alive_flag_def)
  have n: "is_connected (k_base (fst (ssl_next_header mem (decide p) ?k))) \<Longrightarrow>
      next_header mem (decide p) (as_tcp ?k) =
      (as_tcp (fst (ssl_next_header mem (decide p) ?k)), snd (ssl_next_header mem (decide p) ?k))"
    by (rule next_header_as_tcp)
  show ?thesis
    using assms Some ssl_close_disconnects n
    by (auto simp: ssl_read_header_def read_header_def Let_def t as_tcp_begin as_tcp_base split: if_splits)
qed

lemma body_as_tcp:
  assumes "is_connected (k_base (fst (ssl_read_body mem ec n k)))"
  shows "read_body mem ec n (as_tcp k) =
    (as_tcp (fst (ssl_read_body mem ec n k)), snd (ssl_read_body mem ec n k))"
  using assms ssl_close_disconnects next_header_as_tcp
  by (auto simp: ssl_read_body_def read_body_def body_decode_id split: option.splits if_splits)

text \<open>C14. Reading over TLS is reading over a plain socket: as long as a completed read of an
  \<open>ssl_session\<close> leaves it open, it has the effect of \<open>tcp_session\<close>'s on the same state, and
  finishes the same packet. (The two differ in \<open>on_close\<close>, and in that \<open>tcp_session\<close> runs
  \<open>body_decode\<close> on a body, which changes nothing.)\<close>

theorem ssl_reads_as_tcp:
  "(is_connected (k_base (fst (ssl_read_header mem ec n k))) \<longrightarrow>
      read_header mem ec n (as_tcp k) =
        (as_tcp (fst (ssl_read_header mem ec n k)), snd (ssl_read_header mem ec n k))) \<and>
   (is_connected (k_base (fst (ssl_read_body mem ec n k))) \<longrightarrow>
      read_body mem ec n (as_tcp k) =
        (as_tcp (fst (ssl_read_body mem ec n k)), snd (ssl_read_body mem ec n k)))"
  using header_as_tcp body_as_tcp by blast

text \<open>A TLS connection whose handshake is done reads its first header.\<close>

definition demo_tls :: conn where
  "demo_tls = (ssl_handshake True None (conn_new (\<lambda>_. (True, True))))\<lparr>k_ops := []\<rparr>"

lemma demo_tls: "is_connected (k_base demo_tls)" "cur_inbound (k_base demo_tls) = Some (inbound_init inbound_new)"
  by (simp_all add: demo_tls_def ssl_handshake_def stream_alloc_inbound_def session_alloc_inbound_def
      conn_new_def session_new_def new_pools_4 alloc_inbound_def numeral_eq_Suc Let_def on_base_def begin_op_def)

theorem ssl_reads_as_tcp_witness:
  "read_header True None 0 (as_tcp demo_tls) =
     (as_tcp (begin_op Op_header (on_base (\<lambda>s. s\<lparr>cur_inbound := Some (inbound_init (inbound_init inbound_new))\<rparr>) demo_tls)), None)"
  using ssl_reads_as_tcp [of True None 0 demo_tls] demo_tls by (simp add: ssl_read_header_def)

end
