(* ===== verification/Timer.thy ===== *)
theory Timer
  imports Store
begin

text \<open>
  The timers (\<^verbatim>\<open>source/impl/util/timer/{timer.cpp,timed_task_expansion.ipp}\<close>): \<open>repeat_task\<close>,
  which calls its function at an interval until the function returns false or it is stopped,
  and the one-shot tasks, \<open>timed_task\<close> with a set of timers and \<open>timed_task_expansion\<close> with
  a map of timers by key.

  asio's \<open>deadline_timer\<close> is the environment. A wait is pending until the time is up, then its
  handler is queued to run with success; cancelling a timer, setting its time again or
  destroying it makes its pending waits complete with \<open>operation_aborted\<close>, but does not reach
  a wait whose handler is already queued. The spin locks make each operation one step; a
  function that calls back into a task whose lock is held never returns (\<open>None\<close>).
\<close>

section \<open>Waits\<close>

datatype wait = Pending | Expired | Aborted

definition abort_pending :: "wait list \<Rightarrow> wait list" where
  "abort_pending ws = map (\<lambda>w. if w = Pending then Aborted else w) ws"

lemma abort_pending_props [simp]:
  "Pending \<notin> set (abort_pending ws)" "Expired \<in> set (abort_pending ws) \<longleftrightarrow> Expired \<in> set ws"
  "count_list (abort_pending ws) Pending = 0"
  by (auto simp: abort_pending_def count_list_0_iff split: if_splits intro: rev_image_eqI)

section \<open>repeat_task\<close>

record repeat_task =
  rt_interval :: nat
  rt_functor :: bool
  rt_waits :: "wait list"

definition rt_min_time :: nat where "rt_min_time = 10"

definition rt_default_time :: nat where "rt_default_time = 1000"

definition repeat_new :: repeat_task where
  "repeat_new = \<lparr>rt_interval = rt_default_time, rt_functor = False, rt_waits = []\<rparr>"

text \<open>\<open>_timer.expires_from_now\<close> and \<open>_timer.async_wait\<close>.\<close>

definition rt_wait :: "repeat_task \<Rightarrow> repeat_task" where
  "rt_wait t = t\<lparr>rt_waits := abort_pending (rt_waits t) @ [Pending]\<rparr>"

definition repeat_start :: "nat \<Rightarrow> bool \<Rightarrow> repeat_task \<Rightarrow> bool \<times> repeat_task" where
  "repeat_start expire func t =
     (if \<not> func \<or> rt_functor t then (False, t)
      else
        let e = (if expire < rt_min_time then rt_min_time else expire)
        in (True, rt_wait (t\<lparr>rt_interval := e, rt_functor := True\<rparr>)))"

definition repeat_stop :: "repeat_task \<Rightarrow> repeat_task" where
  "repeat_stop t =
     (if \<not> rt_functor t then t
      else t\<lparr>rt_waits := abort_pending (rt_waits t), rt_functor := False\<rparr>)"

definition is_running :: "repeat_task \<Rightarrow> bool" where
  "is_running t = rt_functor t"

text \<open>What the function does when it is called, under the task's lock: return a value, or call
  \<open>start\<close>, \<open>stop\<close> or \<open>is_running\<close> of the same task.\<close>

datatype functor_run = Returns bool | Reenters

definition repeat_handler :: "bool \<Rightarrow> functor_run \<Rightarrow> repeat_task \<Rightarrow> (bool \<times> repeat_task) option" where
  "repeat_handler error f t =
     (if error then Some (False, t)
      else if \<not> rt_functor t then Some (False, t)
      else case f of
        Reenters \<Rightarrow> None
      | Returns False \<Rightarrow> Some (True, t\<lparr>rt_functor := False\<rparr>)
      | Returns True \<Rightarrow> Some (True, rt_wait t))"

text \<open>Steps: the operations, the time of a pending wait running out, and a handler running.
  The flag says that the function was called.\<close>

inductive repeat_step :: "repeat_task \<Rightarrow> bool \<Rightarrow> repeat_task \<Rightarrow> bool" where
  rp_start: "repeat_step t False (snd (repeat_start expire func t))"
| rp_stop: "repeat_step t False (repeat_stop t)"
| rp_expire: "rt_waits t = xs @ Pending # ys \<Longrightarrow>
    repeat_step t False (t\<lparr>rt_waits := xs @ Expired # ys\<rparr>)"
| rp_handler: "rt_waits t = xs @ w # ys \<Longrightarrow> w \<noteq> Pending \<Longrightarrow>
    repeat_handler (w = Aborted) f (t\<lparr>rt_waits := xs @ ys\<rparr>) = Some (c, t') \<Longrightarrow> repeat_step t c t'"

inductive repeat_reachable :: "repeat_task \<Rightarrow> bool" where
  rr_new: "repeat_reachable repeat_new"
| rr_step: "repeat_reachable t \<Longrightarrow> repeat_step t c t' \<Longrightarrow> repeat_reachable t'"

text \<open>A running task waits, with at most one wait pending, for at least the minimum interval.\<close>

definition repeat_inv :: "repeat_task \<Rightarrow> bool" where
  "repeat_inv t \<longleftrightarrow>
     (rt_functor t \<longrightarrow> Pending \<in> set (rt_waits t) \<or> Expired \<in> set (rt_waits t)) \<and>
     count_list (rt_waits t) Pending \<le> 1 \<and> rt_min_time \<le> rt_interval t"

lemma repeat_inv_wait:
  "rt_min_time \<le> rt_interval t \<Longrightarrow> rt_functor t \<Longrightarrow> repeat_inv (rt_wait t)"
  by (auto simp: repeat_inv_def rt_wait_def)

lemma repeat_inv_step:
  assumes "repeat_step t c t'" "repeat_inv t"
  shows "repeat_inv t'"
  using assms(1)
proof (cases rule: repeat_step.cases)
  case (rp_handler xs w ys f)
  let ?t = "t\<lparr>rt_waits := xs @ ys\<rparr>"
  have min: "rt_min_time \<le> rt_interval ?t" using assms(2) by (simp add: repeat_inv_def)
  have count: "count_list (xs @ ys) Pending \<le> 1"
    using assms(2) rp_handler(1,2) by (simp add: repeat_inv_def)
  consider "t' = ?t" "w = Aborted \<or> \<not> rt_functor t" | "t' = ?t\<lparr>rt_functor := False\<rparr>"
    | "t' = rt_wait ?t" "rt_functor t"
    using rp_handler(2,3)
    by (auto simp: repeat_handler_def split: if_splits functor_run.splits bool.splits)
  then show ?thesis
  proof cases
    case 1
    then show ?thesis using assms(2) rp_handler(1,2) min count by (auto simp: repeat_inv_def)
  next
    case 2
    then show ?thesis using min count by (simp add: repeat_inv_def)
  next
    case 3
    then show ?thesis using repeat_inv_wait [of ?t] min by simp
  qed
qed (use assms(2) in \<open>auto simp: repeat_inv_def repeat_start_def repeat_stop_def rt_wait_def Let_def\<close>)

lemma repeat_reachable_inv: "repeat_reachable t \<Longrightarrow> repeat_inv t"
proof (induction rule: repeat_reachable.induct)
  case rr_new
  show ?case by (simp add: repeat_inv_def repeat_new_def rt_min_time_def rt_default_time_def)
next
  case (rr_step t c t')
  then show ?case using repeat_inv_step by blast
qed



section \<open>timed_task and timed_task_expansion\<close>

text \<open>A timer is a number. \<open>tk_map\<close> is the map from keys to timers (\<open>timed_task\<close> keeps a set:
  there the key is the timer itself), \<open>tk_waits\<close> the wait of each timer with its key, and
  \<open>tk_running\<close> the handlers whose function was called and that have not erased their key yet.
  \<open>tk_calls\<close> is the history of calls, by timer.\<close>

record timed =
  tk_map :: "(nat \<times> nat) list"
  tk_waits :: "(nat \<times> nat \<times> wait) list"
  tk_running :: "(nat \<times> nat) list"
  tk_next :: nat
  tk_calls :: "nat list"

definition timed_new :: timed where
  "timed_new = \<lparr>tk_map = [], tk_waits = [], tk_running = [], tk_next = 0, tk_calls = []\<rparr>"

text \<open>The timer is cancelled, or its last owner lets it go.\<close>

definition abort_timer :: "nat \<Rightarrow> (nat \<times> nat \<times> wait) list \<Rightarrow> (nat \<times> nat \<times> wait) list" where
  "abort_timer n ws =
     map (\<lambda>(i, k, w). if i = n \<and> w = Pending then (i, k, Aborted) else (i, k, w)) ws"

definition timed_invoke :: "nat \<Rightarrow> nat \<Rightarrow> bool \<Rightarrow> timed \<Rightarrow> bool \<times> timed" where
  "timed_invoke key expire func t =
     (if key = 0 \<or> expire = 0 \<or> \<not> func then (False, t)
      else case try_emplace key (tk_next t) (tk_map t) of
        (False, _) \<Rightarrow> (False, t)
      | (True, m) \<Rightarrow>
          (True, t\<lparr>tk_map := m, tk_waits := tk_waits t @ [(tk_next t, key, Pending)],
                   tk_next := Suc (tk_next t)\<rparr>))"

definition timed_cancel :: "nat \<Rightarrow> timed \<Rightarrow> timed" where
  "timed_cancel key t =
     (case map_of (tk_map t) key of
        None \<Rightarrow> t
      | Some n \<Rightarrow> t\<lparr>tk_waits := abort_timer n (tk_waits t), tk_map := erase_key key (tk_map t)\<rparr>)"

definition timed_cancel_all :: "timed \<Rightarrow> timed" where
  "timed_cancel_all t =
     t\<lparr>tk_waits := fold abort_timer (map snd (tk_map t)) (tk_waits t), tk_map := []\<rparr>"

text \<open>\<open>timed_task::invoke\<close> uses the fresh timer itself as the key, so it cannot collide.\<close>

definition timed_invoke_set :: "nat \<Rightarrow> bool \<Rightarrow> timed \<Rightarrow> bool \<times> timed" where
  "timed_invoke_set expire func t =
     (if expire = 0 \<or> \<not> func then (False, t)
      else (True, t\<lparr>tk_map := tk_map t @ [(Suc (tk_next t), tk_next t)],
                    tk_waits := tk_waits t @ [(tk_next t, Suc (tk_next t), Pending)],
                    tk_next := Suc (tk_next t)\<rparr>))"

text \<open>The handler of a completed wait: with an error it ends, and it ends when the timer is gone
  (its weak pointer is empty), else it calls the function; afterwards it erases the key, and with
  it whatever timer the key now names.\<close>

definition timed_handler :: "nat \<times> nat \<times> wait \<Rightarrow> timed \<Rightarrow> timed" where
  "timed_handler e t =
     (case e of (n, key, w) \<Rightarrow>
        if w = Aborted then t
        else if n \<notin> snd ` set (tk_map t) then t
        else t\<lparr>tk_running := tk_running t @ [(n, key)], tk_calls := tk_calls t @ [n]\<rparr>)"

definition timed_handler_end :: "nat \<times> nat \<Rightarrow> timed \<Rightarrow> timed" where
  "timed_handler_end e t =
     (case map_of (tk_map t) (snd e) of
        None \<Rightarrow> t
      | Some n \<Rightarrow>
          t\<lparr>tk_map := erase_key (snd e) (tk_map t), tk_waits := abort_timer n (tk_waits t)\<rparr>)"

inductive timed_step :: "timed \<Rightarrow> timed \<Rightarrow> bool" where
  tk_invoke: "timed_step t (snd (timed_invoke key expire func t))"
| tk_cancel: "timed_step t (timed_cancel key t)"
| tk_cancel_all: "timed_step t (timed_cancel_all t)"
| tk_expire: "tk_waits t = xs @ (n, key, Pending) # ys \<Longrightarrow>
    timed_step t (t\<lparr>tk_waits := xs @ (n, key, Expired) # ys\<rparr>)"
| tk_handler: "tk_waits t = xs @ (n, key, w) # ys \<Longrightarrow> w \<noteq> Pending \<Longrightarrow>
    timed_step t (timed_handler (n, key, w) (t\<lparr>tk_waits := xs @ ys\<rparr>))"
| tk_handler_end: "tk_running t = xs @ e # ys \<Longrightarrow>
    timed_step t (timed_handler_end e (t\<lparr>tk_running := xs @ ys\<rparr>))"

inductive timed_reachable :: "timed \<Rightarrow> bool" where
  tr_new: "timed_reachable timed_new"
| tr_step: "timed_reachable t \<Longrightarrow> timed_step t t' \<Longrightarrow> timed_reachable t'"

text \<open>Timers and keys are not shared; a timer that waits has not been called; every registered
  timer waits, or its function is being called.\<close>

definition map_ok :: "(nat \<times> nat) list \<Rightarrow> nat \<Rightarrow> bool" where
  "map_ok m nx \<longleftrightarrow> distinct (map fst m) \<and> distinct (map snd m) \<and> (\<forall>n \<in> snd ` set m. n < nx)"

definition waits_ok :: "nat list \<Rightarrow> nat \<Rightarrow> nat list \<Rightarrow> bool" where
  "waits_ok ids nx calls \<longleftrightarrow>
     distinct ids \<and> distinct calls \<and> set ids \<inter> set calls = {} \<and> (\<forall>n \<in> set ids \<union> set calls. n < nx)"

definition live :: "(nat \<times> nat \<times> wait) list \<Rightarrow> (nat \<times> nat) list \<Rightarrow> nat \<times> nat \<Rightarrow> bool" where
  "live ws rs e \<longleftrightarrow> (snd e, fst e, Pending) \<in> set ws \<or> (snd e, fst e, Expired) \<in> set ws \<or>
     (snd e, fst e) \<in> set rs"

definition timed_inv :: "timed \<Rightarrow> bool" where
  "timed_inv t \<longleftrightarrow> map_ok (tk_map t) (tk_next t) \<and>
     waits_ok (map fst (tk_waits t)) (tk_next t) (tk_calls t) \<and>
     fst ` set (tk_running t) \<subseteq> set (tk_calls t) \<and>
     (\<forall>e \<in> set (tk_map t). live (tk_waits t) (tk_running t) e)"

lemma abort_timer_props [simp]:
  "map fst (abort_timer n ws) = map fst ws"
  "(i, k, Expired) \<in> set (abort_timer n ws) \<longleftrightarrow> (i, k, Expired) \<in> set ws"
  "(i, k, Pending) \<in> set (abort_timer n ws) \<longleftrightarrow> i \<noteq> n \<and> (i, k, Pending) \<in> set ws"
  unfolding abort_timer_def by (induction ws) (auto split: if_splits)

lemma map_fst_abort_all [simp]: "map fst (fold abort_timer ns ws) = map fst ws"
  by (induction ns arbitrary: ws) simp_all

lemma map_ok_erase: "map_ok m nx \<Longrightarrow> map_ok (erase_key k m) nx"
  by (auto simp: map_ok_def erase_key_def distinct_map_filter)

lemma map_ok_same_timer: "map_ok m nx \<Longrightarrow> e \<in> set m \<Longrightarrow> d \<in> set m \<Longrightarrow> snd e = snd d \<Longrightarrow> e = d"
  unfolding map_ok_def distinct_map by (auto dest: inj_onD)

lemma waits_same_timer:
  "distinct (map fst ws) \<Longrightarrow> e \<in> set ws \<Longrightarrow> d \<in> set ws \<Longrightarrow> fst e = fst d \<Longrightarrow> e = d"
  unfolding distinct_map by (auto dest: inj_onD)

text \<open>Removing the entry of one key, with its timer's wait aborted, keeps the invariant, also
  when a finished handler of that key leaves the running ones.\<close>

lemma timed_inv_erase:
  assumes "timed_inv t" "map_of (tk_map t) key = Some n" "set rs \<subseteq> set (tk_running t)"
    and "\<forall>e \<in> set (tk_running t) - set rs. snd e = key"
  shows "timed_inv (t\<lparr>tk_running := rs, tk_map := erase_key key (tk_map t),
    tk_waits := abort_timer n (tk_waits t)\<rparr>)"
proof -
  have kn: "(key, n) \<in> set (tk_map t)" using assms(2) by (rule map_of_SomeD)
  have m: "map_ok (tk_map t) (tk_next t)" using assms(1) by (simp add: timed_inv_def)
  have "live (abort_timer n (tk_waits t)) rs e" if "e \<in> set (erase_key key (tk_map t))" for e
  proof -
    have e: "e \<in> set (tk_map t)" "fst e \<noteq> key" using that by (simp_all add: set_erase_key)
    then have "snd e \<noteq> n" using map_ok_same_timer [OF m e(1) kn] by (metis fst_conv snd_conv)
    moreover have "live (tk_waits t) (tk_running t) e" using assms(1) e(1) by (simp add: timed_inv_def)
    moreover have "(snd e, fst e) \<notin> set (tk_running t) - set rs" using assms(4) e(2) by (metis snd_conv)
    ultimately show ?thesis by (auto simp: live_def)
  qed
  moreover have "fst ` set rs \<subseteq> set (tk_calls t)"
    using assms(1) image_mono [OF assms(3), of fst] by (auto simp: timed_inv_def)
  ultimately show ?thesis using assms(1) map_ok_erase by (auto simp: timed_inv_def)
qed

lemma timed_inv_invoke: "timed_inv t \<Longrightarrow> timed_inv (snd (timed_invoke key expire func t))"
  by (auto simp: timed_invoke_def try_emplace_def timed_inv_def map_ok_def waits_ok_def live_def
      map_of_eq_None_iff less_Suc_eq)

lemma timed_inv_handler:
  assumes "timed_inv t" "tk_waits t = xs @ (n, key, w) # ys" "w \<noteq> Pending"
  shows "timed_inv (timed_handler (n, key, w) (t\<lparr>tk_waits := xs @ ys\<rparr>))"
proof -
  have ids: "waits_ok (map fst (xs @ ys)) (tk_next t) (tk_calls t)" "n \<notin> set (tk_calls t)" "n < tk_next t"
    "n \<notin> fst ` set (xs @ ys)"
    using assms(1,2) by (auto simp: timed_inv_def waits_ok_def)
  have unique: "(n, k, v) \<in> set (tk_waits t) \<Longrightarrow> k = key \<and> v = w" for k v
    using waits_same_timer [of "tk_waits t" "(n, k, v)" "(n, key, w)"] assms(1,2)
    by (auto simp: timed_inv_def waits_ok_def)
  have other: "live (xs @ ys) rs e" if "live (tk_waits t) rs e" "snd e \<noteq> n" for e rs
    using that assms(2) by (auto simp: live_def)
  have own: "w = Expired \<and> fst e = key" if "e \<in> set (tk_map t)" "snd e = n" for e
  proof -
    have "live (tk_waits t) (tk_running t) e" using assms(1) that(1) by (simp add: timed_inv_def)
    moreover have "(n, fst e) \<notin> set (tk_running t)"
      using assms(1) ids(2) by (force simp: timed_inv_def)
    ultimately show ?thesis
      using unique that(2) assms(3) by (auto simp: live_def)
  qed
  have l: "\<forall>e \<in> set (tk_map t). live (tk_waits t) (tk_running t) e"
    using assms(1) by (simp add: timed_inv_def)
  show ?thesis
  proof (cases "w \<noteq> Aborted \<and> n \<in> snd ` set (tk_map t)")
    case True
    have "live (xs @ ys) (tk_running t @ [(n, key)]) e" if "e \<in> set (tk_map t)" for e
      using own [OF that] other [of "tk_running t" e] l that
      by (cases "snd e = n") (auto simp: live_def)
    then show ?thesis
      using True assms(1) ids by (auto simp: timed_handler_def timed_inv_def waits_ok_def)
  next
    case False
    then have "n \<notin> snd ` set (tk_map t)" using own by (cases "w = Aborted") force+
    then have "live (xs @ ys) (tk_running t) e" if "e \<in> set (tk_map t)" for e
      using other l that by (metis image_eqI)
    then show ?thesis
      using False assms(1) ids by (auto simp: timed_handler_def timed_inv_def)
  qed
qed

lemma timed_inv_step:
  assumes "timed_step t t'" "timed_inv t"
  shows "timed_inv t'"
  using assms(1)
proof (cases rule: timed_step.cases)
  case (tk_invoke key expire func)
  then show ?thesis using timed_inv_invoke assms(2) by simp
next
  case (tk_cancel key)
  show ?thesis
  proof (cases "map_of (tk_map t) key")
    case None
    then show ?thesis using tk_cancel assms(2) by (simp add: timed_cancel_def)
  next
    case (Some n)
    have "t' = t\<lparr>tk_running := tk_running t, tk_map := erase_key key (tk_map t),
        tk_waits := abort_timer n (tk_waits t)\<rparr>"
      using tk_cancel Some by (simp add: timed_cancel_def)
    then show ?thesis using timed_inv_erase [OF assms(2) Some, of "tk_running t"] by simp
  qed
next
  case tk_cancel_all
  then show ?thesis using assms(2) by (simp add: timed_inv_def timed_cancel_all_def map_ok_def)
next
  case (tk_expire xs n key ys)
  then show ?thesis using assms(2) by (auto simp: timed_inv_def live_def)
next
  case (tk_handler xs n key w ys)
  then show ?thesis using timed_inv_handler assms(2) by simp
next
  case (tk_handler_end xs e ys)
  show ?thesis
  proof (cases "map_of (tk_map t) (snd e)")
    case None
    then have no: "snd e \<notin> fst ` set (tk_map t)" by (simp add: map_of_eq_None_iff)
    have "live (tk_waits t) (xs @ ys) d" if "d \<in> set (tk_map t)" for d
    proof -
      have "live (tk_waits t) (tk_running t) d" using assms(2) that by (simp add: timed_inv_def)
      moreover have "(snd d, fst d) \<noteq> e" using no that by auto
      ultimately show ?thesis using tk_handler_end(2) by (auto simp: live_def)
    qed
    then show ?thesis
      using tk_handler_end None assms(2) by (simp add: timed_handler_end_def timed_inv_def)
  next
    case (Some n)
    have "t' = t\<lparr>tk_running := xs @ ys, tk_map := erase_key (snd e) (tk_map t),
        tk_waits := abort_timer n (tk_waits t)\<rparr>"
      using tk_handler_end Some by (simp add: timed_handler_end_def)
    then show ?thesis
      using timed_inv_erase [OF assms(2) Some, of "xs @ ys"] tk_handler_end(2) by auto
  qed
qed



text \<open>A task registered while an older one with the same key is being called is lost: when the
  older handler ends it erases the key, whoever it names, so the new timer is destroyed and its
  wait aborted, although its registration succeeded and nobody cancelled it.\<close>

lemma timed_task_rearm_lost:
  assumes "key \<noteq> 0" and "expire \<noteq> 0" and "(n, key) \<in> set (tk_running t)"
    and "(True, t') = timed_invoke key expire True (timed_cancel key t)"
    and "t'' = timed_handler_end (n, key) t'"
  shows "map_of (tk_map t') key = Some (tk_next t) \<and> map_of (tk_map t'') key = None \<and>
    (tk_next t, key, Pending) \<notin> set (tk_waits t'')"
proof -
  let ?c = "timed_cancel key t"
  have "tk_next ?c = tk_next t" by (simp add: timed_cancel_def split: option.split)
  moreover have "map_of (tk_map ?c) key = None"
    by (simp add: timed_cancel_def split: option.split)
  ultimately have m: "map_of (tk_map t') key = Some (tk_next t)"
    using assms(1,2,4) by (simp add: timed_invoke_def try_emplace_def map_add_def split: option.splits)
  then show ?thesis using assms(5) by (simp add: timed_handler_end_def)
qed

theorem timed_task_rearm_lost_witness:
  "let t = \<lparr>tk_map = [(5, 0)], tk_waits = [], tk_running = [(0, 5)], tk_next = 1, tk_calls = [0]\<rparr>;
       t' = snd (timed_invoke 5 100 True (timed_cancel 5 t))
   in map_of (tk_map (timed_handler_end (0, 5) t')) 5 = None"
proof -
  let ?t = "\<lparr>tk_map = [(5, 0)], tk_waits = [], tk_running = [(0, 5)], tk_next = 1, tk_calls = [0]\<rparr>"
  have "(True, snd (timed_invoke 5 100 True (timed_cancel 5 ?t))) =
      timed_invoke 5 100 True (timed_cancel 5 ?t)"
    by (simp add: timed_invoke_def timed_cancel_def erase_key_def try_emplace_def)
  from timed_task_rearm_lost [OF _ _ _ this refl, of 0] show ?thesis by (simp add: Let_def)
qed

section \<open>The map of timers as a keyed store\<close>

interpretation timer_map: keyed_store "\<lambda>k m. map_of m k" try_emplace erase_key "\<lambda>k. k \<noteq> 0"
    "\<lambda>m. distinct (map fst m)"
  by unfold_locales (auto simp: map_of_try_emplace distinct_try_emplace distinct_erase_key)

end
