(* ===== verification/LogTool.thy ===== *)
theory LogTool
  imports Prelude
begin

text \<open>
  The log (\<open>log_tool\<close> in \<^verbatim>\<open>source/impl/{log_tool.h,log_tool.cpp}\<close>): the sinks its constructor
  makes, the single instance behind \<open>get_instance\<close>, and the macros that write to it. A record
  that is written is kept, with the sinks it went to; the time stamps and the record counter
  are left out. The text of a record is \<open>None\<close> when converting the logged format to text
  throws. \<open>debug\<close> tells the build with \<open>_DEBUG\<close> from the release build.
\<close>

section \<open>Severities\<close>

datatype severity = Sev_trace | Sev_debug | Sev_info | Sev_warning | Sev_error | Sev_fatal

fun severity_level :: "severity \<Rightarrow> nat" where
  "severity_level Sev_trace = 0"
| "severity_level Sev_debug = 1"
| "severity_level Sev_info = 2"
| "severity_level Sev_warning = 3"
| "severity_level Sev_error = 4"
| "severity_level Sev_fatal = 5"

fun severity_name :: "severity \<Rightarrow> string" where
  "severity_name Sev_trace = ''trace''"
| "severity_name Sev_debug = ''debug''"
| "severity_name Sev_info = ''info''"
| "severity_name Sev_warning = ''warning''"
| "severity_name Sev_error = ''error''"
| "severity_name Sev_fatal = ''fatal''"

text \<open>The cast back from the number, which the code uses up to \<open>fatal\<close> only.\<close>

definition severity_at :: "nat \<Rightarrow> severity" where
  "severity_at n = [Sev_trace, Sev_debug, Sev_info, Sev_warning, Sev_error, Sev_fatal] ! n"

lemma severity_level_inject [simp]: "severity_level a = severity_level b \<longleftrightarrow> a = b"
  by (cases a; cases b) simp_all

lemma severity_level_at [simp]: "n \<le> 5 \<Longrightarrow> severity_level (severity_at n) = n"
  by (auto simp: severity_at_def le_Suc_eq numeral_eq_Suc)

lemma severity_level_le: "severity_level a \<le> 5"
  by (cases a) simp_all

instantiation severity :: linorder
begin

definition less_eq_severity :: "severity \<Rightarrow> severity \<Rightarrow> bool" where
  "less_eq_severity a b \<longleftrightarrow> severity_level a \<le> severity_level b"

definition less_severity :: "severity \<Rightarrow> severity \<Rightarrow> bool" where
  "less_severity a b \<longleftrightarrow> severity_level a < severity_level b"

instance
  by standard (auto simp: less_eq_severity_def less_severity_def)

end

section \<open>Sinks\<close>

text \<open>A file sink has its file name pattern, its directory and the only severity it takes. The
  default sink is the library's, for when no sink is registered.\<close>

datatype sink = File_sink string string severity | Console_sink severity | Debugger_sink | Default_sink

fun sink_accepts :: "sink \<Rightarrow> severity \<Rightarrow> bool" where
  "sink_accepts (File_sink _ _ l) s \<longleftrightarrow> s = l"
| "sink_accepts (Console_sink l) s \<longleftrightarrow> l \<le> s"
| "sink_accepts Debugger_sink s \<longleftrightarrow> Sev_trace \<le> s"
| "sink_accepts Default_sink s \<longleftrightarrow> True"

definition log_file_name :: "string \<Rightarrow> severity \<Rightarrow> string" where
  "log_file_name key s =
     (if key = [] then severity_name s @ ''_'' else key @ ''_'' @ severity_name s @ ''_'') @ ''%Y%m%d_%5N.log''"

definition log_file_sink :: "string \<Rightarrow> string \<Rightarrow> severity \<Rightarrow> sink" where
  "log_file_sink key path s = File_sink (log_file_name key s) (path @ [CHR 0x5C] @ severity_name s) s"

function file_sinks :: "string \<Rightarrow> string \<Rightarrow> nat \<Rightarrow> sink list" where
  "file_sinks key path lvl =
     (if severity_level Sev_fatal < lvl then []
      else log_file_sink key path (severity_at lvl) # file_sinks key path (lvl + 1))"
  by pat_completeness auto
termination
  by (relation "measure (\<lambda>(key, path, lvl). 6 - lvl)") auto

declare file_sinks.simps [simp del]

section \<open>The instance\<close>

datatype log_text = Narrow string | Wide "u16 list"

record log_core =
  lc_sinks :: "sink list"
  lc_written :: "(sink \<times> severity \<times> log_text) list"

text \<open>\<open>None\<close> is an exception.\<close>

definition log_tool_new :: "bool \<Rightarrow> string \<Rightarrow> string \<Rightarrow> severity \<Rightarrow> bool \<Rightarrow> log_core option" where
  "log_tool_new debug key path lvl console =
     (if path = [] then None
      else Some \<lparr>lc_sinks = file_sinks key path (severity_level lvl) @
                   (if console then [Console_sink lvl] else []) @ (if debug then [Debugger_sink] else []),
                 lc_written = []\<rparr>)"

definition get_log_tool ::
  "bool \<Rightarrow> string \<Rightarrow> string \<Rightarrow> severity \<Rightarrow> bool \<Rightarrow> log_core option \<Rightarrow> log_core option" where
  "get_log_tool debug key path lvl console inst =
     (case inst of None \<Rightarrow> log_tool_new debug key path lvl console | Some c \<Rightarrow> Some c)"

definition log_stop :: "log_core \<Rightarrow> log_core" where
  "log_stop c = c\<lparr>lc_sinks := []\<rparr>"

text \<open>A record is opened only if a sink takes it, and only then is its text made.\<close>

definition log_write :: "severity \<Rightarrow> log_text option \<Rightarrow> log_core \<Rightarrow> log_core option" where
  "log_write s msg c =
     (let ss = filter (\<lambda>k. sink_accepts k s) (if lc_sinks c = [] then [Default_sink] else lc_sinks c)
      in if ss = [] then Some c
         else case msg of
           None \<Rightarrow> None
         | Some m \<Rightarrow> Some (c\<lparr>lc_written := lc_written c @ map (\<lambda>k. (k, s, m)) ss\<rparr>))"

section \<open>The macros\<close>

text \<open>The trace and debug macros are empty in the release build. The others call \<open>get_instance\<close>
  with its default arguments; an exception leaves no instance.\<close>

definition log_compiled :: "bool \<Rightarrow> severity \<Rightarrow> bool" where
  "log_compiled debug s \<longleftrightarrow> debug \<or> Sev_info \<le> s"

definition log_macro :: "bool \<Rightarrow> severity \<Rightarrow> log_text option \<Rightarrow> log_core option \<Rightarrow> log_core option option" where
  "log_macro debug s msg inst =
     (if \<not> log_compiled debug s then Some inst
      else case get_log_tool debug [] [] (if debug then Sev_trace else Sev_info) False inst of
        None \<Rightarrow> None
      | Some c \<Rightarrow> map_option Some (log_write s msg c))"

lemma log_macro_unset: "log_macro debug s msg None = (if log_compiled debug s then None else Some None)"
  by (simp add: log_macro_def get_log_tool_def log_tool_new_def)

section \<open>Where a record goes\<close>

lemma file_sinks_eq: "n \<le> 6 \<Longrightarrow> file_sinks key path n = map (log_file_sink key path \<circ> severity_at) [n..<6]"
proof (induction "6 - n" arbitrary: n)
  case 0
  then have "n = 6" by simp
  then show ?case by (simp add: file_sinks.simps [of key path 6])
next
  case (Suc k)
  then have "[n..<6] = n # [Suc n..<6]" "n \<le> 5" by (simp_all add: upt_conv_Cons)
  then show ?case
    using Suc.hyps(1) [of "Suc n"] Suc.hyps(2) by (simp add: file_sinks.simps [of key path n])
qed

lemma filter_upt_single: "filter ((=) k) [n..<m] = (if n \<le> k \<and> k < m then [k] else [])"
  by (induction m) auto

lemma file_sinks_accepting:
  "filter (\<lambda>k. sink_accepts k s) (file_sinks key path (severity_level lvl)) =
     (if lvl \<le> s then [log_file_sink key path s] else [])"
proof -
  have "sink_accepts (log_file_sink key path (severity_at n)) s \<longleftrightarrow> severity_level s = n" if "n < 6" for n
    using that severity_level_at [of n] by (auto simp: log_file_sink_def simp del: severity_level_inject
        simp flip: severity_level_inject)
  then have "filter (\<lambda>n. sink_accepts (log_file_sink key path (severity_at n)) s) [severity_level lvl..<6] =
      filter ((=) (severity_level s)) [severity_level lvl..<6]"
    by (intro filter_cong) auto
  then have "filter (\<lambda>k. sink_accepts k s) (file_sinks key path (severity_level lvl)) =
      map (log_file_sink key path \<circ> severity_at) (filter ((=) (severity_level s)) [severity_level lvl..<6])"
    using severity_level_le [of lvl] by (simp add: file_sinks_eq filter_map comp_def)
  moreover have "severity_at (severity_level s) = s"
    using severity_level_at [OF severity_level_le [of s]] by (simp only: severity_level_inject)
  ultimately show ?thesis
    using severity_level_le [of s] by (simp add: filter_upt_single less_eq_severity_def)
qed

text \<open>Where a record goes: until \<open>get_instance\<close> is first called with a path, every call of a
  macro that is compiled in throws; that call decides the sinks for good; from then on a
  record is written to exactly one file, that of its severity under the path, if it is at
  least as severe as the level, and to no file otherwise; to the console exactly when the
  level lets it pass and the console is on; and a text that cannot be made throws exactly
  when some sink would have taken the record.\<close>

lemma log_record_routed:
  assumes "path \<noteq> []"
  shows "(log_compiled debug s \<longrightarrow> log_macro debug s msg None = None) \<and>
    (\<exists>c. get_log_tool debug key path lvl console None = Some c \<and>
       get_log_tool debug' key' path' lvl' console' (Some c) = Some c \<and>
       (log_compiled debug s \<longrightarrow>
          log_macro debug s (Some m) (Some c) =
            Some (Some (c\<lparr>lc_written := map (\<lambda>k. (k, s, m))
              ((if lvl \<le> s then log_file_sink key path s # (if console then [Console_sink lvl] else []) else []) @
               (if debug then [Debugger_sink] else []))\<rparr>)) \<and>
          (log_macro debug s None (Some c) = None \<longleftrightarrow> lvl \<le> s \<or> debug)))"
proof -
  let ?c = "\<lparr>lc_sinks = file_sinks key path (severity_level lvl) @
      (if console then [Console_sink lvl] else []) @ (if debug then [Debugger_sink] else []), lc_written = []\<rparr>"
  have new: "get_log_tool debug key path lvl console None = Some ?c"
    using assms by (simp add: get_log_tool_def log_tool_new_def)
  have "Sev_trace \<le> s" by (simp add: less_eq_severity_def)
  have "file_sinks key path (severity_level lvl) \<noteq> []"
    using severity_level_le [of lvl] by (simp add: file_sinks.simps [of key path "severity_level lvl"])
  then have sinks: "filter (\<lambda>k. sink_accepts k s) (if lc_sinks ?c = [] then [Default_sink] else lc_sinks ?c) =
      (if lvl \<le> s then log_file_sink key path s # (if console then [Console_sink lvl] else []) else []) @
      (if debug then [Debugger_sink] else [])"
    using \<open>Sev_trace \<le> s\<close> by (simp add: file_sinks_accepting)
  have written: "log_write s x ?c = (let ss = (if lvl \<le> s then log_file_sink key path s #
        (if console then [Console_sink lvl] else []) else []) @ (if debug then [Debugger_sink] else [])
      in if ss = [] then Some ?c else case x of None \<Rightarrow> None
         | Some t \<Rightarrow> Some (?c\<lparr>lc_written := lc_written ?c @ map (\<lambda>k. (k, s, t)) ss\<rparr>))" for x
    unfolding log_write_def sinks ..
  have "log_macro debug s (Some m) (Some ?c) = Some (Some (?c\<lparr>lc_written := map (\<lambda>k. (k, s, m))
      ((if lvl \<le> s then log_file_sink key path s # (if console then [Console_sink lvl] else []) else []) @
       (if debug then [Debugger_sink] else []))\<rparr>))" if "log_compiled debug s"
    using that written [of "Some m"] unfolding log_macro_def by (simp add: get_log_tool_def)
  moreover have "log_macro debug s None (Some ?c) = None \<longleftrightarrow> lvl \<le> s \<or> debug" if "log_compiled debug s"
    using that written [of None] unfolding log_macro_def by (simp add: get_log_tool_def)
  ultimately show ?thesis
    using new by (intro conjI exI [of _ ?c]) (simp_all add: log_macro_unset get_log_tool_def)
qed

theorem log_record_routed_witness:
  "log_macro False Sev_error (Some (Narrow ''e''))
     (get_log_tool False ''k'' ''p'' Sev_info True None) =
   Some (map_option (\<lambda>c. c\<lparr>lc_written :=
     [(File_sink ''k_error_%Y%m%d_%5N.log'' (''p'' @ [CHR 0x5C] @ ''error'') Sev_error, Sev_error, Narrow ''e''),
      (Console_sink Sev_info, Sev_error, Narrow ''e'')]\<rparr>) (get_log_tool False ''k'' ''p'' Sev_info True None))"
proof -
  from log_record_routed [of "''p''" False Sev_error None "''k''" Sev_info True False "[]" "[]" Sev_info False "Narrow ''e''"]
  show ?thesis
    by (auto simp: log_compiled_def less_eq_severity_def log_file_sink_def log_file_name_def)
qed

end
