(* ===== verification/Service.thy ===== *)
theory Service
  imports LogTool
begin

text \<open>
  The process around the server (\<^verbatim>\<open>project/server/common.cpp\<close>, \<^verbatim>\<open>game_server.cpp\<close>): the
  Windows service with its control handler, and the start of a server instance with its
  options from the command line and the option file.

  Parameters stand for what the code calls: the parsers of boost (program_options, json,
  lexical_cast), the files, and the results of the Windows functions. The reports to the
  service manager are kept in order in \<open>reports\<close>.
\<close>

section \<open>The service\<close>

definition service_stopped :: u32 where "service_stopped = 1"
definition service_start_pending :: u32 where "service_start_pending = 2"
definition service_stop_pending :: u32 where "service_stop_pending = 3"
definition service_running :: u32 where "service_running = 4"
definition service_continue_pending :: u32 where "service_continue_pending = 5"
definition service_pause_pending :: u32 where "service_pause_pending = 6"
definition service_paused :: u32 where "service_paused = 7"

definition control_stop :: u32 where "control_stop = 1"
definition control_pause :: u32 where "control_pause = 2"
definition control_continue :: u32 where "control_continue = 3"
definition control_interrogate :: u32 where "control_interrogate = 4"

text \<open>\<open>SERVICE_ACCEPT_STOP | SERVICE_ACCEPT_PAUSE_CONTINUE\<close>\<close>

definition accept_default :: u32 where "accept_default = 3"

lemmas service_codes =
  service_stopped_def service_start_pending_def service_stop_pending_def service_running_def
  service_continue_pending_def service_pause_pending_def service_paused_def
  control_stop_def control_pause_def control_continue_def control_interrogate_def accept_default_def

text \<open>\<open>exit_event\<close> is \<open>None\<close> until the event is created, then says whether it is signalled.\<close>

record service =
  sv_state :: u32
  sv_is_pause :: bool
  exit_event :: "bool option"
  reports :: "(u32 \<times> u32) list"

definition service_new :: service where
  "service_new = \<lparr>sv_state = 0, sv_is_pause = False, exit_event = None, reports = []\<rparr>"

definition set_status :: "u32 \<Rightarrow> u32 \<Rightarrow> service \<Rightarrow> service" where
  "set_status state accept s = s\<lparr>sv_state := state, reports := reports s @ [(state, accept)]\<rparr>"

text \<open>\<open>SetEvent\<close> on a null handle fails, and its result is not looked at.\<close>

definition set_event :: "service \<Rightarrow> service" where
  "set_event s = (case exit_event s of None \<Rightarrow> s | Some _ \<Rightarrow> s\<lparr>exit_event := Some True\<rparr>)"

definition service_handler :: "u32 \<Rightarrow> service \<Rightarrow> service" where
  "service_handler control s =
     (if control = sv_state s then s
      else if control = control_pause then
        set_status service_paused accept_default
          ((set_status service_pause_pending 0 s)\<lparr>sv_is_pause := True\<rparr>)
      else if control = control_continue then
        set_status service_running accept_default
          ((set_status service_continue_pending 0 s)\<lparr>sv_is_pause := False\<rparr>)
      else if control = control_stop then set_event (set_status service_stop_pending 0 s)
      else set_status (sv_state s) accept_default s)"

text \<open>The phases of \<open>service_main\<close>, between which the control handler may run: up to the call of
  \<open>on_create\<close>, from its return to the wait, and from the wait's end.\<close>

definition service_main_begin :: "bool \<Rightarrow> service \<Rightarrow> service option" where
  "service_main_begin registered s =
     (if \<not> registered then None
      else Some ((set_status service_start_pending accept_default s)\<lparr>sv_is_pause := False\<rparr>))"

definition service_main_created :: "bool \<Rightarrow> bool \<Rightarrow> service \<Rightarrow> bool \<times> service" where
  "service_main_created created event_ok s =
     (if \<not> created then (False, set_status service_stopped accept_default s)
      else if \<not> event_ok then (False, s\<lparr>exit_event := None\<rparr>)
      else (True, set_status service_running accept_default (s\<lparr>exit_event := Some False\<rparr>)))"

text \<open>The wait returns when the event is signalled; then \<open>on_destroy\<close> runs.\<close>

definition service_main_end :: "service \<Rightarrow> service option" where
  "service_main_end s =
     (if exit_event s = Some True then Some (set_status service_stopped accept_default s) else None)"

datatype phase = Creating | Waiting | Finished

inductive service_step :: "phase \<times> service \<Rightarrow> phase \<times> service \<Rightarrow> bool" where
  sv_created: "service_main_created c e s = (True, s') \<Longrightarrow> service_step (Creating, s) (Waiting, s')"
| sv_failed: "service_main_created c e s = (False, s') \<Longrightarrow> service_step (Creating, s) (Finished, s')"
| sv_end: "service_main_end s = Some s' \<Longrightarrow> service_step (Waiting, s) (Finished, s')"
| sv_control: "service_step (p, s) (p, service_handler control s)"

inductive service_reachable :: "phase \<times> service \<Rightarrow> bool" where
  sr_begin: "service_main_begin True service_new = Some s \<Longrightarrow> service_reachable (Creating, s)"
| sr_next: "service_reachable x \<Longrightarrow> service_step x y \<Longrightarrow> service_reachable y"

definition service_inv :: "phase \<times> service \<Rightarrow> bool" where
  "service_inv x \<longleftrightarrow> reports (snd x) \<noteq> [] \<and> fst (last (reports (snd x))) = sv_state (snd x) \<and>
     (fst x = Creating \<longrightarrow> exit_event (snd x) = None) \<and> (fst x = Waiting \<longrightarrow> exit_event (snd x) \<noteq> None)"

lemma service_inv_step: "service_step x y \<Longrightarrow> service_inv x \<Longrightarrow> service_inv y"
  by (cases rule: service_step.cases)
    (auto simp: service_inv_def service_main_created_def service_main_end_def service_handler_def
      set_event_def set_status_def split: if_splits option.splits)

lemma service_reachable_inv: "service_reachable x \<Longrightarrow> service_inv x"
proof (induction rule: service_reachable.induct)
  case (sr_begin s)
  then show ?case
    by (simp add: service_inv_def service_main_begin_def service_new_def set_status_def) force
next
  case (sr_next x y)
  then show ?case using service_inv_step by blast
qed


definition demo_service :: service where
  "demo_service = \<lparr>sv_state = 4, sv_is_pause = False, exit_event = Some False, reports = [(2, 3), (4, 3)]\<rparr>"

lemma service_reachable_creating: "service_reachable (Creating, service_new\<lparr>sv_state := 2, reports := [(2, 3)]\<rparr>)"
  by (rule sr_begin) (simp add: service_main_begin_def set_status_def service_new_def service_codes)

lemma service_reachable_demo: "service_reachable (Waiting, demo_service)"
  by (rule sr_next [OF service_reachable_creating sv_created, of True True])
    (simp add: service_main_created_def set_status_def service_new_def demo_service_def service_codes)


text \<open>A stop that arrives while the instance is being created is lost: the state reported
  before \<open>on_create\<close> accepts stops, but the exit event does not exist yet, so setting it fails
  silently; the service then reports running, its exit event unsignalled.\<close>

lemma early_stop_lost:
  "\<exists>s t. service_reachable (Creating, s) \<and> sv_state s = service_start_pending \<and>
     last (reports s) = (service_start_pending, accept_default) \<and>
     service_reachable (Waiting, t) \<and>
     service_main_created True True (service_handler control_stop s) = (True, t) \<and>
     sv_state t = service_running \<and> service_main_end t = None"
proof -
  let ?s = "service_new\<lparr>sv_state := 2, reports := [(2, 3)]\<rparr>"
  obtain t where t: "service_main_created True True (service_handler control_stop ?s) = (True, t)"
    "sv_state t = service_running" "service_main_end t = None"
    by (simp add: service_main_created_def service_handler_def set_status_def set_event_def
        service_main_end_def service_new_def service_codes)
  have "service_reachable (Waiting, t)"
    using sr_next [OF sr_next [OF service_reachable_creating sv_control] sv_created [OF t(1)]] .
  with t service_reachable_creating show ?thesis
    by (intro exI [of _ ?s] exI [of _ t]) (simp add: service_codes)
qed

section \<open>Options\<close>

type_synonym option_fields = "(string \<times> string) list"

text \<open>A JSON value as far as the code looks at it; a number is \<open>None\<close> when it is not a
  \<open>size_t\<close>.\<close>

datatype json = J_string string | J_number "nat option" | J_other

definition get_option :: "string \<Rightarrow> option_fields \<Rightarrow> string option" where
  "get_option key fs =
     (if key = [] then None
      else case map_of fs key of
        None \<Rightarrow> None
      | Some v \<Rightarrow> if v = [] then None else Some v)"

text \<open>Before the logger is set, a log statement throws (\<open>log_macro_unset\<close>): \<open>logs\<close> says whether it
  is set. \<open>None\<close> is an exception, \<open>Some None\<close> a result of false.\<close>

definition get_option_as ::
  "bool \<Rightarrow> (string \<Rightarrow> 'a option) \<Rightarrow> string \<Rightarrow> option_fields \<Rightarrow> 'a option option" where
  "get_option_as logs cast key fs =
     (case get_option key fs of
        None \<Rightarrow> Some None
      | Some v \<Rightarrow> (case cast v of Some a \<Rightarrow> Some (Some a) | None \<Rightarrow> if logs then Some None else None))"

text \<open>The option file's loop: an option already given is skipped, one the file does not name
  throws (which ends the load), and a value that is neither a string nor a number is
  logged.\<close>

fun load_fields :: "bool \<Rightarrow> (string \<Rightarrow> json option) \<Rightarrow> string list \<Rightarrow> option_fields \<Rightarrow> bool \<times> option_fields" where
  "load_fields logs root [] fs = (True, fs)"
| "load_fields logs root (k # ks) fs =
     (if map_of fs k \<noteq> None then load_fields logs root ks fs
      else case root k of
        None \<Rightarrow> (False, fs)
      | Some (J_string v) \<Rightarrow> load_fields logs root ks (fs @ [(k, v)])
      | Some (J_number None) \<Rightarrow> (False, fs)
      | Some (J_number (Some n)) \<Rightarrow> load_fields logs root ks (fs @ [(k, decimal n)])
      | Some J_other \<Rightarrow> if logs then load_fields logs root ks fs else (False, fs))"

text \<open>Every failure is logged, an exception by the handler that catches it.\<close>

definition load_option_file ::
  "bool \<Rightarrow> (string \<Rightarrow> string option) \<Rightarrow> (string \<Rightarrow> (string \<Rightarrow> json option) option) \<Rightarrow> string list \<Rightarrow> string \<Rightarrow>
   option_fields \<Rightarrow> (bool \<times> option_fields) option" where
  "load_option_file logs read parse_json options file fs =
     (let fail = (\<lambda>fs. if logs then Some (False, fs) else None)
      in if file = [] then Some (False, fs)
         else case read file of
           None \<Rightarrow> fail fs
         | Some content \<Rightarrow>
             (case parse_json (c_string content) of
                None \<Rightarrow> fail fs
              | Some root \<Rightarrow>
                  let (ok, fs1) = load_fields logs root options fs in if ok then Some (True, fs1) else fail fs1))"

definition command_line_processor ::
  "bool \<Rightarrow> (string list \<Rightarrow> string list \<Rightarrow> (string \<rightharpoonup> string) option) \<Rightarrow> (string \<Rightarrow> string option) \<Rightarrow>
   (string \<Rightarrow> (string \<Rightarrow> json option) option) \<Rightarrow> string list \<Rightarrow> string \<Rightarrow> string list \<Rightarrow>
   option_fields \<Rightarrow> (bool \<times> string \<times> option_fields) option" where
  "command_line_processor logs parse read parse_json options option_file argv fs =
     (if options = [] \<or> length argv < 2 then Some (False, [], fs)
      else case parse options argv of
        None \<Rightarrow> None
      | Some vm \<Rightarrow>
          let given = concat (map (\<lambda>k. case vm k of None \<Rightarrow> [] | Some v \<Rightarrow> [(k, v)]) options);
              fs1 = fs @ given
          in case get_option ''execute_path'' fs1 of
               None \<Rightarrow> Some (False, [], fs1)
             | Some path \<Rightarrow>
                 if option_file = [] then Some (True, path, fs1)
                 else if read (path @ option_file) = None then Some (False, path, fs1)
                 else case load_option_file logs read parse_json options (path @ option_file) fs1 of
                   None \<Rightarrow> None
                 | Some (ok, fs2) \<Rightarrow> Some (ok, path, fs2))"

section \<open>A server instance\<close>

definition base_options :: "string list" where
  "base_options = [''service_name'', ''service_mode'', ''execute_path'', ''log_key'', ''log_level'',
     ''log_console'', ''task_size'']"

text \<open>\<open>in_log\<close> is the logger of the process; what is written to it is left out.\<close>

record server_instance =
  in_options :: "string list"
  in_option_file :: string
  in_fields :: option_fields
  in_execute_path :: string
  in_threads :: nat
  in_log :: "log_core option"
  in_timer :: bool

definition instance_new :: "string list \<Rightarrow> string \<Rightarrow> server_instance" where
  "instance_new options option_file =
     \<lparr>in_options = options @ base_options, in_option_file = option_file, in_fields = [],
      in_execute_path = [], in_threads = 0, in_log = None, in_timer = False\<rparr>"

definition task_size :: nat where "task_size = 8"

definition log_level_info :: nat where "log_level_info = 2"

definition instance_on_start :: "server_instance \<Rightarrow> server_instance" where
  "instance_on_start s = s\<lparr>in_timer := True\<rparr>"

definition instance_on_stop :: "server_instance \<Rightarrow> server_instance" where
  "instance_on_stop s = s\<lparr>in_timer := False\<rparr>"

text \<open>\<open>get_instance()->stop()\<close> throws when the logger is not set.\<close>

definition instance_on_destroy :: "server_instance \<Rightarrow> server_instance option" where
  "instance_on_destroy s =
     (case in_log (instance_on_stop s) of
        None \<Rightarrow> None
      | Some c \<Rightarrow> Some ((instance_on_stop s)\<lparr>in_log := Some (log_stop c), in_threads := 0\<rparr>))"

definition instance_threads :: "nat \<Rightarrow> nat option \<Rightarrow> nat" where
  "instance_threads hw n = (case n of None \<Rightarrow> hw + 1 | Some n \<Rightarrow> if task_size \<le> n then n else hw + 1)"

definition instance_log_level :: "nat option \<Rightarrow> nat" where
  "instance_log_level l = (let level = (case l of None \<Rightarrow> log_level_info | Some l \<Rightarrow> l)
     in if log_level_info < level then log_level_info else level)"

text \<open>The release build requires the option \<open>log_console\<close>.\<close>

definition instance_console :: "bool \<Rightarrow> bool \<Rightarrow> (string \<Rightarrow> nat option) \<Rightarrow> option_fields \<Rightarrow> nat option option" where
  "instance_console debug logs cast fs =
     (if debug then Some (Some 1) else get_option_as logs cast ''log_console'' fs)"

text \<open>\<open>on_create\<close>; an exception is \<open>None\<close>. \<open>process\<close> is \<open>command_line_processor\<close> on the instance's
  options; \<open>on_listen\<close> is the derived class's, on its own state; \<open>hw\<close> is the number of threads
  the runtime reports.\<close>

definition instance_on_create ::
  "(server_instance \<Rightarrow> (bool \<times> string \<times> option_fields) option) \<Rightarrow> (string \<Rightarrow> nat option) \<Rightarrow> (string \<Rightarrow> nat option) \<Rightarrow>
   (server_instance \<Rightarrow> 'w \<Rightarrow> (bool \<times> 'w) option) \<Rightarrow> nat \<Rightarrow> bool \<Rightarrow> server_instance \<Rightarrow> 'w \<Rightarrow>
   (bool \<times> server_instance \<times> 'w) option" where
  "instance_on_create process cast32 cast on_listen hw debug s w =
     (case process s of
        None \<Rightarrow> None
      | Some (False, _, _) \<Rightarrow> None
      | Some (True, path, fs) \<Rightarrow>
          let s1 = s\<lparr>in_execute_path := path, in_fields := fs\<rparr>; logs = (in_log s1 \<noteq> None)
          in case get_option_as logs cast32 ''task_size'' fs of
               None \<Rightarrow> None
             | Some n \<Rightarrow>
                 let s2 = s1\<lparr>in_threads := in_threads s1 + instance_threads hw n\<rparr>
                 in case get_option ''log_key'' fs of
                      None \<Rightarrow> Some (False, s2, w)
                    | Some key \<Rightarrow>
                        case get_option_as logs cast ''log_level'' fs of
                          None \<Rightarrow> None
                        | Some l \<Rightarrow>
                            case instance_console debug logs cast fs of
                              None \<Rightarrow> None
                            | Some None \<Rightarrow> Some (False, s2, w)
                            | Some (Some c) \<Rightarrow>
                                case get_log_tool debug key (path @ key) (severity_at (instance_log_level l))
                                       (0 < c) (in_log s2) of
                                  None \<Rightarrow> None
                                | Some core \<Rightarrow>
                                    let s3 = s2\<lparr>in_log := Some core\<rparr>
                                    in case on_listen s3 w of
                                         None \<Rightarrow> None
                                       | Some (ok, w1) \<Rightarrow>
                                           if ok then Some (True, instance_on_start s3, w1)
                                           else Some (False, s3, w1))"

lemma map_of_append_new:
  "map_of fs k = None \<Longrightarrow> map_of (fs @ [(k, v)]) = (map_of fs)(k \<mapsto> v)"
  by (auto simp: fun_eq_iff map_add_def split: option.split)

lemma load_fields_spec:
  "load_fields logs root ks fs = (True, fs') \<Longrightarrow>
   map_of fs' k = (case map_of fs k of
       Some v \<Rightarrow> Some v
     | None \<Rightarrow> if k \<in> set ks then (case root k of
           Some (J_string v) \<Rightarrow> Some v
         | Some (J_number (Some n)) \<Rightarrow> Some (decimal n)
         | _ \<Rightarrow> None) else None)"
proof (induction logs root ks fs rule: load_fields.induct)
  case (1 logs root fs)
  then show ?case by (auto split: option.split)
next
  case (2 logs root j ks fs)
  show ?case
  proof (cases "map_of fs j")
    case (Some w)
    then show ?thesis using 2 by (auto split: option.splits)
  next
    case None
    then show ?thesis
      using 2
      by (auto simp: map_of_append_new split: option.splits json.splits if_splits)
  qed
qed

lemma load_fields_complete:
  "load_fields False root ks fs = (True, fs') \<Longrightarrow> k \<in> set ks \<or> map_of fs k \<noteq> None \<Longrightarrow> map_of fs' k \<noteq> None"
proof (induction False root ks fs rule: load_fields.induct)
  case (1 root fs)
  then show ?case by simp
next
  case (2 root j ks fs)
  show ?case
  proof (cases "map_of fs j")
    case (Some w)
    then show ?thesis using 2 by auto
  next
    case None
    then show ?thesis
      using 2 by (auto simp: map_of_append_new split: option.splits json.splits if_splits)
  qed
qed

text \<open>Options: when the command line and the option file are read successfully, every option
  of the instance has the command line's value if that was given, else the file's string, or
  its number in decimal; and since a log statement throws before the logger is set, which is
  when the options are read, success then means that every option has a value.\<close>

lemma option_file_fills_gaps:
  assumes "command_line_processor logs parse read parse_json options option_file argv [] =
      Some (True, path, fs)"
    and "parse options argv = Some vm" and "option_file \<noteq> []" and "k \<in> set options"
  shows "\<exists>content root. read (path @ option_file) = Some content \<and> parse_json (c_string content) = Some root \<and>
    map_of fs k = (case vm k of
       Some v \<Rightarrow> Some v
     | None \<Rightarrow> (case root k of
           Some (J_string v) \<Rightarrow> Some v
         | Some (J_number (Some n)) \<Rightarrow> Some (decimal n)
         | _ \<Rightarrow> None)) \<and> (logs \<or> map_of fs k \<noteq> None)"
proof -
  let ?given = "concat (map (\<lambda>k. case vm k of None \<Rightarrow> [] | Some v \<Rightarrow> [(k, v)]) options)"
  have given: "map_of (concat (map (\<lambda>k. case vm k of None \<Rightarrow> [] | Some v \<Rightarrow> [(k, v)]) ks)) k =
      (if k \<in> set ks then vm k else None)" for ks
    by (induction ks) (auto simp: map_add_def split: option.split)
  obtain p where p: "get_option ''execute_path'' ?given = Some p"
    using assms(1,2) by (auto simp: command_line_processor_def Let_def split: if_splits option.splits)
  then have l: "path = p" "load_option_file logs read parse_json options (p @ option_file) ?given = Some (True, fs)"
    using assms(1-3)
    by (auto simp: command_line_processor_def Let_def split: if_splits option.splits)
  then obtain content root where c: "read (p @ option_file) = Some content"
    "parse_json (c_string content) = Some root" "load_fields logs root options ?given = (True, fs)"
    using assms(3) by (auto simp: load_option_file_def Let_def split: option.splits if_splits prod.splits)
  have "logs \<or> map_of fs k \<noteq> None"
    using c(3) load_fields_complete [of root options ?given fs k] assms(4) by (cases logs) auto
  then show ?thesis
    using c l(1) load_fields_spec [OF c(3), of k] given [of options] assms(4)
    by (auto split: option.splits)
qed

definition demo_root :: "string \<Rightarrow> json option" where
  "demo_root k = (if k = ''port'' then Some (J_number (Some 10011))
     else if k = ''log_key'' then Some (J_string ''server'') else Some J_other)"

theorem option_file_fills_gaps_witness:
  "\<exists>fs. command_line_processor False (\<lambda>_ _. Some [''execute_path'' \<mapsto> ''/srv/''])
     (\<lambda>f. if f = ''/srv/option.json'' then Some ''{}'' else None) (\<lambda>_. Some demo_root)
     [''port'', ''execute_path''] ''option.json'' [''server'', ''x''] [] = Some (True, ''/srv/'', fs) \<and>
     map_of fs ''port'' = Some (decimal 10011)"
proof -
  let ?parse = "\<lambda>_ _. Some [''execute_path'' \<mapsto> ''/srv/'']"
  let ?read = "\<lambda>f. if f = ''/srv/option.json'' then Some ''{}'' else None"
  obtain fs where fs: "command_line_processor False ?parse ?read (\<lambda>_. Some demo_root)
     [''port'', ''execute_path''] ''option.json'' [''server'', ''x''] [] = Some (True, ''/srv/'', fs)"
    by (simp add: command_line_processor_def get_option_def load_option_file_def demo_root_def)
  from option_file_fills_gaps [OF this refl, of "''port''"]
  have "map_of fs ''port'' = Some (decimal 10011)" by (auto simp: demo_root_def)
  with fs show ?thesis by blast
qed

end
