(* ===== verification/GameServer.thy ===== *)
theory GameServer
  imports Service Acceptor
begin

text \<open>
  The game server as a process (\<open>server\<close> in \<^verbatim>\<open>project/server/{game_server.cpp,server.cpp}\<close>, and
  \<open>service_interface::run\<close> in \<^verbatim>\<open>common.cpp\<close>): the instance of \<open>Service\<close> together with its
  acceptor and handler, whose state is the \<open>world\<close> of \<open>ServerHandler\<close>.
\<close>

section \<open>The instance with its acceptor and handler\<close>

definition game_new :: server_instance where
  "game_new = instance_new [''port''] []"

text \<open>Binding the port may fail or throw, which is caught; the option is read outside the \<open>try\<close>.\<close>

definition game_on_listen ::
  "(string \<Rightarrow> u16 option) \<Rightarrow> (u16 \<Rightarrow> bool) \<Rightarrow> bool \<Rightarrow> server_instance \<Rightarrow> world \<Rightarrow> (bool \<times> world) option" where
  "game_on_listen cast_port bind_ok mem s w =
     (case get_option_as (in_log s \<noteq> None) cast_port ''port'' (in_fields s) of
        None \<Rightarrow> None
      | Some None \<Rightarrow> Some (False, w)
      | Some (Some port) \<Rightarrow> Some (listen_start (bind_ok port) mem port w))"

definition game_on_create ::
  "(server_instance \<Rightarrow> (bool \<times> string \<times> option_fields) option) \<Rightarrow> (string \<Rightarrow> nat option) \<Rightarrow> (string \<Rightarrow> nat option) \<Rightarrow>
   (string \<Rightarrow> u16 option) \<Rightarrow> (u16 \<Rightarrow> bool) \<Rightarrow> bool \<Rightarrow> nat \<Rightarrow> bool \<Rightarrow> server_instance \<times> world \<Rightarrow>
   (bool \<times> server_instance \<times> world) option" where
  "game_on_create process cast32 cast cast_port bind_ok mem hw debug x =
     instance_on_create process cast32 cast (game_on_listen cast_port bind_ok mem) hw debug (fst x) (snd x)"

definition game_on_destroy :: "server_instance \<times> world \<Rightarrow> (server_instance \<times> world) option" where
  "game_on_destroy x =
     (let w1 = handler_on_stop (acceptor_stop (snd x))
      in case instance_on_destroy (fst x) of None \<Rightarrow> None | Some s \<Rightarrow> Some (s, w1))"

section \<open>Running\<close>

definition ctrl_close_event :: nat where "ctrl_close_event = 2"
definition ctrl_logoff_event :: nat where "ctrl_logoff_event = 5"
definition ctrl_shutdown_event :: nat where "ctrl_shutdown_event = 6"

definition console_handler ::
  "nat \<Rightarrow> server_instance \<times> world \<Rightarrow> (bool \<times> server_instance \<times> world) option" where
  "console_handler ctrl x =
     (if ctrl \<in> {ctrl_close_event, ctrl_logoff_event, ctrl_shutdown_event}
      then (case game_on_destroy x of None \<Rightarrow> None | Some y \<Rightarrow> Some (True, y))
      else Some (False, x))"

text \<open>The console mode registers its handler in every round, for as long as that succeeds; the
  argument counts the registrations. \<open>None\<close>: it does not return.\<close>

partial_function (option) console_loop :: "(nat \<Rightarrow> bool) \<Rightarrow> nat \<Rightarrow> nat option" where
  "console_loop registers n = (if registers n then console_loop registers (Suc n) else Some n)"

datatype run_result = Dispatched string | Refused_start | Console_ended nat

text \<open>\<open>parse\<close> gives the two options of exactly the first three arguments, or throws; fewer than
  three arguments read beyond the array. The outer \<open>None\<close> is such an access or an exception,
  the inner one a console that is still running.\<close>

definition service_run ::
  "(string list \<Rightarrow> (string option \<times> int option) option) \<Rightarrow>
   (string list \<Rightarrow> 'x \<Rightarrow> (bool \<times> 'x) option) \<Rightarrow> (nat \<Rightarrow> bool) \<Rightarrow> string list \<Rightarrow> 'x \<Rightarrow> (run_result option \<times> 'x) option" where
  "service_run parse create registers argv x =
     (if length argv < 3 then None
      else case parse (take 3 argv) of
        Some (Some name, Some mode) \<Rightarrow>
          if mode \<noteq> 0 then Some (Some (Dispatched name), x)
          else (case create argv x of
                  None \<Rightarrow> None
                | Some (ok, y) \<Rightarrow>
                    if \<not> ok then Some (Some Refused_start, y)
                    else Some (map_option Console_ended (console_loop registers 0), y))
      | _ \<Rightarrow> None)"

section \<open>Starting\<close>

lemma get_option_as_Some:
  "get_option_as logs cast key fs = Some (Some v) \<longleftrightarrow> (\<exists>t. get_option key fs = Some t \<and> cast t = Some v)"
  by (auto simp: get_option_as_def split: option.splits)

lemma game_on_listen_True:
  "game_on_listen cast_port bind_ok mem s w = Some (True, w') \<longleftrightarrow>
   (\<exists>port. get_option_as (in_log s \<noteq> None) cast_port ''port'' (in_fields s) = Some (Some port) \<and>
      bind_ok port \<and> mem \<and> w' = (handler_on_start (w\<lparr>acc_open := True\<rparr>))\<lparr>acc_waiting := True, listen_port := port\<rparr>)"
  by (auto simp: game_on_listen_def listen_start_def Let_def split: option.splits)

lemma get_log_tool_level:
  assumes "get_log_tool debug key path lvl console None = Some c" and "lvl \<le> s"
  shows "log_write s None c = None"
proof -
  have c: "c = \<lparr>lc_sinks = file_sinks key path (severity_level lvl) @ (if console then [Console_sink lvl] else []) @
      (if debug then [Debugger_sink] else []), lc_written = []\<rparr>"
    using assms(1) by (simp add: get_log_tool_def log_tool_new_def split: if_splits)
  have "log_file_sink key path s \<in> set (filter (\<lambda>k. sink_accepts k s) (file_sinks key path (severity_level lvl)))"
    using assms(2) by (simp add: file_sinks_accepting)
  then show ?thesis
    by (auto simp: c log_write_def Let_def filter_empty_conv)
qed

lemma instance_log_level_le: "instance_log_level l \<le> 2"
  by (simp add: instance_log_level_def log_level_info_def Let_def)

lemma severity_at_info: "n \<le> 2 \<Longrightarrow> Sev_info \<le> s \<Longrightarrow> severity_at n \<le> s"
  by (simp add: less_eq_severity_def)

text \<open>C29. Creating the server: it succeeds only when the options were read, each numeric one that
  is given is readable, a log key is given and the port was listened on; then the acceptor
  waits for connections on that port, the handler's and the instance's timers run, the task
  threads are the option's number if that is at least 8, else one more than the hardware's,
  and every record of severity info or worse is written, so that its text is made.\<close>

theorem server_created:
  assumes "game_on_create process cast32 cast cast_port bind_ok mem hw debug (s, w) = Some (True, s', w')"
    and "in_log s = None" and "in_threads s = 0"
  shows "\<exists>path fs key t port core. process s = Some (True, path, fs) \<and> in_fields s' = fs \<and>
    get_option ''log_key'' fs = Some key \<and> get_option ''port'' fs = Some t \<and> cast_port t = Some port \<and>
    bind_ok port \<and> listen_port w' = port \<and> acc_open w' \<and> acc_waiting w' \<and>
    keep_alive_on w' \<and> sec1_on w' \<and> sec60_on w' \<and> in_timer s' \<and>
    (\<forall>u. get_option ''task_size'' fs = Some u \<longrightarrow> cast32 u \<noteq> None) \<and>
    in_threads s' = instance_threads hw (Option.bind (get_option ''task_size'' fs) cast32) \<and>
    in_log s' = Some core \<and> (\<forall>v \<ge> Sev_info. log_write v None core = None)"
proof -
  obtain path fs where p: "process s = Some (True, path, fs)"
    using assms by (auto simp: game_on_create_def instance_on_create_def split: option.splits prod.splits bool.splits)
  obtain n where n: "get_option_as False cast32 ''task_size'' fs = Some n"
    using assms p by (auto simp: game_on_create_def instance_on_create_def Let_def split: option.splits)
  obtain key where k: "get_option ''log_key'' fs = Some key"
    using assms p n by (auto simp: game_on_create_def instance_on_create_def Let_def split: option.splits)
  obtain l where l: "get_option_as False cast ''log_level'' fs = Some l"
    using assms p n k by (auto simp: game_on_create_def instance_on_create_def Let_def split: option.splits)
  obtain c where c: "instance_console debug False cast fs = Some (Some c)"
    using assms p n k l
    by (auto simp: game_on_create_def instance_on_create_def Let_def split: option.splits)
  obtain core where core: "get_log_tool debug key (path @ key) (severity_at (instance_log_level l)) (0 < c) None = Some core"
    using assms p n k l c
    by (cases "get_log_tool debug key (path @ key) (severity_at (instance_log_level l)) (0 < c) None")
      (simp_all add: game_on_create_def instance_on_create_def Let_def)
  let ?s = "s\<lparr>in_execute_path := path, in_fields := fs, in_threads := instance_threads hw n, in_log := Some core\<rparr>"
  have listen: "game_on_listen cast_port bind_ok mem ?s w = Some (True, w')" and s': "s' = instance_on_start ?s"
    using assms p n k l c core
    by (auto simp: game_on_create_def instance_on_create_def Let_def split: option.splits if_splits)
  obtain port where port: "get_option_as True cast_port ''port'' fs = Some (Some port)" "bind_ok port"
      "w' = (handler_on_start (w\<lparr>acc_open := True\<rparr>))\<lparr>acc_waiting := True, listen_port := port\<rparr>"
    using listen by (auto simp: game_on_listen_True)
  then obtain t where t: "get_option ''port'' fs = Some t" "cast_port t = Some port"
    by (auto simp: get_option_as_Some)
  have "\<forall>v \<ge> Sev_info. log_write v None core = None"
    using get_log_tool_level [OF core] severity_at_info [OF instance_log_level_le] by blast
  moreover have "n = Option.bind (get_option ''task_size'' fs) cast32"
    "\<forall>u. get_option ''task_size'' fs = Some u \<longrightarrow> cast32 u \<noteq> None"
    using n by (auto simp: get_option_as_def split: option.splits dest: sym)
  ultimately show ?thesis
    using p k t port(2,3) s'
    by (intro exI [of _ path] exI [of _ fs] exI [of _ key] exI [of _ t] exI [of _ port] exI [of _ core])
      (simp add: instance_on_start_def handler_on_start_def base_on_start_def)
qed

definition demo_options :: option_fields where
  "demo_options = [(''log_key'', ''server''), (''port'', ''1'')]"

definition demo_server :: "(bool \<times> server_instance \<times> world) option" where
  "demo_server = game_on_create (\<lambda>_. Some (True, ''/srv/'', demo_options)) (\<lambda>_. None) (\<lambda>_. None)
     (\<lambda>_. Some 10011) (\<lambda>_. True) True 4 True (game_new, world_new)"

lemma demo_server_created: "\<exists>s w. demo_server = Some (True, s, w)"
  by (simp add: demo_server_def demo_options_def game_on_create_def instance_on_create_def get_option_def get_option_as_def
      instance_console_def game_new_def instance_new_def game_on_listen_def listen_start_def get_log_tool_def log_tool_new_def Let_def)

theorem server_created_witness:
  "\<exists>s w. demo_server = Some (True, s, w) \<and> listen_port w = 10011 \<and> in_threads s = 5"
proof -
  obtain s w where d: "demo_server = Some (True, s, w)" using demo_server_created by blast
  have n: "in_log game_new = None" "in_threads game_new = 0" by (simp_all add: game_new_def instance_new_def)
  from server_created [OF d [unfolded demo_server_def] n] have "listen_port w = 10011 \<and> in_threads s = 5"
    by (auto simp: demo_options_def get_option_def instance_threads_def)
  with d show ?thesis by blast
qed

section \<open>Stopping\<close>

text \<open>Stopping: in any state of a server whose logger is set, destroying it shuts the acceptor, so
  that however a pending accept ends no further one is started; empties the user set; stops
  the instance's timer, the keep-alive sweep and the 60-second timer, but not the 1-second
  timer; takes the log's sinks away and ends the task threads. No connection is closed.\<close>

lemma server_stopped:
  assumes "in_log s = Some core"
  shows "\<exists>s' w'. game_on_destroy (s, w) = Some (s', w') \<and>
    \<not> acc_open w' \<and> \<not> acc_waiting (accept ec options_ok mems start_mem ip port next_mem w') \<and>
    user_set w' = [] \<and> \<not> keep_alive_on w' \<and> \<not> sec60_on w' \<and> sec1_on w' = sec1_on w \<and>
    sess w' = sess w \<and> registry w' = registry w \<and>
    \<not> in_timer s' \<and> in_threads s' = 0 \<and> in_log s' = Some (log_stop core)"
  using assms
  by (auto simp: game_on_destroy_def instance_on_destroy_def instance_on_stop_def acceptor_stop_def
      handler_on_stop_def base_on_stop_def accept_def Let_def)

section \<open>The console\<close>

lemma console_loop_ends:
  assumes "\<forall>k < n. registers k" "\<not> registers n" "m \<le> n"
  shows "console_loop registers m = Some n"
  using assms(3)
proof (induction "n - m" arbitrary: m)
  case 0
  then show ?case using assms by (simp add: console_loop.simps [of registers m])
next
  case (Suc k)
  then show ?case
    using assms(1) Suc.hyps(1) [of "Suc m"] by (simp add: console_loop.simps [of registers m])
qed

lemma console_loop_Some:
  assumes "console_loop registers m = Some n"
  shows "\<not> registers n"
  by (rule console_loop.raw_induct [where P = "\<lambda>registers _ n. \<not> registers n", OF _ assms])
    (auto split: if_splits)

text \<open>The console mode ends exactly when a registration fails, having registered its handler once
  for every round before.\<close>

lemma console_loop_iff: "console_loop registers 0 = None \<longleftrightarrow> (\<forall>n. registers n)"
proof (cases "\<forall>n. registers n")
  case True
  then show ?thesis using console_loop_Some [of registers 0] by (cases "console_loop registers 0") auto
next
  case False
  then obtain n where "\<forall>k < n. registers k" "\<not> registers n"
    using exists_least_iff [of "\<lambda>n. \<not> registers n"] by blast
  then show ?thesis using console_loop_ends [of n registers 0] False by simp
qed

end
