(* ===== verification/OdbcCommand.thy ===== *)
theory OdbcCommand
  imports Prelude
begin

text \<open>
  The command of a stored procedure (\<open>command\<close> in
  \<^verbatim>\<open>source/impl/odbc/{command.h,odbc.cpp}\<close>): its parameters, the text of the call, and the
  parameters as text for the log.

  A wide string is a list of 16-bit units; the literals and names the code widens are ASCII.
  Floating-point values are their bit patterns. The text of a floating-point number is
  \<open>boost::lexical_cast\<close>'s, a parameter.
\<close>

type_synonym wstring = "u16 list"

definition widen :: "string \<Rightarrow> wstring" where
  "widen s = map (\<lambda>c. of_nat (of_char c)) s"

lemma widen_append [simp]: "widen (a @ b) = widen a @ widen b"
  by (simp add: widen_def)

lemma widen_Nil [simp]: "widen [] = []"
  by (simp add: widen_def)

section \<open>State\<close>

text \<open>The types \<open>boost::any\<close> may hold; \<open>P_other\<close> is any type the code does not name.\<close>

datatype param = P_uint8 u8 | P_short u16 | P_int u32 | P_long u32 | P_float u32 | P_double u64
  | P_int64 u64 | P_string string | P_wstring wstring | P_other

record command =
  cmd_sp :: string
  cmd_params :: "param list"
  cmd_query :: wstring

definition command_new :: command where
  "command_new = \<lparr>cmd_sp = [], cmd_params = [], cmd_query = []\<rparr>"

definition command_init :: "command \<Rightarrow> command" where
  "command_init c = c\<lparr>cmd_sp := [], cmd_params := [], cmd_query := []\<rparr>"

text \<open>A parameter of a type the code does not name is taken out again, and then read: \<open>None\<close>.\<close>

definition bind_parameter :: "param \<Rightarrow> command \<Rightarrow> command option" where
  "bind_parameter p c =
     (case p of P_other \<Rightarrow> None | _ \<Rightarrow> Some (c\<lparr>cmd_params := cmd_params c @ [p]\<rparr>))"

section \<open>The text of the call\<close>

text \<open>\<open>s.erase( s.find_last_of( x ) )\<close>: everything from the last \<open>x\<close>; without one it throws.\<close>

definition erase_from_last :: "'a \<Rightarrow> 'a list \<Rightarrow> 'a list option" where
  "erase_from_last x s =
     (if x \<in> set s then Some (rev (tl (dropWhile (\<lambda>y. y \<noteq> x) (rev s)))) else None)"

definition comma :: u16 where "comma = 44"

definition space :: u16 where "space = 32"

text \<open>An exception is \<open>None\<close>.\<close>

definition make_query :: "string \<Rightarrow> command \<Rightarrow> (bool \<times> command) option" where
  "make_query sp c =
     (if sp = [] then Some (False, c)
      else
        let c1 = c\<lparr>cmd_sp := sp\<rparr>
        in if cmd_params c1 = []
           then Some (True, c1\<lparr>cmd_query := widen ''{ CALL '' @ widen (c_string sp) @ widen '' }''\<rparr>)
           else
             let q0 = widen ''{ CALL '' @ widen (c_string sp) @ widen '' ('';
                 q1 = fold (\<lambda>_ q. q @ widen ''?,'') [0..<length (cmd_params c1)] q0
             in case erase_from_last comma q1 of
                  None \<Rightarrow> None
                | Some q2 \<Rightarrow> Some (True, c1\<lparr>cmd_query := q2 @ widen '') }''\<rparr>))"

definition ping_query :: "command \<Rightarrow> command" where
  "ping_query c = c\<lparr>cmd_query := widen ''{ select 0 }''\<rparr>"

section \<open>The parameters as text\<close>

definition int_text :: "int \<Rightarrow> string" where
  "int_text i = (if i < 0 then ''-'' @ decimal (nat (- i)) else decimal (nat i))"

text \<open>\<open>ftext\<close> and \<open>dtext\<close> are \<open>lexical_cast\<close>s of floating-point numbers.\<close>

fun param_text :: "(u32 \<Rightarrow> string) \<Rightarrow> (u64 \<Rightarrow> string) \<Rightarrow> param \<Rightarrow> wstring" where
  "param_text ftext dtext (P_uint8 v) = widen (int_text (int (unat v)))"
| "param_text ftext dtext (P_short v) = widen (int_text (sint v))"
| "param_text ftext dtext (P_int v) = widen (int_text (sint v))"
| "param_text ftext dtext (P_long v) = widen (int_text (sint v))"
| "param_text ftext dtext (P_float v) = widen (ftext v)"
| "param_text ftext dtext (P_double v) = widen (dtext v)"
| "param_text ftext dtext (P_int64 v) = widen (int_text (sint v))"
| "param_text ftext dtext (P_string v) = widen (c_string v)"
| "param_text ftext dtext (P_wstring v) = v"
| "param_text ftext dtext P_other = []"

text \<open>The loop runs inside a \<open>try\<close>, so that an exception keeps what was written.\<close>

definition get_params_string :: "(u32 \<Rightarrow> string) \<Rightarrow> (u64 \<Rightarrow> string) \<Rightarrow> command \<Rightarrow> wstring" where
  "get_params_string ftext dtext c =
     (if cmd_params c = [] then []
      else
        let s = fold (\<lambda>p s. s @ param_text ftext dtext p @ [space]) (cmd_params c) []
        in case erase_from_last space s of None \<Rightarrow> s | Some t \<Rightarrow> t)"

section \<open>The text is the call with its placeholders\<close>

fun join :: "'a list \<Rightarrow> 'a list list \<Rightarrow> 'a list" where
  "join sep [] = []"
| "join sep [x] = x"
| "join sep (x # y # xs) = x @ sep @ join sep (y # xs)"

lemma erase_last_appended: "erase_from_last x (s @ [x]) = Some s"
  by (simp add: erase_from_last_def)

lemma concat_map_join:
  "xs \<noteq> [] \<Longrightarrow> concat (map (\<lambda>x. x @ sep) xs) = join sep xs @ sep"
  by (induction sep xs rule: join.induct) auto

lemma fold_append: "fold (\<lambda>x s. s @ f x) xs s = s @ concat (map f xs)"
  by (induction xs arbitrary: s) auto

lemma fold_placeholders:
  "0 < n \<Longrightarrow> fold (\<lambda>_ q. q @ widen ''?,'') [0..<n] q0 =
     q0 @ join [comma] (replicate n (widen ''?'')) @ [comma]"
proof -
  assume "0 < n"
  have "map (\<lambda>_. widen ''?'' @ [comma]) [0..<n] = map (\<lambda>x. x @ [comma]) (replicate n (widen ''?''))"
    by (simp add: map_replicate_const)
  moreover have "widen ''?,'' = widen ''?'' @ [comma]"
    by (simp add: widen_def comma_def)
  ultimately show ?thesis
    using \<open>0 < n\<close> concat_map_join [of "replicate n (widen ''?'')" "[comma]"]
    by (simp add: fold_append)
qed

definition call_text :: "string \<Rightarrow> nat \<Rightarrow> wstring" where
  "call_text sp n =
     widen ''{ CALL '' @ widen (c_string sp) @
     (if n = 0 then [] else widen '' ('' @ join [comma] (replicate n (widen ''?'')) @ widen '')'') @
     widen '' }''"

lemma make_query_eq:
  "make_query sp c = Some (sp \<noteq> [],
     if sp = [] then c
     else c\<lparr>cmd_sp := sp, cmd_query := call_text sp (length (cmd_params c))\<rparr>)"
proof (cases "sp = [] \<or> cmd_params c = []")
  case True
  then show ?thesis by (auto simp: make_query_def call_text_def)
next
  case False
  let ?q = "widen ''{ CALL '' @ widen (c_string sp) @ widen '' (''"
  let ?j = "join [comma] (replicate (length (cmd_params c)) (widen ''?''))"
  have "fold (\<lambda>_ q. q @ widen ''?,'') [0..<length (cmd_params c)] ?q = (?q @ ?j) @ [comma]"
    using False fold_placeholders [of "length (cmd_params c)" ?q] by simp
  moreover have "erase_from_last comma ((?q @ ?j) @ [comma]) = Some (?q @ ?j)"
    by (rule erase_last_appended)
  ultimately have "make_query sp c =
      Some (True, c\<lparr>cmd_sp := sp, cmd_query := (?q @ ?j) @ widen '') }''\<rparr>)"
    using False by (simp add: make_query_def del: append_assoc)
  moreover have "widen '') }'' = widen '')'' @ widen '' }''" by (simp add: widen_def)
  ultimately show ?thesis using False by (simp add: call_text_def)
qed

text \<open>The query and the log text are what they are meant to be: \<open>make_query\<close> never throws,
  refuses exactly the empty name, and otherwise gives the call with one placeholder per
  parameter, separated by commas; the log text is the parameters' texts, separated by
  single spaces.\<close>

lemma make_query_equiv:
  "make_query sp c = Some (sp \<noteq> [],
     if sp = [] then c
     else c\<lparr>cmd_sp := sp, cmd_query := call_text sp (length (cmd_params c))\<rparr>) \<and>
   get_params_string ftext dtext c = join [space] (map (param_text ftext dtext) (cmd_params c))"
proof (rule conjI [OF make_query_eq])
  let ?f = "param_text ftext dtext"
  have "fold (\<lambda>p s. s @ ?f p @ [space]) ps [] = concat (map (\<lambda>x. x @ [space]) (map ?f ps))" for ps
    by (simp add: fold_append comp_def)
  then show "get_params_string ftext dtext c = join [space] (map ?f (cmd_params c))"
    using concat_map_join [of "map ?f (cmd_params c)" "[space]"]
    by (simp add: get_params_string_def erase_last_appended)
qed

end
