(* ===== verification/OdbcBuffer.thy ===== *)
theory OdbcBuffer
  imports OdbcCommand
begin

text \<open>
  The buffers through which values go to and come from the ODBC driver
  (\<open>fetch_buffer\<close> in \<^verbatim>\<open>source/impl/odbc/{fetch_buffer.h,odbc.cpp}\<close>) and the pool a handler
  keeps of them. A block of memory is the list of its bytes; \<open>Dangling\<close> is a pointer to a
  block that was given back. An access through it, or beyond a block, is \<open>None\<close>.
\<close>

section \<open>fetch_buffer\<close>

datatype block = Null | Dangling | Block "u8 list"

record fetch_buffer =
  fb_column_size :: u64
  fb_out_len :: int
  fb_buf :: block
  fb_value :: u64
  fb_actual :: u64
  fb_size :: nat

definition fetch_buffer_new :: fetch_buffer where
  "fetch_buffer_new = \<lparr>fb_column_size = 0, fb_out_len = 0, fb_buf = Null, fb_value = 0, fb_actual = 0, fb_size = 0\<rparr>"

definition fetch_buffer_init :: "fetch_buffer \<Rightarrow> fetch_buffer" where
  "fetch_buffer_init fb = fb\<lparr>fb_column_size := 0, fb_out_len := 0, fb_value := 0, fb_actual := 0\<rparr>"

text \<open>\<open>mem\<close> says whether the allocator, if it is asked, has the memory. A block that is too small
  is given back before the new one is asked for.\<close>

definition alloc_buf :: "bool \<Rightarrow> nat \<Rightarrow> fetch_buffer \<Rightarrow> (bool \<times> fetch_buffer) option" where
  "alloc_buf mem n fb =
     (case fb_buf fb of
        Null \<Rightarrow>
          if mem then Some (True, fb\<lparr>fb_size := n, fb_buf := Block (replicate n 0)\<rparr>)
          else Some (False, fb\<lparr>fb_size := n\<rparr>)
      | Dangling \<Rightarrow> None
      | Block b \<Rightarrow>
          if fb_size fb < n then
            (if mem then Some (True, fb\<lparr>fb_size := n, fb_buf := Block (replicate n 0)\<rparr>)
             else Some (False, fb\<lparr>fb_size := n, fb_buf := Dangling\<rparr>))
          else Some (True, fb\<lparr>fb_buf := Block (replicate (fb_size fb) 0)\<rparr>))"

text \<open>\<open>std::copy\<close> to the front of the block.\<close>

definition store_bytes :: "u8 list \<Rightarrow> fetch_buffer \<Rightarrow> fetch_buffer option" where
  "store_bytes bs fb =
     (if bs = [] then Some fb
      else case fb_buf fb of
        Block b \<Rightarrow>
          if length bs \<le> length b then Some (fb\<lparr>fb_buf := Block (bs @ drop (length bs) b)\<rparr>) else None
      | _ \<Rightarrow> None)"

text \<open>A buffer no allocation failed on.\<close>

definition fb_ok :: "fetch_buffer \<Rightarrow> bool" where
  "fb_ok fb \<longleftrightarrow> (case fb_buf fb of Null \<Rightarrow> fb_size fb = 0 | Dangling \<Rightarrow> False | Block b \<Rightarrow> length b = fb_size fb)"

lemma fb_ok_new [simp]: "fb_ok fetch_buffer_new"
  by (simp add: fb_ok_def fetch_buffer_new_def)

lemma fb_ok_init [simp]: "fb_ok (fetch_buffer_init fb) \<longleftrightarrow> fb_ok fb"
  by (cases "fb_buf fb") (simp_all add: fb_ok_def fetch_buffer_init_def)

lemma alloc_buf_ok:
  "fb_ok fb \<Longrightarrow> \<exists>fb'. alloc_buf True n fb = Some (True, fb') \<and> fb_ok fb' \<and> n \<le> fb_size fb' \<and>
     fb_size fb \<le> fb_size fb' \<and> fb_size fb' = max n (fb_size fb) \<and> fb_buf fb' = Block (replicate (fb_size fb') 0)"
  by (auto simp: fb_ok_def alloc_buf_def max_def split: block.splits)

lemma store_bytes_ok:
  "fb_ok fb \<Longrightarrow> fb_buf fb = Block b \<Longrightarrow> length bs \<le> fb_size fb \<Longrightarrow>
   \<exists>fb'. store_bytes bs fb = Some fb' \<and> fb_ok fb' \<and> fb_buf fb' = Block (bs @ drop (length bs) b)"
  by (auto simp: store_bytes_def fb_ok_def)

section \<open>The pool of a handler\<close>

definition odbc_max_col :: nat where "odbc_max_col = 10000"

fun fill_buffers :: "(nat \<Rightarrow> bool) \<Rightarrow> nat \<Rightarrow> fetch_buffer list" where
  "fill_buffers mem 0 = []"
| "fill_buffers mem (Suc i) =
     fill_buffers mem i @ (if mem i then [fetch_buffer_init fetch_buffer_new] else [])"

definition take_fetch_buffer :: "bool \<Rightarrow> fetch_buffer list \<Rightarrow> fetch_buffer option \<times> fetch_buffer list" where
  "take_fetch_buffer mem pool =
     (case pool of
        [] \<Rightarrow> if mem then (Some (fetch_buffer_init fetch_buffer_new), []) else (None, [])
      | p # ps \<Rightarrow> (Some (fetch_buffer_init p), ps))"

text \<open>The limit is looked at before the whole vector is appended.\<close>

definition give_fetch_buffers :: "fetch_buffer list \<Rightarrow> fetch_buffer list \<Rightarrow> fetch_buffer list" where
  "give_fetch_buffers v pool =
     (if v = [] then pool else if odbc_max_col \<le> length pool then pool else pool @ v)"

lemma take_fetch_buffer_ok:
  "\<forall>fb \<in> set pool. fb_ok fb \<Longrightarrow> \<exists>fb pool'. take_fetch_buffer True pool = (Some fb, pool') \<and> fb_ok fb \<and>
     (\<forall>fb \<in> set pool'. fb_ok fb)"
  by (cases pool) (auto simp: take_fetch_buffer_def)

lemma give_fetch_buffers_ok:
  "\<forall>fb \<in> set pool. fb_ok fb \<Longrightarrow> \<forall>fb \<in> set v. fb_ok fb \<Longrightarrow> \<forall>fb \<in> set (give_fetch_buffers v pool). fb_ok fb"
  by (auto simp: give_fetch_buffers_def)

section \<open>The driver\<close>

text \<open>
  The ODBC driver, with the state it keeps and the results it gives; \<open>'d\<close> is that state. The
  functions a handler calls are its fields. A \<open>bool\<close> argument says whether the handle passed
  is not null. Return codes are integers. \<open>dr_mem\<close> is the memory allocator.
\<close>

datatype handle_kind = H_env | H_dbc | H_stmt

datatype c_type = C_utinyint | C_ushort | C_long | C_sbigint | C_float | C_double | C_char | C_wchar
  | C_binary

datatype sql_type = T_tinyint | T_smallint | T_integer | T_bigint | T_float | T_double | T_varchar
  | T_longvarchar | T_wvarchar | T_wlongvarchar

text \<open>What \<open>SQLBindParameter\<close> is told: the types, the column size and the memory it may read.\<close>

datatype binding = Binding c_type sql_type nat "u8 list"

record 'd driver =
  dr_alloc_env :: "'d \<Rightarrow> int \<times> 'd"
  dr_alloc_dbc :: "'d \<Rightarrow> int \<times> 'd"
  dr_set_timeout :: "'d \<Rightarrow> int \<times> 'd"
  dr_connect :: "wstring \<Rightarrow> wstring \<Rightarrow> wstring \<Rightarrow> 'd \<Rightarrow> int \<times> 'd"
  dr_disconnect :: "'d \<Rightarrow> 'd"
  dr_free :: "handle_kind \<Rightarrow> 'd \<Rightarrow> 'd"
  dr_dead :: "bool \<Rightarrow> 'd \<Rightarrow> int \<times> bool \<times> 'd"
  dr_alloc_stmt :: "bool \<Rightarrow> 'd \<Rightarrow> int \<times> 'd"
  dr_stmt_timeout :: "u16 \<Rightarrow> 'd \<Rightarrow> 'd"
  dr_bind :: "nat \<Rightarrow> binding \<Rightarrow> 'd \<Rightarrow> int \<times> 'd"
  dr_execute :: "wstring \<Rightarrow> 'd \<Rightarrow> int \<times> 'd"
  dr_fetch :: "'d \<Rightarrow> int \<times> nat \<times> 'd"
  dr_columns :: "'d \<Rightarrow> int \<times> nat \<times> 'd"
  dr_describe :: "nat \<Rightarrow> 'd \<Rightarrow> int \<times> int \<times> nat \<times> 'd"
  dr_get_data :: "nat \<Rightarrow> c_type \<Rightarrow> nat \<Rightarrow> 'd \<Rightarrow> int \<times> u8 list \<times> int \<times> 'd"
  dr_diag :: "handle_kind \<Rightarrow> 'd \<Rightarrow> int \<times> wstring \<times> wstring \<times> 'd"
  dr_mem :: "nat \<Rightarrow> 'd \<Rightarrow> bool \<times> 'd"

text \<open>Conversions: \<open>boost::lexical_cast\<close> from text (\<open>None\<close> when it throws), and the promotion of a
  \<open>float\<close> to a \<open>double\<close>, as bit patterns.\<close>

record casts =
  lc_u16 :: "u8 list \<Rightarrow> u16 option"
  lc_short :: "u8 list \<Rightarrow> u16 option"
  lc_int :: "u8 list \<Rightarrow> u32 option"
  lc_int64 :: "u8 list \<Rightarrow> u64 option"
  lc_float :: "u8 list \<Rightarrow> u32 option"
  lc_double :: "u8 list \<Rightarrow> u64 option"
  promote :: "u32 \<Rightarrow> u64"

definition sql_success :: int where "sql_success = 0"
definition sql_success_with_info :: int where "sql_success_with_info = 1"
definition sql_no_data :: int where "sql_no_data = 100"
definition sql_error :: int where "sql_error = - 1"
definition sql_invalid_handle :: int where "sql_invalid_handle = - 2"

lemmas sql_codes = sql_success_def sql_success_with_info_def sql_no_data_def sql_error_def
  sql_invalid_handle_def

definition sql_good :: "int \<Rightarrow> bool" where
  "sql_good r \<longleftrightarrow> r = sql_success \<or> r = sql_success_with_info"

definition sql_bad :: "int \<Rightarrow> bool" where
  "sql_bad r \<longleftrightarrow> r = sql_error \<or> r = sql_invalid_handle"

text \<open>An operation that may access memory it does not own.\<close>

datatype 'a outcome = Returned 'a | Faulted

end
