(* ===== verification/OdbcHandler.thy ===== *)
theory OdbcHandler
  imports OdbcBuffer
begin

text \<open>
  A database connection (\<open>handler\<close> in \<^verbatim>\<open>source/impl/odbc/{handler.h,odbc.cpp}\<close>): connecting,
  closing, making a statement and executing a command on it. A handle is a truth value, null
  or not; a failed allocation leaves a null handle. \<open>live\<close> counts, for each kind of handle, the
  ones the driver gave out and did not take back, and \<open>executed\<close> keeps the texts that were
  handed to \<open>SQLExecDirect\<close>; no operation reads them. Every operation runs under the
  handler's mutex and is one step. The log, and with it \<open>SQLGetDiagRec\<close>, is left out of the
  operations.
\<close>

section \<open>State\<close>

record odbc_handler =
  oh_env :: bool
  oh_dbc :: bool
  oh_stmt :: bool
  oh_info :: "wstring \<times> wstring \<times> wstring"
  oh_connected :: bool
  oh_pool :: "fetch_buffer list"
  oh_bufs :: "fetch_buffer list"
  oh_delay :: u64
  live :: "handle_kind \<Rightarrow> int"
  executed :: "wstring list"

definition odbc_delay_query :: u64 where "odbc_delay_query = 50"

definition handler_new :: "(nat \<Rightarrow> bool) \<Rightarrow> u64 \<Rightarrow> odbc_handler" where
  "handler_new mem delay =
     \<lparr>oh_env = False, oh_dbc = False, oh_stmt = False, oh_info = ([], [], []), oh_connected = False,
      oh_pool = fill_buffers mem odbc_max_col, oh_bufs = [], oh_delay = delay, live = (\<lambda>_. 0),
      executed = []\<rparr>"

definition count_handle :: "handle_kind \<Rightarrow> int \<Rightarrow> odbc_handler \<Rightarrow> odbc_handler" where
  "count_handle k n h = h\<lparr>live := (live h)(k := live h k + n)\<rparr>"

section \<open>Closing\<close>

definition free_stmt :: "'d driver \<Rightarrow> odbc_handler \<Rightarrow> 'd \<Rightarrow> odbc_handler \<times> 'd" where
  "free_stmt dr h d =
     (if oh_stmt h then (count_handle H_stmt (- 1) (h\<lparr>oh_stmt := False\<rparr>), dr_free dr H_stmt d) else (h, d))"

definition handler_close :: "'d driver \<Rightarrow> odbc_handler \<Rightarrow> 'd \<Rightarrow> odbc_handler \<times> 'd" where
  "handler_close dr h d =
     (let (h1, d1) = free_stmt dr h d;
          (h2, d2) = (if oh_dbc h1
             then (count_handle H_dbc (- 1) (h1\<lparr>oh_dbc := False\<rparr>), dr_free dr H_dbc (dr_disconnect dr d1))
             else (h1, d1));
          (h3, d3) = (if oh_env h2
             then (count_handle H_env (- 1) (h2\<lparr>oh_env := False\<rparr>), dr_free dr H_env d2) else (h2, d2))
      in (h3\<lparr>oh_connected := False\<rparr>, d3))"

section \<open>Connecting\<close>

definition alloc_env :: "'d driver \<Rightarrow> odbc_handler \<Rightarrow> 'd \<Rightarrow> int \<times> odbc_handler \<times> 'd" where
  "alloc_env dr h d =
     (let (r, d1) = dr_alloc_env dr d
      in (r, count_handle H_env (if sql_good r then 1 else 0) (h\<lparr>oh_env := sql_good r\<rparr>), d1))"

definition alloc_dbc :: "'d driver \<Rightarrow> odbc_handler \<Rightarrow> 'd \<Rightarrow> int \<times> odbc_handler \<times> 'd" where
  "alloc_dbc dr h d =
     (let (r, d1) = dr_alloc_dbc dr d
      in (r, count_handle H_dbc (if sql_good r then 1 else 0) (h\<lparr>oh_dbc := sql_good r\<rparr>), d1))"

definition alloc_stmt :: "'d driver \<Rightarrow> odbc_handler \<Rightarrow> 'd \<Rightarrow> int \<times> odbc_handler \<times> 'd" where
  "alloc_stmt dr h d =
     (let (r, d1) = dr_alloc_stmt dr (oh_dbc h) d
      in (r, count_handle H_stmt (if sql_good r then 1 else 0) (h\<lparr>oh_stmt := sql_good r\<rparr>), d1))"

definition handler_connect ::
  "'d driver \<Rightarrow> wstring \<times> wstring \<times> wstring \<Rightarrow> odbc_handler \<Rightarrow> 'd \<Rightarrow> bool \<times> odbc_handler \<times> 'd" where
  "handler_connect dr info h d =
     (case info of (dsn, uid, pass) \<Rightarrow>
       if dsn = [] \<or> uid = [] \<or> pass = [] then (False, h, d)
       else
         let (h0, d0) = handler_close dr h d; (r1, h1, d1) = alloc_env dr h0 d0
         in if r1 \<noteq> sql_success then (False, h1, d1)
            else let (r2, h2, d2) = alloc_dbc dr h1 d1
              in if r2 \<noteq> sql_success then (False, h2, d2)
                 else let (r3, d3) = dr_set_timeout dr d2
                   in if r3 \<noteq> sql_success then (False, h2, d3)
                      else let (r4, d4) = dr_connect dr dsn uid pass d3
                        in if sql_good r4
                           then (True, h2\<lparr>oh_info := (dsn, uid, pass), oh_connected := True\<rparr>, d4)
                           else (False, h2, d4))"

text \<open>\<open>db_connect\<close> converts its arguments, which throws on text that is not UTF-8 (\<open>None\<close>); a
  failure is caught.\<close>

definition db_connect ::
  "(string \<Rightarrow> wstring option) \<Rightarrow> 'd driver \<Rightarrow> string \<Rightarrow> string \<Rightarrow> string \<Rightarrow> odbc_handler \<Rightarrow> 'd \<Rightarrow>
   bool \<times> odbc_handler \<times> 'd" where
  "db_connect utf dr dsn uid pass h d =
     (case (utf (c_string dsn), utf (c_string uid), utf (c_string pass)) of
        (Some a, Some b, Some c) \<Rightarrow> handler_connect dr (a, b, c) h d
      | _ \<Rightarrow> (False, h, d))"

definition db_close :: "'d driver \<Rightarrow> odbc_handler \<Rightarrow> 'd \<Rightarrow> odbc_handler \<times> 'd" where
  "db_close dr h d = handler_close dr h d"

definition diag_rec :: "'d driver \<Rightarrow> handle_kind \<Rightarrow> wstring \<Rightarrow> wstring \<Rightarrow> 'd \<Rightarrow> int \<times> wstring \<times> wstring \<times> 'd" where
  "diag_rec dr k state message d =
     (let (r, sql_state, msg, d1) = dr_diag dr k d
      in if r = sql_success then (r, sql_state, msg, d1) else (r, state, message, d1))"

section \<open>A statement to execute on\<close>

definition return_fetch_buffer :: "odbc_handler \<Rightarrow> odbc_handler" where
  "return_fetch_buffer h = h\<lparr>oh_pool := give_fetch_buffers (oh_bufs h) (oh_pool h), oh_bufs := []\<rparr>"

text \<open>\<open>close\<close>, \<open>connect\<close> with the stored names, whose result is not looked at, and a statement.\<close>

definition renew_stmt :: "'d driver \<Rightarrow> odbc_handler \<Rightarrow> 'd \<Rightarrow> int \<times> odbc_handler \<times> 'd" where
  "renew_stmt dr h d =
     (let (h1, d1) = handler_close dr h d; (_, h2, d2) = handler_connect dr (oh_info h1) h1 d1
      in alloc_stmt dr h2 d2)"

definition fresh_stmt :: "'d driver \<Rightarrow> odbc_handler \<Rightarrow> 'd \<Rightarrow> bool \<times> int \<times> odbc_handler \<times> 'd" where
  "fresh_stmt dr h d =
     (let (h1, d1) = free_stmt dr h d; (r, h2, d2) = alloc_stmt dr h1 d1
      in if sql_bad r then
           (let (r', h3, d3) = renew_stmt dr h2 d2 in (\<not> sql_bad r', r', h3, d3))
         else (True, r, h2, d2))"

definition probe :: "'d driver \<Rightarrow> odbc_handler \<Rightarrow> 'd \<Rightarrow> bool \<times> int \<times> odbc_handler \<times> 'd" where
  "probe dr h d =
     (let (r, dead, d1) = dr_dead dr (oh_dbc h) d
      in if sql_good r then
           (if dead then
              (let (r', h2, d2) = renew_stmt dr h d1
               in if sql_good r' then fresh_stmt dr h2 d2 else (False, r', h2, d2))
            else fresh_stmt dr h d1)
         else
           (let (r', h2, d2) = renew_stmt dr h d1
            in if sql_bad r' then (False, r', h2, d2) else fresh_stmt dr h2 d2))"

text \<open>The common head of the two \<open>exec\<close>: whether to go on, and \<open>sql_ret_\<close>.\<close>

definition open_statement :: "'d driver \<Rightarrow> odbc_handler \<Rightarrow> 'd \<Rightarrow> bool \<times> int \<times> odbc_handler \<times> 'd" where
  "open_statement dr h d =
     (let h0 = return_fetch_buffer h
      in if oh_connected h0 then probe dr h0 d
         else let (ok, h1, d1) = handler_connect dr (oh_info h0) h0 d
              in if ok then probe dr h1 d1 else (False, 0, h1, d1))"

section \<open>Parameters\<close>

definition alloc_fetch_buffer :: "'d driver \<Rightarrow> odbc_handler \<Rightarrow> 'd \<Rightarrow> fetch_buffer option \<times> odbc_handler \<times> 'd" where
  "alloc_fetch_buffer dr h d =
     (let (mem, d1) = (if oh_pool h = [] then dr_mem dr 0 d else (True, d));
          (fb, pool) = take_fetch_buffer mem (oh_pool h)
      in (fb, h\<lparr>oh_pool := pool\<rparr>, d1))"

text \<open>\<open>alloc_buf\<close>, whose result the callers do not look at.\<close>

definition resize_buf :: "'d driver \<Rightarrow> nat \<Rightarrow> fetch_buffer \<Rightarrow> 'd \<Rightarrow> fetch_buffer outcome \<times> 'd" where
  "resize_buf dr n fb d =
     (let (mem, d1) = (if fb_buf fb = Null \<or> fb_size fb < n then dr_mem dr n d else (True, d))
      in case alloc_buf mem n fb of None \<Rightarrow> (Faulted, d1) | Some (_, fb1) \<Rightarrow> (Returned fb1, d1))"

definition block_bytes :: "fetch_buffer \<Rightarrow> u8 list" where
  "block_bytes fb = (case fb_buf fb of Block b \<Rightarrow> b | _ \<Rightarrow> [])"

definition wide_bytes :: "wstring \<Rightarrow> u8 list" where
  "wide_bytes s = concat (map (\<lambda>c. enc_le 2 (unat c)) s)"

definition narrow_bytes :: "string \<Rightarrow> u8 list" where
  "narrow_bytes s = map of_char s"

text \<open>The buffer and the binding for one parameter.\<close>

definition param_binding :: "casts \<Rightarrow> param \<Rightarrow> fetch_buffer \<Rightarrow> (fetch_buffer \<times> binding) option" where
  "param_binding lc p fb =
     (let value = (\<lambda>v c t. let fb1 = fb\<lparr>fb_value := v\<rparr>
                    in Some (fb1, Binding c t 0 (enc_le 8 (unat (fb_value fb1)))));
          actual = (\<lambda>v c t. let fb1 = fb\<lparr>fb_actual := v\<rparr>
                    in Some (fb1, Binding c t 0 (enc_le 8 (unat (fb_actual fb1)))));
          chars = (\<lambda>bs c t. case store_bytes bs fb of None \<Rightarrow> None
                    | Some fb1 \<Rightarrow> Some (fb1, Binding c t (fb_size fb1) (block_bytes fb1)))
      in case p of
           P_uint8 v \<Rightarrow> value (ucast v) C_utinyint T_tinyint
         | P_short v \<Rightarrow> value (scast v) C_ushort T_smallint
         | P_int v \<Rightarrow> value (scast v) C_long T_integer
         | P_long v \<Rightarrow> value (scast v) C_long T_integer
         | P_float v \<Rightarrow> actual (promote lc v) C_float T_float
         | P_double v \<Rightarrow> actual v C_double T_double
         | P_int64 v \<Rightarrow> value v C_sbigint T_bigint
         | P_string s \<Rightarrow>
             chars (narrow_bytes s) C_char (if 8000 < length s then T_longvarchar else T_varchar)
         | P_wstring s \<Rightarrow>
             chars (wide_bytes s) C_wchar (if 4000 < length s then T_wlongvarchar else T_wvarchar)
         | P_other \<Rightarrow> None)"

text \<open>The size of the block a string parameter needs, with its terminator.\<close>

definition param_room :: "param \<Rightarrow> nat option" where
  "param_room p =
     (case p of
        P_string s \<Rightarrow> Some (length s + 1)
      | P_wstring s \<Rightarrow> Some (length s * 2 + 2)
      | _ \<Rightarrow> None)"

text \<open>One round of the loop: the buffer, the number of parameters bound and the return code. A
  type the code does not name binds nothing and keeps the previous code.\<close>

definition bind_one ::
  "'d driver \<Rightarrow> casts \<Rightarrow> param \<Rightarrow> nat \<Rightarrow> int \<Rightarrow> fetch_buffer \<Rightarrow> 'd \<Rightarrow> (fetch_buffer \<times> nat \<times> int) outcome \<times> 'd" where
  "bind_one dr lc p count ret fb d =
     (if p = P_other then (Returned (fb, count, ret), d)
      else
        let (r, d1) = (case param_room p of None \<Rightarrow> (Returned fb, d) | Some n \<Rightarrow> resize_buf dr n fb d)
        in case r of
             Faulted \<Rightarrow> (Faulted, d1)
           | Returned fb1 \<Rightarrow>
               (case param_binding lc p fb1 of
                  None \<Rightarrow> (Faulted, d1)
                | Some (fb2, b) \<Rightarrow>
                    let (ret', d2) = dr_bind dr (Suc count) b d1 in (Returned (fb2, Suc count, ret'), d2)))"

fun bind_loop ::
  "'d driver \<Rightarrow> casts \<Rightarrow> param list \<Rightarrow> nat \<Rightarrow> int \<Rightarrow> odbc_handler \<Rightarrow> 'd \<Rightarrow> bool outcome \<times> odbc_handler \<times> 'd" where
  "bind_loop dr lc [] count ret h d = (Returned True, h, d)"
| "bind_loop dr lc (p # ps) count ret h d =
     (let (a, h1, d1) = alloc_fetch_buffer dr h d
      in case a of
           None \<Rightarrow> (Returned False, h1, d1)
         | Some fb \<Rightarrow>
             (let (r, d2) = bind_one dr lc p count ret fb d1
              in case r of
                   Faulted \<Rightarrow> (Faulted, h1, d2)
                 | Returned (fb1, count1, ret1) \<Rightarrow>
                     (let h2 = h1\<lparr>oh_bufs := oh_bufs h1 @ [fb1]\<rparr>
                      in if sql_bad ret1 then (Returned False, h2, d2)
                         else bind_loop dr lc ps count1 ret1 h2 d2)))"

definition bind_parameters ::
  "'d driver \<Rightarrow> casts \<Rightarrow> command \<Rightarrow> u16 \<Rightarrow> odbc_handler \<Rightarrow> 'd \<Rightarrow> bool outcome \<times> odbc_handler \<times> 'd" where
  "bind_parameters dr lc cmd time_out h d =
     (let d0 = (if 0 < time_out then dr_stmt_timeout dr time_out d else d);
          (r, h1, d1) = bind_loop dr lc (cmd_params cmd) 0 sql_error h d0
      in if r \<noteq> Returned True then (r, h1, d1)
         else
           let (ret, d2) = dr_execute dr (cmd_query cmd) d1;
               h2 = h1\<lparr>executed := executed h1 @ [cmd_query cmd]\<rparr>
           in (Returned (\<not> sql_bad ret), h2, d2))"

section \<open>Handles\<close>

text \<open>The driver holds exactly the handles the handler holds.\<close>

definition handles_ok :: "odbc_handler \<Rightarrow> bool" where
  "handles_ok h \<longleftrightarrow> live h H_env = of_bool (oh_env h) \<and> live h H_dbc = of_bool (oh_dbc h) \<and>
     live h H_stmt = of_bool (oh_stmt h)"

text \<open>A connected handler has its handles.\<close>

definition connected_ok :: "odbc_handler \<Rightarrow> bool" where
  "connected_ok h \<longleftrightarrow> (oh_connected h \<longrightarrow> oh_env h \<and> oh_dbc h)"

definition handler_ok :: "odbc_handler \<Rightarrow> bool" where
  "handler_ok h \<longleftrightarrow> handles_ok h \<and> connected_ok h"

lemmas handler_ok_defs = handler_ok_def handles_ok_def connected_ok_def count_handle_def

lemma handler_ok_new [simp]: "handler_ok (handler_new mem delay)"
  by (simp add: handler_ok_defs handler_new_def)

lemma free_stmt_ok:
  assumes "free_stmt dr h d = (h', d')" "handler_ok h"
  shows "handler_ok h' \<and> \<not> oh_stmt h' \<and> oh_connected h' = oh_connected h \<and> oh_info h' = oh_info h \<and>
    executed h' = executed h \<and> oh_bufs h' = oh_bufs h \<and> oh_pool h' = oh_pool h"
  using assms by (auto simp: free_stmt_def handler_ok_defs split: if_splits)

lemma handler_close_ok:
  assumes "handler_close dr h d = (h', d')" "handler_ok h"
  shows "handler_ok h' \<and> \<not> oh_stmt h' \<and> \<not> oh_dbc h' \<and> \<not> oh_env h' \<and> \<not> oh_connected h' \<and>
    oh_info h' = oh_info h \<and> executed h' = executed h \<and> oh_bufs h' = oh_bufs h \<and> oh_pool h' = oh_pool h"
proof -
  obtain h1 d1 where 1: "free_stmt dr h d = (h1, d1)" by fastforce
  show ?thesis
    using assms(1) free_stmt_ok [OF 1 assms(2)]
    by (auto simp: handler_close_def 1 handler_ok_defs split: if_splits)
qed

lemma alloc_ok:
  "alloc_env dr h d = (r, h', d') \<Longrightarrow> handler_ok h \<Longrightarrow> \<not> oh_env h \<Longrightarrow>
     handler_ok h' \<and> h' = h\<lparr>oh_env := sql_good r, live := live h'\<rparr>"
  "alloc_dbc dr h d = (r, h', d') \<Longrightarrow> handler_ok h \<Longrightarrow> \<not> oh_dbc h \<Longrightarrow>
     handler_ok h' \<and> h' = h\<lparr>oh_dbc := sql_good r, live := live h'\<rparr>"
  "alloc_stmt dr h d = (r, h', d') \<Longrightarrow> handler_ok h \<Longrightarrow> \<not> oh_stmt h \<Longrightarrow>
     handler_ok h' \<and> h' = h\<lparr>oh_stmt := sql_good r, live := live h'\<rparr>"
  by (auto simp: alloc_env_def alloc_dbc_def alloc_stmt_def handler_ok_defs split: prod.splits)

text \<open>What connecting leaves alone.\<close>

definition same_work :: "odbc_handler \<Rightarrow> odbc_handler \<Rightarrow> bool" where
  "same_work h h' \<longleftrightarrow> executed h' = executed h \<and> oh_bufs h' = oh_bufs h \<and> oh_pool h' = oh_pool h"

lemma same_work_refl [simp]: "same_work h h"
  by (simp add: same_work_def)

lemma same_work_trans [trans]: "same_work a b \<Longrightarrow> same_work b c \<Longrightarrow> same_work a c"
  by (simp add: same_work_def)

lemma handler_connect_ok:
  assumes "handler_connect dr info h d = (ok, h', d')" "handler_ok h"
  shows "handler_ok h' \<and> same_work h h' \<and> (ok \<longrightarrow> oh_connected h' \<and> oh_info h' = info \<and> \<not> oh_stmt h') \<and>
    (\<not> ok \<longrightarrow> oh_info h' = oh_info h \<and> (h' = h \<or> \<not> oh_stmt h' \<and> \<not> oh_connected h'))"
proof -
  obtain dsn uid pass where info: "info = (dsn, uid, pass)" by (cases info)
  show ?thesis
  proof (cases "dsn = [] \<or> uid = [] \<or> pass = []")
    case True
    with assms info show ?thesis by (auto simp: handler_connect_def)
  next
    case False
    obtain h0 d0 where 0: "handler_close dr h d = (h0, d0)" by fastforce
    obtain r1 h1 d1 where 1: "alloc_env dr h0 d0 = (r1, h1, d1)" by (metis prod_cases3)
    obtain r2 h2 d2 where 2: "alloc_dbc dr h1 d1 = (r2, h2, d2)" by (metis prod_cases3)
    obtain r3 d3 where 3: "dr_set_timeout dr d2 = (r3, d3)" by fastforce
    obtain r4 d4 where 4: "dr_connect dr dsn uid pass d3 = (r4, d4)" by fastforce
    have c0: "handler_ok h0" "\<not> oh_stmt h0" "\<not> oh_dbc h0" "\<not> oh_env h0" "\<not> oh_connected h0" "same_work h h0"
      "oh_info h0 = oh_info h"
      using handler_close_ok [OF 0 assms(2)] by (simp_all add: same_work_def)
    have c1: "handler_ok h1" "h1 = h0\<lparr>oh_env := sql_good r1, live := live h1\<rparr>"
      using alloc_ok(1) [OF 1] c0 by auto
    moreover have "\<not> oh_dbc h1" by (subst c1(2)) (simp add: c0)
    ultimately have c2: "handler_ok h2" "h2 = h1\<lparr>oh_dbc := sql_good r2, live := live h2\<rparr>"
      using alloc_ok(2) [OF 2] by auto
    have s1: "same_work h h1" "\<not> oh_stmt h1" "\<not> oh_connected h1" "oh_info h1 = oh_info h" "oh_env h1 = sql_good r1"
      using c0 by (subst c1(2), simp add: same_work_def)+
    have s2: "same_work h h2" "\<not> oh_stmt h2" "\<not> oh_connected h2" "oh_info h2 = oh_info h" "oh_env h2 = sql_good r1"
      "oh_dbc h2 = sql_good r2"
      using s1 by (subst c2(2), simp add: same_work_def)+
    have "handler_connect dr info h d =
        (if r1 \<noteq> sql_success then (False, h1, d1)
         else if r2 \<noteq> sql_success then (False, h2, d2)
         else if r3 \<noteq> sql_success then (False, h2, d3)
         else if sql_good r4 then (True, h2\<lparr>oh_info := (dsn, uid, pass), oh_connected := True\<rparr>, d4)
         else (False, h2, d4))"
      using False by (simp add: handler_connect_def info 0 1 2 3 4)
    then show ?thesis
      using assms(1) c1(1) c2(1) s1 s2 info
      by (auto simp: handler_ok_defs same_work_def sql_good_def split: if_splits)
  qed
qed

lemma renew_stmt_ok:
  assumes "renew_stmt dr h d = (r, h', d')" "handler_ok h"
  shows "handler_ok h' \<and> same_work h h' \<and> oh_info h' = oh_info h \<and> (oh_stmt h' \<longleftrightarrow> sql_good r)"
proof -
  obtain h1 d1 where 1: "handler_close dr h d = (h1, d1)" by fastforce
  obtain ok h2 d2 where 2: "handler_connect dr (oh_info h1) h1 d1 = (ok, h2, d2)" by (metis prod_cases3)
  have 3: "alloc_stmt dr h2 d2 = (r, h', d')" using assms(1) by (simp add: renew_stmt_def 1 2)
  have c1: "handler_ok h1" "\<not> oh_stmt h1" "oh_info h1 = oh_info h" "same_work h h1"
    using handler_close_ok [OF 1 assms(2)] by (simp_all add: same_work_def)
  then have c2: "handler_ok h2" "\<not> oh_stmt h2" "oh_info h2 = oh_info h" "same_work h h2"
    using handler_connect_ok [OF 2] by (auto simp: same_work_def)
  have "h' = h2\<lparr>oh_stmt := sql_good r, live := live h'\<rparr>" "handler_ok h'"
    using alloc_ok(3) [OF 3 c2(1,2)] by auto
  then show ?thesis using c2 by (cases h2, cases h') (simp add: same_work_def)
qed

lemma fresh_stmt_ok:
  assumes "fresh_stmt dr h d = (ok, r, h', d')" "handler_ok h"
  shows "handler_ok h' \<and> same_work h h' \<and> oh_info h' = oh_info h"
proof -
  obtain h1 d1 where 1: "free_stmt dr h d = (h1, d1)" by fastforce
  obtain r2 h2 d2 where 2: "alloc_stmt dr h1 d1 = (r2, h2, d2)" by (metis prod_cases3)
  obtain r3 h3 d3 where 3: "renew_stmt dr h2 d2 = (r3, h3, d3)" by (metis prod_cases3)
  have c1: "handler_ok h1" "\<not> oh_stmt h1" "oh_info h1 = oh_info h" "same_work h h1"
    using free_stmt_ok [OF 1 assms(2)] by (simp_all add: same_work_def)
  then have c2: "handler_ok h2" "h2 = h1\<lparr>oh_stmt := sql_good r2, live := live h2\<rparr>"
    using alloc_ok(3) [OF 2] by auto
  then have s2: "same_work h h2" "oh_info h2 = oh_info h"
    using c1 by (cases h1, cases h2, simp add: same_work_def)+
  have "handler_ok h3" "same_work h h3" "oh_info h3 = oh_info h"
    using renew_stmt_ok [OF 3 c2(1)] s2 same_work_trans by auto
  then show ?thesis
    using assms(1) c2(1) s2 by (auto simp: fresh_stmt_def 1 2 3 split: if_splits)
qed

lemma probe_ok:
  assumes "probe dr h d = (ok, r, h', d')" "handler_ok h"
  shows "handler_ok h' \<and> same_work h h' \<and> oh_info h' = oh_info h"
proof -
  obtain r1 dead d1 where 1: "dr_dead dr (oh_dbc h) d = (r1, dead, d1)" by (metis prod_cases3)
  obtain r2 h2 d2 where 2: "renew_stmt dr h d1 = (r2, h2, d2)" by (metis prod_cases3)
  note c2 = renew_stmt_ok [OF 2 assms(2)]
  consider "h' = h2" | d3 where "fresh_stmt dr h d3 = (ok, r, h', d')"
    | d3 where "fresh_stmt dr h2 d3 = (ok, r, h', d')"
    using assms(1) by (auto simp: probe_def 1 2 split: if_splits)
  then show ?thesis
  proof cases
    case 1
    then show ?thesis using c2 by simp
  next
    case 2
    then show ?thesis using fresh_stmt_ok [OF 2 assms(2)] by simp
  next
    case 3
    then show ?thesis using fresh_stmt_ok [OF 3] c2 same_work_trans by auto
  qed
qed

lemma open_statement_ok:
  assumes "open_statement dr h d = (ok, r, h', d')" "handler_ok h"
  shows "handler_ok h' \<and> executed h' = executed h \<and> oh_info h' = oh_info h \<and> oh_bufs h' = [] \<and>
    oh_pool h' = give_fetch_buffers (oh_bufs h) (oh_pool h)"
proof -
  let ?h = "return_fetch_buffer h"
  have h: "handler_ok ?h" "executed ?h = executed h" "oh_info ?h = oh_info h" "oh_bufs ?h = []"
    "oh_pool ?h = give_fetch_buffers (oh_bufs h) (oh_pool h)"
    using assms(2) by (simp_all add: return_fetch_buffer_def handler_ok_defs)
  obtain ok1 h1 d1 where 1: "handler_connect dr (oh_info ?h) ?h d = (ok1, h1, d1)" by (metis prod_cases3)
  note c1 = handler_connect_ok [OF 1 h(1)]
  have i: "oh_info h1 = oh_info h" using c1 h(3) by (cases ok1) auto
  consider "probe dr ?h d = (ok, r, h', d')" | "probe dr h1 d1 = (ok, r, h', d')" | "h' = h1"
    using assms(1) by (auto simp: open_statement_def Let_def 1 split: if_splits)
  then show ?thesis
  proof cases
    case 1
    then show ?thesis using probe_ok [OF 1 h(1)] h by (simp add: same_work_def)
  next
    case 2
    then show ?thesis using probe_ok [OF 2] c1 i h by (simp add: same_work_def)
  next
    case 3
    then show ?thesis using c1 i h by (simp add: same_work_def)
  qed
qed

end
