(* ===== verification/OdbcExec.thy ===== *)
theory OdbcExec
  imports OdbcHandler
begin

text \<open>
  Fetching columns and rows, the two \<open>exec\<close> of a database connection, \<open>ping\<close> and
  \<open>db_reconnect\<close> (\<^verbatim>\<open>source/impl/odbc/odbc.cpp\<close>), and the laws of the handler: it neither leaks
  nor frees a handle twice.
\<close>

section \<open>One column\<close>

definition odbc_max_text :: nat where "odbc_max_text = 8000"

definition big_buffer_size :: nat where "big_buffer_size = 65535"

definition single_row_max_col :: nat where "single_row_max_col = 100"

text \<open>The SQL type codes.\<close>

definition wide_types :: "int list" where "wide_types = [- 8, - 9, - 10]"

definition binary_types :: "int list" where "binary_types = [- 2, - 3, - 4]"

definition text_types :: "int list" where "text_types = [1, 12, - 1, - 2, - 3, - 4, 11]"

definition double_types :: "int list" where "double_types = [2, 3, 8]"

definition float_types :: "int list" where "float_types = [6, 7]"

definition sql_tinyint :: int where "sql_tinyint = - 6"
definition sql_smallint :: int where "sql_smallint = 5"
definition sql_integer :: int where "sql_integer = 4"
definition sql_bigint :: int where "sql_bigint = - 5"

lemmas sql_types = wide_types_def binary_types_def text_types_def double_types_def float_types_def
  sql_tinyint_def sql_smallint_def sql_integer_def sql_bigint_def

definition column_c_type :: "int \<Rightarrow> c_type" where
  "column_c_type t =
     (if t \<in> set wide_types then C_wchar else if t \<in> set binary_types then C_binary else C_char)"

text \<open>How a fetch ends: with the values, with \<open>false\<close>, with an exception, which \<open>exec\<close>
  catches, or with an access outside a buffer.\<close>

datatype status = Fetched | Refused | Threw | Overread

definition c_text :: "u8 list \<Rightarrow> u8 list option" where
  "c_text b = (if 0 \<in> set b then Some (takeWhile (\<lambda>c. c \<noteq> 0) b) else None)"

definition with_block :: "fetch_buffer \<Rightarrow> int \<Rightarrow> param \<Rightarrow> (u8 list \<Rightarrow> status \<times> param list) \<Rightarrow> status \<times> param list" where
  "with_block fb len z f =
     (if fb_buf fb = Null \<or> len \<le> 0 then (Fetched, [z])
      else case fb_buf fb of Block b \<Rightarrow> f b | _ \<Rightarrow> (Overread, []))"

definition parse_text :: "(u8 list \<Rightarrow> 'v option) \<Rightarrow> ('v \<Rightarrow> param) \<Rightarrow> u8 list \<Rightarrow> status \<times> param list" where
  "parse_text cast mk b =
     (case c_text b of
        None \<Rightarrow> (Overread, [])
      | Some s \<Rightarrow> (case cast s of None \<Rightarrow> (Threw, []) | Some v \<Rightarrow> (Fetched, [mk v])))"

fun decode_wide :: "u8 list \<Rightarrow> wstring" where
  "decode_wide (a # b # bs) = (word_of_nat (dec_le [a, b])) # decode_wide bs"
| "decode_wide _ = []"

definition column_value :: "casts \<Rightarrow> int \<Rightarrow> int \<Rightarrow> fetch_buffer \<Rightarrow> status \<times> param list" where
  "column_value lc t len fb =
     (if t = sql_tinyint then with_block fb len (P_uint8 0) (parse_text (lc_u16 lc) (\<lambda>v. P_uint8 (ucast v)))
      else if t = sql_smallint then with_block fb len (P_short 0) (parse_text (lc_short lc) P_short)
      else if t = sql_integer then with_block fb len (P_int 0) (parse_text (lc_int lc) P_int)
      else if t \<in> set float_types then with_block fb len (P_float 0) (parse_text (lc_float lc) P_float)
      else if t \<in> set double_types then with_block fb len (P_double 0) (parse_text (lc_double lc) P_double)
      else if t = sql_bigint then with_block fb len (P_int64 0) (parse_text (lc_int64 lc) P_int64)
      else if t \<in> set text_types then
        with_block fb len (P_string [])
          (\<lambda>b. if nat len \<le> length b
               then (Fetched, [P_string (map (\<lambda>c. char_of (unat c)) (take (nat len) b))])
               else (Overread, []))
      else if t \<in> set wide_types then
        with_block fb len (P_wstring [])
          (\<lambda>b. if 2 * (nat len div 2) \<le> length b
               then (Fetched, [P_wstring (decode_wide (take (2 * (nat len div 2)) b))])
               else (Overread, []))
      else (Fetched, []))"

text \<open>What \<open>SQLGetData\<close> writes to the block it is given; it stays within the size it is told.\<close>

definition driver_writes :: "u8 list \<Rightarrow> fetch_buffer \<Rightarrow> fetch_buffer outcome" where
  "driver_writes bs fb =
     (case fb_buf fb of
        Null \<Rightarrow> Returned fb
      | Dangling \<Rightarrow> Faulted
      | Block b \<Rightarrow> Returned (fb\<lparr>fb_buf := Block (take (length b) bs @ drop (length bs) b)\<rparr>))"

text \<open>A long or binary value goes through the big buffer; the length is the one the driver
  reports.\<close>

definition big_column :: "'d driver \<Rightarrow> nat \<Rightarrow> c_type \<Rightarrow> fetch_buffer \<Rightarrow> 'd \<Rightarrow> fetch_buffer outcome \<times> int \<times> 'd" where
  "big_column dr i c fb d =
     (let (rc, bytes, len, d1) = dr_get_data dr (Suc i) c big_buffer_size d;
          fb1 = fb\<lparr>fb_column_size := word_of_int len\<rparr>;
          big = take big_buffer_size (bytes @ replicate big_buffer_size 0);
          (r, d2) = resize_buf dr (unat (fb_column_size fb1 + 1)) fb1 d1
      in case r of
           Faulted \<Rightarrow> (Faulted, len, d2)
         | Returned fb2 \<Rightarrow>
             if len < 0 \<or> int big_buffer_size < len then (Faulted, len, d2)
             else (case store_bytes (take (nat len) big) fb2 of
                     None \<Rightarrow> (Faulted, len, d2) | Some fb3 \<Rightarrow> (Returned fb3, len, d2)))"

definition small_column :: "'d driver \<Rightarrow> nat \<Rightarrow> c_type \<Rightarrow> nat \<Rightarrow> fetch_buffer \<Rightarrow> 'd \<Rightarrow> fetch_buffer outcome \<times> int \<times> 'd" where
  "small_column dr i c col fb d =
     (let fb1 = fb\<lparr>fb_column_size := of_nat col\<rparr>;
          (r, d1) = resize_buf dr (unat (fb_column_size fb1 + 1)) fb1 d
      in case r of
           Faulted \<Rightarrow> (Faulted, 0, d1)
         | Returned fb2 \<Rightarrow>
             (let (rc, bytes, len, d2) = dr_get_data dr (Suc i) c (fb_size fb2) d1
              in (driver_writes bytes fb2, len, d2)))"

text \<open>One round of the loop. The return code of \<open>SQLGetData\<close> is kept in \<open>rc\<close>, but the check after
  it is on \<open>ret\<close>, the code of \<open>SQLDescribeCol\<close>, which is good here.\<close>

definition fetch_column ::
  "'d driver \<Rightarrow> casts \<Rightarrow> nat \<Rightarrow> odbc_handler \<Rightarrow> 'd \<Rightarrow> status \<times> param list \<times> odbc_handler \<times> 'd" where
  "fetch_column dr lc i h d =
     (let (a, h1, d1) = alloc_fetch_buffer dr h d
      in case a of
           None \<Rightarrow> (Refused, [], h1, d1)
         | Some fb \<Rightarrow>
             (let (ret, t, col, d2) = dr_describe dr (Suc i) d1
              in if \<not> sql_good ret then (Refused, [], h1\<lparr>oh_bufs := oh_bufs h1 @ [fb]\<rparr>, d2)
                 else
                   let c = column_c_type t;
                       fb0 = (if c = C_wchar then fb\<lparr>fb_column_size := fb_column_size fb * 2\<rparr> else fb);
                       (r, len, d3) = (if odbc_max_text < col \<or> c = C_binary then big_column dr i c fb0 d2
                                       else small_column dr i c col fb0 d2)
                   in case r of
                        Faulted \<Rightarrow> (Overread, [], h1, d3)
                      | Returned fb1 \<Rightarrow>
                          (let (s, vs) = column_value lc t len fb1
                           in (s, vs, h1\<lparr>oh_bufs := oh_bufs h1 @ [fb1]\<rparr>, d3))))"

section \<open>Rows\<close>

fun fetch_columns ::
  "'d driver \<Rightarrow> casts \<Rightarrow> nat list \<Rightarrow> param list \<Rightarrow> odbc_handler \<Rightarrow> 'd \<Rightarrow> status \<times> param list \<times> odbc_handler \<times> 'd" where
  "fetch_columns dr lc [] out h d = (Fetched, out, h, d)"
| "fetch_columns dr lc (i # is) out h d =
     (let (s, vs, h1, d1) = fetch_column dr lc i h d
      in if s = Fetched then fetch_columns dr lc is (out @ vs) h1 d1 else (s, out, h1, d1))"

definition handler_fetch ::
  "'d driver \<Rightarrow> casts \<Rightarrow> param list \<Rightarrow> odbc_handler \<Rightarrow> 'd \<Rightarrow> status \<times> param list \<times> odbc_handler \<times> 'd" where
  "handler_fetch dr lc out h d =
     (if \<not> oh_stmt h then (Refused, out, h, d)
      else
        let (ret, col_size, d1) = dr_columns dr d
        in if \<not> sql_good ret \<or> single_row_max_col < col_size then (Refused, out, h, d1)
           else fetch_columns dr lc [0..<col_size] out h d1)"

fun status_outcome :: "status \<Rightarrow> bool outcome" where
  "status_outcome Fetched = Returned True"
| "status_outcome Overread = Faulted"
| "status_outcome _ = Returned False"

text \<open>The callers pass an empty vector for the result.\<close>

definition exec_row ::
  "'d driver \<Rightarrow> casts \<Rightarrow> command \<Rightarrow> u16 \<Rightarrow> odbc_handler \<Rightarrow> 'd \<Rightarrow>
   bool outcome \<times> int \<times> param list \<times> odbc_handler \<times> 'd" where
  "exec_row dr lc cmd time_out h d =
     (let (ok, sql_ret, h1, d1) = open_statement dr h d
      in if \<not> ok then (Returned False, sql_ret, [], h1, d1)
         else
           let (b, h2, d2) = bind_parameters dr lc cmd time_out h1 d1
           in if b \<noteq> Returned True then (b, sql_ret, [], h2, d2)
              else
                let (r, row_size, d3) = dr_fetch dr d2
                in if \<not> sql_good r \<or> row_size = 0 then (Returned False, r, [], h2, d3)
                   else let (s, out, h3, d4) = handler_fetch dr lc [] h2 d3
                        in (status_outcome s, r, out, h3, d4))"

text \<open>The loop over the rows ends when the driver says so: \<open>None\<close> if it never does.\<close>

partial_function (option) fetch_rows ::
  "'d driver \<Rightarrow> casts \<Rightarrow> param list list \<Rightarrow> odbc_handler \<Rightarrow> 'd \<Rightarrow>
   (bool outcome \<times> int \<times> param list list \<times> odbc_handler \<times> 'd) option" where
  "fetch_rows dr lc out h d =
     (let (r, row_size, d1) = dr_fetch dr d
      in if r = sql_no_data then Some (Returned True, r, out, h, d1)
         else if \<not> sql_good r \<or> row_size = 0 then Some (Returned False, r, out, h, d1)
         else
           let (s, row, h1, d2) = handler_fetch dr lc [] h d1
           in if s = Fetched then fetch_rows dr lc (out @ [row]) h1 d2
              else Some (status_outcome s, r, out @ [row], h1, d2))"

definition exec_rows ::
  "'d driver \<Rightarrow> casts \<Rightarrow> command \<Rightarrow> u16 \<Rightarrow> odbc_handler \<Rightarrow> 'd \<Rightarrow>
   (bool outcome \<times> int \<times> param list list \<times> odbc_handler \<times> 'd) option" where
  "exec_rows dr lc cmd time_out h d =
     (let (ok, sql_ret, h1, d1) = open_statement dr h d
      in if \<not> ok then Some (Returned False, sql_ret, [], h1, d1)
         else
           let (b, h2, d2) = bind_parameters dr lc cmd time_out h1 d1
           in if b \<noteq> Returned True then Some (b, sql_ret, [], h2, d2)
              else fetch_rows dr lc [] h2 d2)"

section \<open>ping and db_reconnect\<close>

definition odbc_timeout :: u16 where "odbc_timeout = 2"

definition ping :: "'d driver \<Rightarrow> casts \<Rightarrow> odbc_handler \<Rightarrow> 'd \<Rightarrow> bool outcome \<times> odbc_handler \<times> 'd" where
  "ping dr lc h d =
     (let (b, _, _, h1, d1) = exec_row dr lc (ping_query command_new) odbc_timeout h d in (b, h1, d1))"

definition db_reconnect :: "'d driver \<Rightarrow> casts \<Rightarrow> odbc_handler \<Rightarrow> 'd \<Rightarrow> bool outcome \<times> odbc_handler \<times> 'd" where
  "db_reconnect dr lc h d =
     (let (b, h1, d1) = ping dr lc h d
      in if b \<noteq> Returned False then (b, h1, d1)
         else
           let (h2, d2) = handler_close dr h1 d1; (ok, h3, d3) = handler_connect dr (oh_info h2) h2 d2
           in (Returned ok, h3, d3))"

definition handler_set_delay :: "u64 \<Rightarrow> odbc_handler \<Rightarrow> odbc_handler" where
  "handler_set_delay delay h = h\<lparr>oh_delay := delay\<rparr>"

end
