(* ===== verification/OdbcDemo.thy ===== *)
theory OdbcDemo
  imports OdbcExec
begin

text \<open>
  An example driver and example conversions, on which the witnesses evaluate the model: the
  driver accepts everything and serves a table. Its state is the rows still to come and the
  current row; a cell is its type, its column size, its bytes and the length reported.
\<close>

type_synonym demo_cell = "int \<times> nat \<times> u8 list \<times> int"

type_synonym demo_state = "demo_cell list list \<times> demo_cell list"

definition demo_get_data :: "nat \<Rightarrow> c_type \<Rightarrow> nat \<Rightarrow> demo_state \<Rightarrow> int \<times> u8 list \<times> int \<times> demo_state" where
  "demo_get_data i c n d =
     (case snd d ! (i - 1) of (_, _, bytes, len) \<Rightarrow>
        (0, if c = C_char then take (n - 1) bytes @ [0]
            else if c = C_wchar then take (n - 2) bytes @ [0, 0] else take n bytes, len, d))"

definition demo_driver :: "demo_state driver" where
  "demo_driver =
     \<lparr>dr_alloc_env = (\<lambda>d. (0, d)), dr_alloc_dbc = (\<lambda>d. (0, d)), dr_set_timeout = (\<lambda>d. (0, d)),
      dr_connect = (\<lambda>_ _ _ d. (0, d)), dr_disconnect = (\<lambda>d. d), dr_free = (\<lambda>_ d. d),
      dr_dead = (\<lambda>_ d. (0, False, d)), dr_alloc_stmt = (\<lambda>_ d. (0, d)), dr_stmt_timeout = (\<lambda>_ d. d),
      dr_bind = (\<lambda>_ _ d. (0, d)), dr_execute = (\<lambda>_ d. (0, d)),
      dr_fetch = (\<lambda>d. case fst d of [] \<Rightarrow> (100, 0, ([], [])) | r # rs \<Rightarrow> (0, 1, (rs, r))),
      dr_columns = (\<lambda>d. (0, length (snd d), d)),
      dr_describe = (\<lambda>i d. case snd d ! (i - 1) of (t, col, _, _) \<Rightarrow> (0, t, col, d)),
      dr_get_data = demo_get_data, dr_diag = (\<lambda>_ d. (100, [], [], d)), dr_mem = (\<lambda>_ d. (True, d))\<rparr>"

lemma demo_driver_simps [simp]:
  "dr_alloc_env demo_driver d = (0, d)" "dr_alloc_dbc demo_driver d = (0, d)"
  "dr_set_timeout demo_driver d = (0, d)" "dr_connect demo_driver u v w d = (0, d)"
  "dr_disconnect demo_driver d = d" "dr_free demo_driver k d = d" "dr_dead demo_driver x d = (0, False, d)"
  "dr_alloc_stmt demo_driver x d = (0, d)" "dr_stmt_timeout demo_driver t d = d"
  "dr_bind demo_driver n bi d = (0, d)" "dr_execute demo_driver q d = (0, d)"
  "dr_fetch demo_driver ([], cur) = (100, 0, ([], []))" "dr_fetch demo_driver (r # rs, cur) = (0, 1, (rs, r))"
  "dr_columns demo_driver d = (0, length (snd d), d)"
  "dr_describe demo_driver i d = (case snd d ! (i - 1) of (t, col, _, _) \<Rightarrow> (0, t, col, d))"
  "dr_get_data demo_driver = demo_get_data" "dr_mem demo_driver n d = (True, d)"
  by (simp_all add: demo_driver_def)

fun parse_digits :: "nat \<Rightarrow> u8 list \<Rightarrow> nat option" where
  "parse_digits acc [] = Some acc"
| "parse_digits acc (c # cs) =
     (if 48 \<le> c \<and> c \<le> 57 then parse_digits (10 * acc + (unat c - 48)) cs else None)"

definition parse_int :: "u8 list \<Rightarrow> int option" where
  "parse_int s =
     (case s of
        [] \<Rightarrow> None
      | c # cs \<Rightarrow> if c = 45 then map_option (\<lambda>n. - int n) (parse_digits 0 cs) else map_option int (parse_digits 0 s))"

definition demo_casts :: casts where
  "demo_casts =
     \<lparr>lc_u16 = (\<lambda>s. map_option word_of_int (parse_int s)), lc_short = (\<lambda>s. map_option word_of_int (parse_int s)),
      lc_int = (\<lambda>s. map_option word_of_int (parse_int s)), lc_int64 = (\<lambda>s. map_option word_of_int (parse_int s)),
      lc_float = (\<lambda>_. None), lc_double = (\<lambda>_. None),
      promote = (\<lambda>f. if f = 0x3F800000 then 0x3FF0000000000000 else 0)\<rparr>"

lemma fill_buffers_none: "fill_buffers (\<lambda>_. False) n = []"
  by (induction n) simp_all

definition demo_handler :: odbc_handler where
  "demo_handler = (handler_new (\<lambda>_. False) 50)\<lparr>oh_info := (widen ''dsn'', widen ''id'', widen ''pass'')\<rparr>"

lemma demo_handler_simps [simp]:
  "oh_pool demo_handler = []" "oh_bufs demo_handler = []" "oh_connected demo_handler = False"
  "oh_env demo_handler = False" "oh_dbc demo_handler = False" "oh_stmt demo_handler = False"
  "oh_info demo_handler = (widen ''dsn'', widen ''id'', widen ''pass'')" "executed demo_handler = []"
  by (simp_all add: demo_handler_def handler_new_def fill_buffers_none)

end
