(* ===== verification/OdbcProps.thy ===== *)
theory OdbcProps
  imports OdbcDemo
begin

text \<open>
  What a database connection guarantees: its handles are neither leaked nor freed twice, the
  values the driver reads for the parameters, the values of columns, the rows of a result
  set; and the inputs on which the code reads outside its buffers or corrupts a value.
\<close>

section \<open>Executing touches the buffers only\<close>

definition buffers_only :: "odbc_handler \<Rightarrow> odbc_handler \<Rightarrow> bool" where
  "buffers_only h h' \<longleftrightarrow> h' = h\<lparr>oh_pool := oh_pool h', oh_bufs := oh_bufs h'\<rparr>"

lemma buffers_only_refl [simp]: "buffers_only h h"
  by (simp add: buffers_only_def)

lemma buffers_only_trans [trans]: "buffers_only a b \<Longrightarrow> buffers_only b c \<Longrightarrow> buffers_only a c"
  by (cases a, cases b, cases c) (simp add: buffers_only_def)

lemma buffers_only_upd [simp]:
  "buffers_only h (h'\<lparr>oh_bufs := bs\<rparr>) \<longleftrightarrow> buffers_only h h'"
  "buffers_only h (h'\<lparr>oh_pool := ps\<rparr>) \<longleftrightarrow> buffers_only h h'"
  by (cases h, cases h', simp add: buffers_only_def)+

lemma buffers_only_sel:
  "buffers_only h h' \<Longrightarrow> oh_env h' = oh_env h \<and> oh_dbc h' = oh_dbc h \<and> oh_stmt h' = oh_stmt h \<and>
     oh_info h' = oh_info h \<and> oh_connected h' = oh_connected h \<and> live h' = live h \<and> executed h' = executed h"
  by (cases h, cases h') (simp add: buffers_only_def)

lemma buffers_only_ok: "buffers_only h h' \<Longrightarrow> handler_ok h' \<longleftrightarrow> handler_ok h"
  using buffers_only_sel [of h h'] by (simp add: handler_ok_defs)

lemma alloc_fetch_buffer_frame:
  "alloc_fetch_buffer dr h d = (a, h', d') \<Longrightarrow> buffers_only h h'"
  by (auto simp: alloc_fetch_buffer_def split: prod.splits)

lemma bind_loop_frame:
  "bind_loop dr lc ps count ret h d = (r, h', d') \<Longrightarrow> buffers_only h h'"
proof (induction ps arbitrary: count ret h d)
  case Nil
  then show ?case by simp
next
  case (Cons p ps)
  obtain a h1 d1 where 1: "alloc_fetch_buffer dr h d = (a, h1, d1)" by (metis prod_cases3)
  have f: "buffers_only h h1" using alloc_fetch_buffer_frame [OF 1] .
  show ?case
  proof (cases a)
    case None
    with Cons.prems 1 f show ?thesis by simp
  next
    case (Some fb)
    obtain o1 d2 where 2: "bind_one dr lc p count ret fb d1 = (o1, d2)" by fastforce
    show ?thesis
    proof (cases o1)
      case Faulted
      with Cons.prems 1 2 Some f show ?thesis by simp
    next
      case (Returned v)
      obtain fb1 c1 r1 where v: "v = (fb1, c1, r1)" by (cases v)
      let ?h = "h1\<lparr>oh_bufs := oh_bufs h1 @ [fb1]\<rparr>"
      have "h' = ?h \<or> bind_loop dr lc ps c1 r1 ?h d2 = (r, h', d')"
        using Cons.prems 1 2 Some Returned v by (auto simp: Let_def split: if_splits)
      moreover have "buffers_only h ?h" using f by simp
      ultimately show ?thesis using Cons.IH buffers_only_trans by blast
    qed
  qed
qed

lemma bind_parameters_frame:
  assumes "bind_parameters dr lc cmd t h d = (r, h', d')"
  shows "(buffers_only h h' \<and> r \<noteq> Returned True) \<or>
    (\<exists>h1. buffers_only h h1 \<and> h' = h1\<lparr>executed := executed h1 @ [cmd_query cmd]\<rparr>)"
proof -
  let ?d = "if 0 < t then dr_stmt_timeout dr t d else d"
  obtain r1 h1 d1 where 1: "bind_loop dr lc (cmd_params cmd) 0 sql_error h ?d = (r1, h1, d1)"
    by (metis prod_cases3)
  show ?thesis
    using assms bind_loop_frame [OF 1] by (auto simp: bind_parameters_def 1 split: if_splits prod.splits)
qed

lemma fetch_column_frame:
  assumes "fetch_column dr lc i h d = (s, vs, h', d')"
  shows "buffers_only h h'"
proof -
  obtain a h1 d1 where 1: "alloc_fetch_buffer dr h d = (a, h1, d1)" by (metis prod_cases3)
  have "h' = h1 \<or> (\<exists>fb. h' = h1\<lparr>oh_bufs := oh_bufs h1 @ [fb]\<rparr>)"
    using assms by (auto simp: fetch_column_def 1 Let_def split: option.splits prod.splits if_splits outcome.splits)
  then show ?thesis using alloc_fetch_buffer_frame [OF 1] by auto
qed

lemma fetch_columns_frame:
  "fetch_columns dr lc is out h d = (s, vs, h', d') \<Longrightarrow> buffers_only h h'"
proof (induction "is" arbitrary: out h d)
  case Nil
  then show ?case by simp
next
  case (Cons i "is")
  obtain s1 v1 h1 d1 where 1: "fetch_column dr lc i h d = (s1, v1, h1, d1)" by (metis prod_cases4)
  show ?case
    using Cons.prems Cons.IH fetch_column_frame [OF 1] buffers_only_trans
    by (auto simp: 1 split: if_splits)
qed

lemma handler_fetch_frame:
  "handler_fetch dr lc out h d = (s, vs, h', d') \<Longrightarrow> buffers_only h h'"
  by (auto simp: handler_fetch_def split: if_splits prod.splits dest: fetch_columns_frame)

text \<open>What an execution may do to a handler: keep it well-formed, and hand over the query once.\<close>

definition exec_ok :: "wstring \<Rightarrow> odbc_handler \<Rightarrow> odbc_handler \<Rightarrow> bool" where
  "exec_ok q h h' \<longleftrightarrow> handler_ok h' \<and> oh_info h' = oh_info h \<and>
     (executed h' = executed h \<or> executed h' = executed h @ [q])"

lemma exec_ok_frame: "exec_ok q h h1 \<Longrightarrow> buffers_only h1 h' \<Longrightarrow> exec_ok q h h'"
  using buffers_only_ok [of h1 h'] buffers_only_sel [of h1 h'] by (simp add: exec_ok_def)

lemma head_ok:
  assumes "open_statement dr h d = (ok, r, h1, d1)" "handler_ok h"
  shows "exec_ok (cmd_query cmd) h h1"
    and "bind_parameters dr lc cmd t h1 d1 = (b, h2, d2) \<Longrightarrow> exec_ok (cmd_query cmd) h h2"
proof -
  note o = open_statement_ok [OF assms]
  then show 1: "exec_ok (cmd_query cmd) h h1" by (simp add: exec_ok_def)
  assume b: "bind_parameters dr lc cmd t h1 d1 = (b, h2, d2)"
  from bind_parameters_frame [OF this] show "exec_ok (cmd_query cmd) h h2"
  proof (elim disjE exE conjE)
    assume "buffers_only h1 h2"
    with 1 show ?thesis by (rule exec_ok_frame)
  next
    fix h3
    assume "buffers_only h1 h3" and h2: "h2 = h3\<lparr>executed := executed h3 @ [cmd_query cmd]\<rparr>"
    then have "handler_ok h3" "oh_info h3 = oh_info h1" "executed h3 = executed h1"
      using o buffers_only_ok [of h1 h3] buffers_only_sel [of h1 h3] by simp_all
    with o h2 show ?thesis by (simp add: exec_ok_def handler_ok_defs)
  qed
qed

lemma exec_row_ok:
  assumes "exec_row dr lc cmd t h d = (b, r, out, h', d')" "handler_ok h"
  shows "exec_ok (cmd_query cmd) h h'"
proof -
  obtain ok r1 h1 d1 where 1: "open_statement dr h d = (ok, r1, h1, d1)" by (metis prod_cases4)
  obtain b2 h2 d2 where 2: "bind_parameters dr lc cmd t h1 d1 = (b2, h2, d2)" by (metis prod_cases3)
  obtain r3 n d3 where 3: "dr_fetch dr d2 = (r3, n, d3)" by (metis prod_cases3)
  obtain s4 o4 h4 d4 where 4: "handler_fetch dr lc [] h2 d3 = (s4, o4, h4, d4)" by (metis prod_cases4)
  note h1 = head_ok(1) [OF 1 assms(2), of cmd] and h2 = head_ok(2) [OF 1 assms(2) 2]
  have "h' = h1 \<or> h' = h2 \<or> h' = h4"
    using assms(1) by (auto simp: exec_row_def 1 2 3 4 split: if_splits)
  then show ?thesis using h1 h2 exec_ok_frame [OF h2 handler_fetch_frame [OF 4]] by auto
qed

lemma fetch_rows_frame:
  assumes "fetch_rows dr lc out h d = Some (b, r, out', h', d')"
  shows "buffers_only h h'"
proof -
  let ?P = "\<lambda>out h d (res :: bool outcome \<times> int \<times> param list list \<times> odbc_handler \<times> 'a).
    buffers_only h (fst (snd (snd (snd res))))"
  have "?P out h d (b, r, out', h', d')"
  proof (rule fetch_rows.raw_induct [where P = "\<lambda>_ _. ?P", OF _ assms])
    fix f :: "'a driver \<Rightarrow> casts \<Rightarrow> param list list \<Rightarrow> odbc_handler \<Rightarrow> 'a \<Rightarrow>
      (bool outcome \<times> int \<times> param list list \<times> odbc_handler \<times> 'a) option"
    fix dr lc out h d res
    assume IH: "\<And>dr lc out h d res. f dr lc out h d = Some res \<Longrightarrow> ?P out h d res"
      and eq: "(let (r, row_size, d1) = dr_fetch dr d
        in if r = sql_no_data then Some (Returned True, r, out, h, d1)
           else if \<not> sql_good r \<or> row_size = 0 then Some (Returned False, r, out, h, d1)
           else let (s, row, h1, d2) = handler_fetch dr lc [] h d1
             in if s = Fetched then f dr lc (out @ [row]) h1 d2
                else Some (status_outcome s, r, out @ [row], h1, d2)) = Some res"
    obtain r3 n d3 where 3: "dr_fetch dr d = (r3, n, d3)" by (metis prod_cases3)
    obtain s4 o4 h4 d4 where 4: "handler_fetch dr lc [] h d3 = (s4, o4, h4, d4)" by (metis prod_cases4)
    have "fst (snd (snd (snd res))) = h \<or> fst (snd (snd (snd res))) = h4 \<or> f dr lc (out @ [o4]) h4 d4 = Some res"
      using eq by (auto simp: 3 4 split: if_splits)
    then show "?P out h d res"
      using handler_fetch_frame [OF 4] IH [of dr lc "out @ [o4]" h4 d4 res] buffers_only_trans by auto
  qed
  then show ?thesis by simp
qed

lemma exec_rows_ok:
  assumes "exec_rows dr lc cmd t h d = Some (b, r, out, h', d')" "handler_ok h"
  shows "exec_ok (cmd_query cmd) h h'"
proof -
  obtain ok r1 h1 d1 where 1: "open_statement dr h d = (ok, r1, h1, d1)" by (metis prod_cases4)
  obtain b2 h2 d2 where 2: "bind_parameters dr lc cmd t h1 d1 = (b2, h2, d2)" by (metis prod_cases3)
  note h1 = head_ok(1) [OF 1 assms(2), of cmd] and h2 = head_ok(2) [OF 1 assms(2) 2]
  have "h' = h1 \<or> h' = h2 \<or> fetch_rows dr lc [] h2 d2 = Some (b, r, out, h', d')"
    using assms(1) by (auto simp: exec_rows_def 1 2 split: if_splits)
  then show ?thesis using h1 h2 exec_ok_frame [OF h2 fetch_rows_frame] by auto
qed

lemma ping_text: "cmd_query (ping_query c) = widen ''{ select 0 }''"
  by (simp add: ping_query_def)

lemma db_reconnect_ok:
  assumes "db_reconnect dr lc h d = (b, h', d')" "handler_ok h"
  shows "exec_ok (widen ''{ select 0 }'') h h'"
proof -
  obtain b1 r1 o1 h1 d1 where 1: "exec_row dr lc (ping_query command_new) odbc_timeout h d = (b1, r1, o1, h1, d1)"
    by (metis prod_cases5)
  obtain h2 d2 where 2: "handler_close dr h1 d1 = (h2, d2)" by fastforce
  obtain ok h3 d3 where 3: "handler_connect dr (oh_info h2) h2 d2 = (ok, h3, d3)" by (metis prod_cases3)
  have e: "exec_ok (widen ''{ select 0 }'') h h1"
    using exec_row_ok [OF 1 assms(2)] by (simp add: ping_text)
  then have c2: "handler_ok h2" "oh_info h2 = oh_info h1" "executed h2 = executed h1"
    using handler_close_ok [OF 2] by (auto simp: exec_ok_def)
  then have "handler_ok h3" "oh_info h3 = oh_info h1" "executed h3 = executed h1"
    using handler_connect_ok [OF 3] by (cases ok; simp add: same_work_def)+
  moreover have "h' = h1 \<or> h' = h3"
    using assms(1) by (auto simp: db_reconnect_def ping_def 1 2 3 split: if_splits)
  ultimately show ?thesis using e by (auto simp: exec_ok_def)
qed

section \<open>Every handle is given back\<close>

text \<open>The operations of a handler, in any order, over any driver; a run that accesses memory
  it does not own has no meaning afterwards and takes no step.\<close>

inductive odbc_reachable :: "'d driver \<Rightarrow> casts \<Rightarrow> (string \<Rightarrow> wstring option) \<Rightarrow> odbc_handler \<Rightarrow> 'd \<Rightarrow> bool"
  for dr lc utf where
  or_new: "odbc_reachable dr lc utf (handler_new mem delay) d"
| or_connect: "odbc_reachable dr lc utf h d \<Longrightarrow> db_connect utf dr dsn uid pass h d = (b, h', d') \<Longrightarrow>
    odbc_reachable dr lc utf h' d'"
| or_close: "odbc_reachable dr lc utf h d \<Longrightarrow> db_close dr h d = (h', d') \<Longrightarrow> odbc_reachable dr lc utf h' d'"
| or_reconnect: "odbc_reachable dr lc utf h d \<Longrightarrow> db_reconnect dr lc h d = (Returned b, h', d') \<Longrightarrow>
    odbc_reachable dr lc utf h' d'"
| or_row: "odbc_reachable dr lc utf h d \<Longrightarrow> exec_row dr lc cmd t h d = (Returned b, r, out, h', d') \<Longrightarrow>
    odbc_reachable dr lc utf h' d'"
| or_rows: "odbc_reachable dr lc utf h d \<Longrightarrow> exec_rows dr lc cmd t h d = Some (Returned b, r, rows, h', d') \<Longrightarrow>
    odbc_reachable dr lc utf h' d'"
| or_delay: "odbc_reachable dr lc utf h d \<Longrightarrow> odbc_reachable dr lc utf (handler_set_delay delay h) d"

lemma odbc_reachable_ok: "odbc_reachable dr lc utf h d \<Longrightarrow> handler_ok h"
proof (induction rule: odbc_reachable.induct)
  case (or_new mem delay d)
  then show ?case by simp
next
  case (or_connect h d dsn uid pass b h' d')
  then show ?case
    by (auto simp: db_connect_def split: option.splits dest: handler_connect_ok)
next
  case (or_close h d h' d')
  then show ?case by (auto simp: db_close_def dest: handler_close_ok)
next
  case (or_reconnect h d b h' d')
  then show ?case using db_reconnect_ok by (fastforce simp: exec_ok_def)
next
  case (or_row h d cmd t b r out h' d')
  then show ?case using exec_row_ok by (fastforce simp: exec_ok_def)
next
  case (or_rows h d cmd t b r rows h' d')
  then show ?case using exec_rows_ok by (fastforce simp: exec_ok_def)
next
  case (or_delay h d delay)
  then show ?case by (simp add: handler_set_delay_def handler_ok_defs)
qed



section \<open>What the driver reads for a parameter\<close>

text \<open>The value of a binding by the layout of its C type, and the value a parameter means.\<close>

datatype sql_value = V_int int | V_float u32 | V_double u64 | V_text "u8 list" | V_wide wstring

fun read_bound :: "binding \<Rightarrow> sql_value" where
  "read_bound (Binding C_utinyint _ _ m) = V_int (int (dec_le (take 1 m)))"
| "read_bound (Binding C_ushort _ _ m) = V_int (int (dec_le (take 2 m)))"
| "read_bound (Binding C_long _ _ m) = V_int (sint (word_of_nat (dec_le (take 4 m)) :: u32))"
| "read_bound (Binding C_sbigint _ _ m) = V_int (sint (word_of_nat (dec_le (take 8 m)) :: u64))"
| "read_bound (Binding C_float _ _ m) = V_float (word_of_nat (dec_le (take 4 m)))"
| "read_bound (Binding C_double _ _ m) = V_double (word_of_nat (dec_le (take 8 m)))"
| "read_bound (Binding C_wchar _ _ m) = V_wide (takeWhile (\<lambda>c. c \<noteq> 0) (decode_wide m))"
| "read_bound (Binding _ _ _ m) = V_text (takeWhile (\<lambda>c. c \<noteq> 0) m)"

fun meant :: "param \<Rightarrow> sql_value" where
  "meant (P_uint8 v) = V_int (uint v)"
| "meant (P_short v) = V_int (sint v)"
| "meant (P_int v) = V_int (sint v)"
| "meant (P_long v) = V_int (sint v)"
| "meant (P_float v) = V_float v"
| "meant (P_double v) = V_double v"
| "meant (P_int64 v) = V_int (sint v)"
| "meant (P_string s) = V_text (narrow_bytes s)"
| "meant (P_wstring s) = V_wide s"
| "meant P_other = V_text []"

definition no_nul :: "param \<Rightarrow> bool" where
  "no_nul p \<longleftrightarrow> (case p of P_string s \<Rightarrow> CHR 0x00 \<notin> set s | P_wstring s \<Rightarrow> 0 \<notin> set s | _ \<Rightarrow> True)"

lemma take_enc_le: "k \<le> n \<Longrightarrow> take k (enc_le n x) = enc_le k x"
proof (induction n arbitrary: k x)
  case (Suc n)
  then show ?case by (cases k) auto
qed simp

lemma dec_take_enc: "k \<le> n \<Longrightarrow> dec_le (take k (enc_le n x)) = x mod 256 ^ k"
  by (simp add: take_enc_le dec_enc_le)

lemma ucast_scast_16: "(ucast (scast v :: u64) :: u16) = v"
  by transfer (simp add: take_bit_signed_take_bit)

lemma ucast_scast_32: "(ucast (scast v :: u64) :: u32) = v"
  by transfer (simp add: take_bit_signed_take_bit)

lemma unat_mod_ucast: "unat (w :: u64) mod 2 ^ LENGTH('a) = unat (ucast w :: 'a::len word)"
  by (simp add: unsigned_ucast_eq take_bit_eq_mod)

lemma decode_wide_bytes: "decode_wide (wide_bytes s @ 0 # 0 # zs) = s @ 0 # decode_wide zs"
proof (induction s)
  case (Cons c s)
  have "word_of_nat (dec_le [word_of_nat (unat c mod 256), word_of_nat (unat c div 256 mod 256)]) = c"
    using dec_enc_le_u16 [of c] by (simp add: numeral_2_eq_2)
  with Cons show ?case by (simp add: wide_bytes_def numeral_2_eq_2)
qed (simp add: wide_bytes_def)

lemma unat_of_char_u8: "unat (of_char c :: u8) = of_char c"
proof -
  have "(of_char c :: u8) = word_of_nat (of_char c)" by (rule of_nat_of_char [symmetric])
  then show ?thesis by (simp add: unat_of_nat del: of_nat_of_char)
qed

lemma of_char_zero: "(of_char c :: u8) = 0 \<longleftrightarrow> c = CHR 0x00"
proof -
  have "(of_char c :: nat) = 0 \<longleftrightarrow> c = CHR 0x00"
    using of_char_eq_iff [where 'a = nat, of c "CHR 0x00"] by simp
  then show ?thesis by (simp only: unat_eq_zero [symmetric] unat_of_char_u8)
qed

lemma uint_sint_16: "uint (v :: u16) = (if sint v < 0 then sint v + 65536 else sint v)"
proof -
  have 1: "uint v = sint v mod 65536" using uint_sint [of v] by (simp add: take_bit_eq_mod)
  have 2: "sint v < 32768" "- 32768 \<le> sint v" using sint_lt [of v] sint_ge [of v] by simp_all
  have "sint v mod 65536 = (sint v + 65536) mod 65536" by simp
  then show ?thesis
    using 1 2 mod_pos_pos_trivial [of "sint v" 65536] mod_pos_pos_trivial [of "sint v + 65536" 65536]
    by (cases "sint v < 0") (simp_all del: mod_add_self2)
qed

lemma takeWhile_zeros:
  "0 \<notin> set bs \<Longrightarrow> takeWhile (\<lambda>c. c \<noteq> 0) (bs @ 0 # zs) = (bs :: 'a::zero list)"
  by (induction bs) auto

lemma narrow_bytes_no_nul: "CHR 0x00 \<notin> set s \<Longrightarrow> 0 \<notin> set (narrow_bytes s)"
proof
  assume s: "CHR 0x00 \<notin> set s" and "0 \<in> set (narrow_bytes s)"
  then obtain c where "c \<in> set s" "(of_char c :: u8) = 0" by (metis in_set_conv_nth narrow_bytes_def length_map nth_map)
  with s of_char_zero show False by metis
qed

text \<open>A string's block: its units and zeros, at least one.\<close>

lemma store_string:
  assumes "fb_ok fb" "length bs < n"
  shows "\<exists>fb1 fb2. alloc_buf True n fb = Some (True, fb1) \<and> store_bytes bs fb1 = Some fb2 \<and>
    fb_size fb2 = max n (fb_size fb) \<and> block_bytes fb2 = bs @ replicate (max n (fb_size fb) - length bs) 0"
proof -
  obtain fb1 where "alloc_buf True n fb = Some (True, fb1)" "fb_ok fb1" "fb_size fb1 = max n (fb_size fb)"
    "fb_buf fb1 = Block (replicate (fb_size fb1) 0)"
    using alloc_buf_ok [OF assms(1)] by blast
  then show ?thesis
    using assms(2) by (cases "bs = []") (auto simp: store_bytes_def block_bytes_def)
qed

lemma bound_string:
  assumes "fb_ok fb" "no_nul (P_string s)"
  shows "\<exists>fb1 fb2 c t n m. alloc_buf True (length s + 1) fb = Some (True, fb1) \<and>
    param_binding lc (P_string s) fb1 = Some (fb2, Binding c t n m) \<and>
    read_bound (Binding c t n m) = meant (P_string s) \<and> n = max (length s + 1) (fb_size fb)"
proof -
  have "0 \<notin> set (narrow_bytes s)"
    using assms(2) by (simp add: no_nul_def narrow_bytes_no_nul)
  moreover obtain fb1 fb2 where "alloc_buf True (length s + 1) fb = Some (True, fb1)"
    "store_bytes (narrow_bytes s) fb1 = Some fb2" "fb_size fb2 = max (length s + 1) (fb_size fb)"
    "block_bytes fb2 = narrow_bytes s @ replicate (max (length s + 1) (fb_size fb) - length s) 0"
    using store_string [OF assms(1), of "narrow_bytes s" "length s + 1"] by (auto simp: narrow_bytes_def)
  moreover obtain k where "max (length s + 1) (fb_size fb) - length s = Suc k"
    by (rule that [of "max (length s + 1) (fb_size fb) - (length s + 1)"]) simp
  ultimately show ?thesis by (simp add: param_binding_def takeWhile_zeros)
qed

lemma bound_wstring:
  assumes "fb_ok fb" "no_nul (P_wstring s)"
  shows "\<exists>fb1 fb2 c t n m. alloc_buf True (length s * 2 + 2) fb = Some (True, fb1) \<and>
    param_binding lc (P_wstring s) fb1 = Some (fb2, Binding c t n m) \<and>
    read_bound (Binding c t n m) = meant (P_wstring s) \<and> n = max (length s * 2 + 2) (fb_size fb)"
proof -
  let ?n = "length s * 2 + 2"
  have l: "length (wide_bytes s) = length s * 2"
    by (induction s) (simp_all add: wide_bytes_def)
  obtain fb1 fb2 where "alloc_buf True ?n fb = Some (True, fb1)"
    "store_bytes (wide_bytes s) fb1 = Some fb2" "fb_size fb2 = max ?n (fb_size fb)"
    "block_bytes fb2 = wide_bytes s @ replicate (max ?n (fb_size fb) - length s * 2) 0"
    using store_string [OF assms(1), of "wide_bytes s" ?n] l by auto
  moreover obtain k where "max ?n (fb_size fb) - length s * 2 = Suc (Suc k)"
    by (rule that [of "max ?n (fb_size fb) - ?n"]) simp
  ultimately show ?thesis
    using assms(2) decode_wide_bytes [of s]
    by (simp add: param_binding_def takeWhile_zeros no_nul_def)
qed



end
