(* ===== verification/OdbcColumns.thy ===== *)
theory OdbcColumns
  imports OdbcProps
begin

text \<open>
  Columns and rows: exactly when reading a column leaves a buffer, what value a column has, and
  the rows of a result set in order. The hypotheses on the driver are documented behaviour of
  \<open>SQLGetData\<close>; memory is taken to be available.
\<close>

section \<open>Capacities\<close>

text \<open>The size of the buffer the next column gets from the pool.\<close>

definition next_size :: "odbc_handler \<Rightarrow> nat" where
  "next_size h = (case oh_pool h of [] \<Rightarrow> 0 | fb # _ \<Rightarrow> fb_size fb)"

definition goes_big :: "int \<Rightarrow> nat \<Rightarrow> bool" where
  "goes_big t col \<longleftrightarrow> odbc_max_text < col \<or> t \<in> set binary_types"

definition has_memory :: "'d driver \<Rightarrow> bool" where
  "has_memory dr \<longleftrightarrow> (\<forall>n d. dr_mem dr n d = (True, d))"

definition pool_ok :: "odbc_handler \<Rightarrow> bool" where
  "pool_ok h \<longleftrightarrow> (\<forall>fb \<in> set (oh_pool h). fb_ok fb)"

lemma alloc_fetch_buffer_ok:
  assumes "has_memory dr" "pool_ok h"
  shows "\<exists>fb h'. alloc_fetch_buffer dr h d = (Some fb, h', d) \<and> fb_ok fb \<and> fb_size fb = next_size h \<and>
    pool_ok h' \<and> oh_stmt h' = oh_stmt h"
proof (cases "oh_pool h")
  case Nil
  with assms show ?thesis
    by (auto simp: alloc_fetch_buffer_def take_fetch_buffer_def next_size_def has_memory_def pool_ok_def)
      (simp_all add: fetch_buffer_init_def fetch_buffer_new_def)
next
  case (Cons p ps)
  with assms show ?thesis
    by (auto simp: alloc_fetch_buffer_def take_fetch_buffer_def next_size_def pool_ok_def)
      (simp add: fetch_buffer_init_def)
qed

lemma resize_buf_ok:
  assumes "has_memory dr" "fb_ok fb"
  shows "\<exists>fb'. resize_buf dr n fb d = (Returned fb', d) \<and> fb_ok fb' \<and> fb_size fb' = max n (fb_size fb) \<and>
    fb_buf fb' = Block (replicate (max n (fb_size fb)) 0)"
  using alloc_buf_ok [OF assms(2), of n] assms(1) by (auto simp: resize_buf_def has_memory_def)

lemma fb_ok_column_size [simp]: "fb_ok (fb\<lparr>fb_column_size := c\<rparr>) \<longleftrightarrow> fb_ok fb"
  by (cases "fb_buf fb") (simp_all add: fb_ok_def)

lemma unat_Suc_64: "Suc n < 2 ^ 64 \<Longrightarrow> unat (of_nat n + 1 :: u64) = Suc n"
proof -
  assume "Suc n < 2 ^ 64"
  moreover have "(of_nat n + 1 :: u64) = of_nat (Suc n)" by simp
  ultimately show ?thesis by (simp only: unat_of_nat) simp
qed

text \<open>The buffer a small column is read from, for what the driver wrote.\<close>

lemma small_column_ok:
  assumes "has_memory dr" "fb_ok fb" "Suc col < 2 ^ 64"
    and "dr_get_data dr (Suc i) c (max (Suc col) (fb_size fb)) d = (rc, bytes, len, d')"
  shows "\<exists>fb'. small_column dr i c col fb d = (Returned fb', len, d') \<and> fb_ok fb' \<and>
    fb_buf fb' = Block (take (max (Suc col) (fb_size fb)) bytes @
      drop (length bytes) (replicate (max (Suc col) (fb_size fb)) 0))"
proof -
  let ?fb = "fb\<lparr>fb_column_size := of_nat col\<rparr>"
  obtain fb' where "resize_buf dr (unat (fb_column_size ?fb + 1)) ?fb d = (Returned fb', d)"
    "fb_ok fb'" "fb_size fb' = max (Suc col) (fb_size fb)"
    "fb_buf fb' = Block (replicate (max (Suc col) (fb_size fb)) 0)"
    using resize_buf_ok [OF assms(1), of ?fb "Suc col" d] assms(2) unat_Suc_64 [OF assms(3)] by auto
  then show ?thesis
    using assms(4) by (simp add: small_column_def driver_writes_def fb_ok_def)
qed

text \<open>The buffer a long or binary column is read from: the reported length of bytes, and a zero.\<close>

lemma big_column_ok:
  assumes "has_memory dr" "fb_ok fb"
    and "dr_get_data dr (Suc i) c big_buffer_size d = (rc, bytes, len, d')"
    and "0 \<le> len" "len \<le> int big_buffer_size"
  shows "\<exists>fb' zs. big_column dr i c fb d = (Returned fb', len, d') \<and> fb_ok fb' \<and>
    fb_buf fb' = Block (take (nat len) (bytes @ replicate big_buffer_size 0) @ 0 # zs)"
proof -
  let ?fb = "fb\<lparr>fb_column_size := word_of_int len\<rparr>"
  let ?data = "take (nat len) (take big_buffer_size (bytes @ replicate big_buffer_size 0))"
  have data: "?data = take (nat len) (bytes @ replicate big_buffer_size 0)" "length ?data = nat len"
    using assms(4,5) by auto
  have "(word_of_int len :: u64) = of_nat (nat len)" using assms(4) by simp
  moreover have "Suc (nat len) < 2 ^ 64" using assms(5) by (simp add: big_buffer_size_def)
  ultimately have "unat (fb_column_size ?fb + 1) = Suc (nat len)"
    using unat_Suc_64 [of "nat len"] by simp
  then obtain fb1 where 1: "resize_buf dr (unat (fb_column_size ?fb + 1)) ?fb d' = (Returned fb1, d')"
    "fb_ok fb1" "fb_size fb1 = max (Suc (nat len)) (fb_size fb)"
    "fb_buf fb1 = Block (replicate (max (Suc (nat len)) (fb_size fb)) 0)"
    using resize_buf_ok [OF assms(1), of ?fb "Suc (nat len)" d'] assms(2) by auto
  have "length ?data \<le> fb_size fb1" unfolding data(2) 1(3) by simp
  from store_bytes_ok [OF 1(2,4) this] obtain fb2 where 2: "store_bytes ?data fb1 = Some fb2" "fb_ok fb2"
    "fb_buf fb2 = Block (?data @ drop (length ?data) (replicate (max (Suc (nat len)) (fb_size fb)) 0))"
    by blast
  obtain k where "max (Suc (nat len)) (fb_size fb) - nat len = Suc k"
    by (rule that [of "max (Suc (nat len)) (fb_size fb) - Suc (nat len)"]) simp
  then have "fb_buf fb2 = Block (?data @ 0 # replicate k 0)"
    using 2(3) unfolding data(2) drop_replicate by (simp only: replicate_Suc)
  with 2(1,2) show ?thesis
    using assms(3-5) 1(1) data(1) by (auto simp: big_column_def)
qed

lemma big_column_faults:
  assumes "has_memory dr" "fb_ok fb"
    and "dr_get_data dr (Suc i) c big_buffer_size d = (rc, bytes, len, d')"
    and "len < 0 \<or> int big_buffer_size < len"
  shows "big_column dr i c fb d = (Faulted, len, d')"
proof -
  let ?fb = "fb\<lparr>fb_column_size := word_of_int len\<rparr>"
  obtain fb1 where "resize_buf dr (unat (fb_column_size ?fb + 1)) ?fb d' = (Returned fb1, d')"
    using resize_buf_ok [OF assms(1), of ?fb] assms(2) by auto
  then show ?thesis using assms(3,4) by (simp add: big_column_def)
qed

section \<open>When a column is read outside its buffer\<close>

lemma with_block_Block:
  "fb_buf fb = Block b \<Longrightarrow> with_block fb len z f = (if len \<le> 0 then (Fetched, [z]) else f b)"
  by (simp add: with_block_def)

lemma parse_text_over: "fst (parse_text cast mk b) = Overread \<longleftrightarrow> 0 \<notin> set b"
  by (auto simp: parse_text_def c_text_def split: option.split)

lemma column_types_disjoint:
  "t \<in> set text_types \<Longrightarrow> t \<notin> set wide_types \<and> t \<noteq> sql_tinyint \<and> t \<noteq> sql_smallint \<and> t \<noteq> sql_integer \<and>
     t \<noteq> sql_bigint \<and> t \<notin> set float_types \<and> t \<notin> set double_types"
  "t \<in> set wide_types \<Longrightarrow> t \<notin> set text_types \<and> t \<noteq> sql_tinyint \<and> t \<noteq> sql_smallint \<and> t \<noteq> sql_integer \<and>
     t \<noteq> sql_bigint \<and> t \<notin> set float_types \<and> t \<notin> set double_types"
  by (auto simp: sql_types)

lemma fst_if: "fst (if c then a else b) = (if c then fst a else fst b)"
  by simp

lemma column_value_over:
  assumes "fb_buf fb = Block b" "0 \<in> set b \<or> t \<in> set text_types \<or> t \<in> set wide_types"
  shows "fst (column_value lc t len fb) = Overread \<longleftrightarrow> 0 < len \<and>
    (t \<in> set text_types \<and> int (length b) < len \<or>
     t \<in> set wide_types \<and> int (length b) < 2 * (len div 2))"
proof -
  consider (chars) "t \<in> set text_types" | (wide) "t \<in> set wide_types"
    | (other) "t \<notin> set text_types" "t \<notin> set wide_types" by blast
  then show ?thesis
  proof cases
    case chars
    then show ?thesis
      using column_types_disjoint(1) [OF chars]
      by (simp add: column_value_def with_block_Block [OF assms(1)] fst_if) linarith
  next
    case wide
    have "2 * (nat len div 2) \<le> length b \<longleftrightarrow> 2 * (len div 2) \<le> int (length b)" if "0 < len"
    proof -
      have "int (2 * (nat len div 2)) = 2 * (len div 2)" using that by (simp add: zdiv_int)
      then show ?thesis by linarith
    qed
    then show ?thesis
      using column_types_disjoint(2) [OF wide] wide
      by (simp add: column_value_def with_block_Block [OF assms(1)] fst_if)
  next
    case other
    then show ?thesis
      using assms(2) by (simp add: column_value_def with_block_Block [OF assms(1)] fst_if parse_text_over)
  qed
qed

lemma fetch_column_eq:
  assumes "alloc_fetch_buffer dr h d = (Some fb, h1, d)" "dr_describe dr (Suc i) d = (ret, t, col, d1)" "sql_good ret"
  shows "\<exists>fb0. fb_size fb0 = fb_size fb \<and> (fb_ok fb \<longrightarrow> fb_ok fb0) \<and>
    fetch_column dr lc i h d =
      (let (r, len, d3) = (if goes_big t col then big_column dr i (column_c_type t) fb0 d1
                           else small_column dr i (column_c_type t) col fb0 d1)
       in case r of
            Faulted \<Rightarrow> (Overread, [], h1, d3)
          | Returned fb1 \<Rightarrow>
              (fst (column_value lc t len fb1), snd (column_value lc t len fb1),
               h1\<lparr>oh_bufs := oh_bufs h1 @ [fb1]\<rparr>, d3))"
proof -
  obtain fb0 where fb0: "(if column_c_type t = C_wchar then fb\<lparr>fb_column_size := fb_column_size fb * 2\<rparr> else fb) = fb0"
    by blast
  have big: "odbc_max_text < col \<or> column_c_type t = C_binary \<longleftrightarrow> goes_big t col"
    by (auto simp: goes_big_def column_c_type_def sql_types)
  obtain r1 len1 d3 where r1: "big_column dr i (column_c_type t) fb0 d1 = (r1, len1, d3)" by (metis prod_cases3)
  obtain r2 len2 d4 where r2: "small_column dr i (column_c_type t) col fb0 d1 = (r2, len2, d4)"
    by (metis prod_cases3)
  have "fb_size fb0 = fb_size fb \<and> (fb_ok fb \<longrightarrow> fb_ok fb0)" using fb0 by auto
  then show ?thesis
    by (intro exI [of _ fb0], cases "goes_big t col"; cases r1; cases r2)
      (simp_all add: fetch_column_def assms Let_def big r1 r2 fb0 split: prod.split)
qed

lemma big_column_inside:
  assumes "has_memory dr" "fb_ok fb0"
    and "dr_get_data dr (Suc i) c big_buffer_size d = (rc, bytes, len, d')"
    and "\<not> (len < 0 \<or> int big_buffer_size < len)"
  shows "\<exists>fb1. big_column dr i c fb0 d = (Returned fb1, len, d') \<and> fst (column_value lc t len fb1) \<noteq> Overread"
proof -
  obtain fb1 zs where b: "big_column dr i c fb0 d = (Returned fb1, len, d')"
    "fb_buf fb1 = Block (take (nat len) (bytes @ replicate big_buffer_size 0) @ 0 # zs)"
    using big_column_ok [OF assms(1-3)] assms(4) by auto
  let ?b = "take (nat len) (bytes @ replicate big_buffer_size 0) @ 0 # zs"
  have "length (take (nat len) (bytes @ replicate big_buffer_size 0)) = nat len"
    using assms(4) by (auto simp: min_def)
  then have "length ?b = nat len + Suc (length zs)"
    by (simp only: length_append list.size add_Suc_right add_0_right)
  then have "int (length ?b) \<ge> len" by linarith
  moreover have "0 < len \<Longrightarrow> 2 * (len div 2) \<le> len" by simp
  moreover have "fst (column_value lc t len fb1) = Overread \<longleftrightarrow> 0 < len \<and>
      (t \<in> set text_types \<and> int (length ?b) < len \<or> t \<in> set wide_types \<and> int (length ?b) < 2 * (len div 2))"
    by (rule column_value_over [OF b(2)]) simp
  ultimately have "fst (column_value lc t len fb1) \<noteq> Overread" by linarith
  with b(1) show ?thesis by blast
qed

lemma small_column_over:
  assumes "has_memory dr" "fb_ok fb0" "Suc col < 2 ^ 64"
    and "dr_get_data dr (Suc i) c (max (Suc col) (fb_size fb0)) d = (rc, bytes, len, d')"
    and "0 \<in> set (take (max (Suc col) (fb_size fb0)) bytes) \<or> length bytes < max (Suc col) (fb_size fb0)"
  shows "\<exists>fb1. small_column dr i c col fb0 d = (Returned fb1, len, d') \<and>
    (fst (column_value lc t len fb1) = Overread \<longleftrightarrow> 0 < len \<and>
      (t \<in> set text_types \<and> int (max (Suc col) (fb_size fb0)) < len \<or>
       t \<in> set wide_types \<and> int (max (Suc col) (fb_size fb0)) < 2 * (len div 2)))"
proof -
  let ?n = "max (Suc col) (fb_size fb0)"
  let ?b = "take ?n bytes @ drop (length bytes) (replicate ?n 0)"
  obtain fb1 where b: "small_column dr i c col fb0 d = (Returned fb1, len, d')" "fb_buf fb1 = Block ?b"
    using small_column_ok [OF assms(1-4)] by auto
  have "0 \<in> set ?b"
  proof (cases "length bytes < ?n")
    case True
    then have "0 < ?n - length bytes" by (rule zero_less_diff [THEN iffD2])
    then have "0 \<in> set (replicate (?n - length bytes) (0 :: u8))" by (simp only: in_set_replicate) blast
    then show ?thesis by (simp only: drop_replicate set_append Un_iff) simp
  next
    case False
    with assms(5) have "0 \<in> set (take ?n bytes)" by blast
    then show ?thesis by (simp only: set_append Un_iff simp_thms)
  qed
  moreover have "length ?b = ?n"
    unfolding length_append length_take length_drop length_replicate by arith
  ultimately show ?thesis
    using column_value_over [OF b(2), of t lc len] b(1) by simp
qed



section \<open>The value of a column\<close>

definition parsed :: "('v \<Rightarrow> param) \<Rightarrow> 'v option \<Rightarrow> status \<times> param list" where
  "parsed mk r = (case r of None \<Rightarrow> (Threw, []) | Some v \<Rightarrow> (Fetched, [mk v]))"

text \<open>The value a narrow column's text stands for, by the column's type.\<close>

definition text_value :: "casts \<Rightarrow> int \<Rightarrow> u8 list \<Rightarrow> status \<times> param list" where
  "text_value lc t tx =
     (if t = sql_tinyint then parsed (\<lambda>v. P_uint8 (ucast v)) (lc_u16 lc tx)
      else if t = sql_smallint then parsed P_short (lc_short lc tx)
      else if t = sql_integer then parsed P_int (lc_int lc tx)
      else if t \<in> set float_types then parsed P_float (lc_float lc tx)
      else if t \<in> set double_types then parsed P_double (lc_double lc tx)
      else if t = sql_bigint then parsed P_int64 (lc_int64 lc tx)
      else if t \<in> set text_types then (Fetched, [P_string (map (\<lambda>c. char_of (unat c)) tx)])
      else (Fetched, []))"

lemma c_text_terminated: "0 \<notin> set tx \<Longrightarrow> c_text (tx @ 0 # zs) = Some tx"
  by (simp add: c_text_def takeWhile_zeros)

lemma with_block_text:
  "fb_buf fb = Block b \<Longrightarrow> tx \<noteq> [] \<Longrightarrow> with_block fb (int (length tx)) z f = f b"
  by (simp add: with_block_def)

lemma column_value_text:
  assumes "fb_buf fb = Block (tx @ 0 # zs)" "0 \<notin> set tx" "tx \<noteq> []" "t \<notin> set wide_types"
  shows "column_value lc t (int (length tx)) fb = text_value lc t tx"
  using assms(4)
  by (simp add: column_value_def text_value_def with_block_text [OF assms(1,3)] parse_text_def
      c_text_terminated [OF assms(2)] parsed_def)

text \<open>A column whose text fits.\<close>

lemma fetch_column_text:
  assumes "has_memory dr" "pool_ok h"
    and "dr_describe dr (Suc i) d = (ret, t, col, d1)" "sql_good ret" "col \<le> odbc_max_text"
    and "t \<notin> set wide_types" "t \<notin> set binary_types"
    and "dr_get_data dr (Suc i) C_char (max (Suc col) (next_size h)) d1 = (rc, tx @ [0], int (length tx), d2)"
    and "0 \<notin> set tx" "tx \<noteq> []" "length tx \<le> col"
  shows "\<exists>h'. fetch_column dr lc i h d = (fst (text_value lc t tx), snd (text_value lc t tx), h', d2) \<and>
    pool_ok h' \<and> oh_stmt h' = oh_stmt h"
proof -
  obtain fb h1 where a: "alloc_fetch_buffer dr h d = (Some fb, h1, d)" "fb_ok fb" "fb_size fb = next_size h"
    "pool_ok h1" "oh_stmt h1 = oh_stmt h"
    using alloc_fetch_buffer_ok [OF assms(1,2)] by blast
  have c: "column_c_type t = C_char" "\<not> goes_big t col"
    using assms(5-7) by (simp_all add: column_c_type_def goes_big_def)
  let ?n = "max (Suc col) (next_size h)"
  have n: "Suc col < 2 ^ 64" using assms(5) by (simp add: odbc_max_text_def)
  obtain fb0 where f: "fb_size fb0 = next_size h" "fb_ok fb0"
    "fetch_column dr lc i h d =
      (let (r, len, d3) = small_column dr i C_char col fb0 d1
       in case r of
            Faulted \<Rightarrow> (Overread, [], h1, d3)
          | Returned fb1 \<Rightarrow>
              (fst (column_value lc t len fb1), snd (column_value lc t len fb1),
               h1\<lparr>oh_bufs := oh_bufs h1 @ [fb1]\<rparr>, d3))"
    using fetch_column_eq [OF a(1) assms(3,4), of lc] a(2,3) c by auto
  obtain fb1 where b: "small_column dr i C_char col fb0 d1 = (Returned fb1, int (length tx), d2)"
    "fb_buf fb1 = Block (take ?n (tx @ [0]) @ drop (length (tx @ [0])) (replicate ?n 0))"
    using small_column_ok [OF assms(1) f(2) n, of i C_char d1 rc "tx @ [0]" "int (length tx)" d2] assms(8) f(1)
    by auto
  have "take ?n (tx @ [0]) = tx @ [0]" using assms(11) by (intro take_all) simp
  then have "fb_buf fb1 = Block (tx @ 0 # drop (length (tx @ [0])) (replicate ?n 0))" using b(2) by simp
  from column_value_text [OF this assms(9,10,6), of lc]
  have "fetch_column dr lc i h d = (fst (text_value lc t tx), snd (text_value lc t tx),
      h1\<lparr>oh_bufs := oh_bufs h1 @ [fb1]\<rparr>, d2)"
    using f(3) b(1) by simp
  then show ?thesis using a(4,5) by (auto simp: pool_ok_def)
qed

section \<open>The rows of a result set\<close>

text \<open>A cell: type, column size and text. The driver gives the cells of a row in order, each with
  its terminator in any buffer that has room for it, and the rows in order.\<close>

type_synonym cell = "int \<times> nat \<times> u8 list"

definition cell_ok :: "casts \<Rightarrow> cell \<Rightarrow> bool" where
  "cell_ok lc c \<longleftrightarrow> (case c of (t, col, tx) \<Rightarrow>
     t \<notin> set wide_types \<and> t \<notin> set binary_types \<and> col \<le> odbc_max_text \<and> 0 \<notin> set tx \<and> tx \<noteq> [] \<and>
     length tx \<le> col \<and> fst (text_value lc t tx) = Fetched)"

fun serves_cells :: "'d driver \<Rightarrow> nat \<Rightarrow> 'd \<Rightarrow> cell list \<Rightarrow> 'd \<Rightarrow> bool" where
  "serves_cells dr i d [] d' \<longleftrightarrow> d' = d"
| "serves_cells dr i d ((t, col, tx) # cs) d' \<longleftrightarrow>
     (\<exists>d1 d2. dr_describe dr (Suc i) d = (sql_success, t, col, d1) \<and>
        (\<forall>n. length tx < n \<longrightarrow>
           (\<exists>rc. dr_get_data dr (Suc i) C_char n d1 = (rc, tx @ [0], int (length tx), d2))) \<and>
        serves_cells dr (Suc i) d2 cs d')"

fun serves_rows :: "'d driver \<Rightarrow> 'd \<Rightarrow> cell list list \<Rightarrow> bool" where
  "serves_rows dr d [] \<longleftrightarrow> fst (dr_fetch dr d) = sql_no_data"
| "serves_rows dr d (row # rows) \<longleftrightarrow>
     (\<exists>n d1 d2 d3. dr_fetch dr d = (sql_success, Suc n, d1) \<and>
        dr_columns dr d1 = (sql_success, length row, d2) \<and> length row \<le> single_row_max_col \<and>
        serves_cells dr 0 d2 row d3 \<and> serves_rows dr d3 rows)"

definition row_values :: "casts \<Rightarrow> cell list \<Rightarrow> param list" where
  "row_values lc row = concat (map (\<lambda>(t, col, tx). snd (text_value lc t tx)) row)"

lemma fetch_columns_serves:
  assumes "has_memory dr"
  shows "pool_ok h \<Longrightarrow> serves_cells dr i d cs d' \<Longrightarrow> list_all (cell_ok lc) cs \<Longrightarrow>
    \<exists>h'. fetch_columns dr lc [i..<i + length cs] out h d = (Fetched, out @ row_values lc cs, h', d') \<and>
      pool_ok h' \<and> oh_stmt h' = oh_stmt h"
proof (induction cs arbitrary: i out h d)
  case Nil
  then show ?case by (simp add: row_values_def)
next
  case (Cons c cs)
  obtain t col tx where c: "c = (t, col, tx)" by (cases c)
  obtain d1 d2 where d: "dr_describe dr (Suc i) d = (sql_success, t, col, d1)"
    "\<And>n. length tx < n \<Longrightarrow> \<exists>rc. dr_get_data dr (Suc i) C_char n d1 = (rc, tx @ [0], int (length tx), d2)"
    "serves_cells dr (Suc i) d2 cs d'"
    using Cons.prems(2) c by auto
  have ok: "t \<notin> set wide_types" "t \<notin> set binary_types" "col \<le> odbc_max_text" "0 \<notin> set tx" "tx \<noteq> []"
    "length tx \<le> col" "fst (text_value lc t tx) = Fetched"
    using Cons.prems(3) c by (simp_all add: cell_ok_def)
  have "length tx < max (Suc col) (next_size h)" using ok(6) by simp
  then obtain rc where g:
    "dr_get_data dr (Suc i) C_char (max (Suc col) (next_size h)) d1 = (rc, tx @ [0], int (length tx), d2)"
    using d(2) by blast
  have "sql_good sql_success" by (simp add: sql_good_def)
  from fetch_column_text [OF assms Cons.prems(1) d(1) this ok(3,1,2) g ok(4-6), of lc] ok(7)
  obtain h1 where h1: "fetch_column dr lc i h d = (Fetched, snd (text_value lc t tx), h1, d2)"
    "pool_ok h1" "oh_stmt h1 = oh_stmt h"
    by auto
  have "list_all (cell_ok lc) cs" using Cons.prems(3) by simp
  from Cons.IH [OF h1(2) d(3) this, of "out @ snd (text_value lc t tx)"]
  show ?case using h1 by (simp add: c row_values_def upt_conv_Cons del: upt_Suc)
qed

lemma fetch_rows_serves:
  assumes "has_memory dr"
  shows "pool_ok h \<Longrightarrow> oh_stmt h \<Longrightarrow> serves_rows dr d rows \<Longrightarrow> list_all (list_all (cell_ok lc)) rows \<Longrightarrow>
    \<exists>h' d'. fetch_rows dr lc out h d = Some (Returned True, sql_no_data, out @ map (row_values lc) rows, h', d')"
proof (induction rows arbitrary: out h d)
  case Nil
  then show ?case by (cases "dr_fetch dr d") (auto simp: fetch_rows.simps [of dr lc out h d])
next
  case (Cons row rows)
  obtain n d1 d2 d3 where d: "dr_fetch dr d = (sql_success, Suc n, d1)"
    "dr_columns dr d1 = (sql_success, length row, d2)" "length row \<le> single_row_max_col"
    "serves_cells dr 0 d2 row d3" "serves_rows dr d3 rows"
    using Cons.prems(3) by auto
  have ok: "list_all (cell_ok lc) row" "list_all (list_all (cell_ok lc)) rows" using Cons.prems(4) by simp_all
  obtain h1 where h1: "fetch_columns dr lc [0..<length row] [] h d2 = (Fetched, row_values lc row, h1, d3)"
    "pool_ok h1" "oh_stmt h1"
    using fetch_columns_serves [OF assms Cons.prems(1) d(4) ok(1), of "[]"] Cons.prems(2) by auto
  have f: "handler_fetch dr lc [] h d1 = (Fetched, row_values lc row, h1, d3)"
    using d(2,3) h1(1) Cons.prems(2) by (simp add: handler_fetch_def sql_good_def)
  obtain h' d' where
    "fetch_rows dr lc (out @ [row_values lc row]) h1 d3 =
       Some (Returned True, sql_no_data, (out @ [row_values lc row]) @ map (row_values lc) rows, h', d')"
    using Cons.IH [OF h1(2,3) d(5) ok(2)] by blast
  then show ?case
    by (simp add: fetch_rows.simps [of dr lc out h d] d(1) f sql_good_def sql_codes)
qed


text \<open>The example driver serves what is put into it.\<close>

definition demo_cell_of :: "cell \<Rightarrow> demo_cell" where
  "demo_cell_of c = (case c of (t, col, tx) \<Rightarrow> (t, col, tx, int (length tx)))"

lemma demo_serves_cells:
  "drop i (snd d) = map demo_cell_of cs \<Longrightarrow> serves_cells demo_driver i d cs d"
proof (induction cs arbitrary: i)
  case Nil
  then show ?case by simp
next
  case (Cons c cs)
  obtain t col tx where c: "c = (t, col, tx)" by (cases c)
  have "snd d ! i = demo_cell_of c" "drop (Suc i) (snd d) = map demo_cell_of cs"
    using Cons.prems tl_drop [of i "snd d"] by (simp_all add: nth_via_drop) (simp add: drop_Suc)
  then show ?case
    using Cons.IH [of "Suc i"]
    by (auto simp: c demo_cell_of_def demo_get_data_def sql_codes intro!: exI [of _ "fst d"] exI [of _ "snd d"])
qed

lemma demo_serves_rows:
  "\<forall>row \<in> set rows. length row \<le> single_row_max_col \<Longrightarrow>
   serves_rows demo_driver (map (map demo_cell_of) rows, cur) rows"
proof (induction rows arbitrary: cur)
  case Nil
  then show ?case by (simp add: sql_codes)
next
  case (Cons row rows)
  let ?d = "(map (map demo_cell_of) rows, map demo_cell_of row)"
  have "serves_cells demo_driver 0 ?d row ?d" by (rule demo_serves_cells) simp
  moreover have "serves_rows demo_driver ?d rows" using Cons by simp
  ultimately show ?case using Cons.prems by (auto simp: sql_codes)
qed

definition demo_rows :: "cell list list" where
  "demo_rows = [[(4, 10, [52, 50]), (12, 10, [97, 98])], [(4, 10, [55]), (12, 10, [99])]]"


section \<open>A SMALLINT column\<close>

lemma decimal_length: "10 ^ k \<le> n \<Longrightarrow> n < 10 ^ Suc k \<Longrightarrow> length (decimal n) = Suc k"
proof (induction k arbitrary: n)
  case 0
  then show ?case by (subst decimal.simps) simp
next
  case (Suc k)
  have "10 ^ k \<le> n div 10" "n div 10 < 10 ^ Suc k" using Suc.prems by simp_all
  then have "length (decimal (n div 10)) = Suc k" by (rule Suc.IH)
  moreover have "\<not> n < 10"
  proof -
    have "(10 :: nat) \<le> 10 ^ Suc k" by simp
    with Suc.prems(1) show ?thesis by linarith
  qed
  ultimately show ?case by (subst decimal.simps) simp
qed

lemma decimal_length_le: "n < 10 ^ Suc k \<Longrightarrow> length (decimal n) \<le> Suc k"
proof (induction k arbitrary: n)
  case 0
  then show ?case by (subst decimal.simps) simp
next
  case (Suc k)
  then have "n div 10 < 10 ^ Suc k" by simp
  then have "length (decimal (n div 10)) \<le> Suc k" by (rule Suc.IH)
  then show ?case by (subst decimal.simps) simp
qed

lemma decimal_no_nul: "CHR 0x00 \<notin> set (decimal n)"
proof (induction n rule: decimal.induct)
  case (1 n)
  have "char_of (48 + d) \<noteq> CHR 0x00" if "d < 10" for d :: nat
  proof
    assume "char_of (48 + d) = CHR 0x00"
    then have "of_char (char_of (48 + d) :: char) = (0 :: nat)" by simp
    with that show False by simp
  qed
  with 1 show ?case by (subst decimal.simps) (auto simp: eq_commute [of "CHR 0x00"])
qed

lemma int_text_no_nul: "CHR 0x00 \<notin> set (int_text i)"
  using decimal_no_nul by (simp add: int_text_def)

text \<open>The text of a number without its last digit is the text of a tenth of it.\<close>

lemma take_int_text:
  assumes "sint (v :: u16) \<le> - 10000"
  shows "take 5 (int_text (sint v)) = int_text (- ((- sint v) div 10))" "length (int_text (sint v)) = 6"
proof -
  have "- 32768 \<le> sint v" using sint_ge [of v] by simp
  define n where "n = nat (- sint v)"
  then have n: "10000 \<le> n" "n \<le> 32768" "sint v = - int n" using assms \<open>- 32768 \<le> sint v\<close> by linarith+
  have l: "length (decimal n) = 5" "length (decimal (n div 10)) = 4"
    using decimal_length [of 4 n] decimal_length [of 3 "n div 10"] n(1,2) by simp_all
  have d: "decimal n = decimal (n div 10) @ [char_of (48 + n mod 10)]"
    using n(1) by (subst decimal.simps) simp
  have t: "int_text (sint v) = CHR ''-'' # decimal n" using n by (simp add: int_text_def)
  have t': "int_text (- ((- sint v) div 10)) = CHR ''-'' # decimal (n div 10)"
  proof -
    have "- ((- sint v) div 10) = - int (n div 10)" using n(3) by (simp add: zdiv_int)
    moreover have "0 < n div 10" using n(1) by simp
    ultimately show ?thesis by (simp add: int_text_def)
  qed
  show "length (int_text (sint v)) = 6" using t l by simp
  show "take 5 (int_text (sint v)) = int_text (- ((- sint v) div 10))"
    unfolding t t' using l by (subst d) simp
qed

lemma take_no_zero: "0 \<notin> set xs \<Longrightarrow> 0 \<notin> set (take n xs)"
  using set_take_subset by fast

lemma parse_digits_append:
  "parse_digits acc (xs @ ys) = (case parse_digits acc xs of None \<Rightarrow> None | Some n \<Rightarrow> parse_digits n ys)"
  by (induction acc xs rule: parse_digits.induct) auto

text \<open>The example conversions read decimal texts.\<close>

lemma parse_decimal: "parse_digits 0 (narrow_bytes (decimal n)) = Some n"
proof (induction n rule: decimal.induct)
  case (1 n)
  have digit: "unat (of_char (char_of (48 + d)) :: u8) = 48 + d" if "d < 10" for d :: nat
    using that by (simp add: unat_of_char_u8)
  have d: "parse_digits acc [of_char (char_of (48 + d))] = Some (10 * acc + d)" if "d < 10" for acc d :: nat
    using digit [OF that] that by (simp add: word_le_nat_alt)
  show ?case
  proof (cases "n < 10")
    case True
    then show ?thesis using d [of n 0] by (subst decimal.simps) (simp add: narrow_bytes_def)
  next
    case False
    then have "parse_digits 0 (narrow_bytes (decimal (n div 10))) = Some (n div 10)" using 1 by simp
    moreover have "10 * (n div 10) + n mod 10 = n" by simp
    ultimately show ?thesis
      using d [of "n mod 10" "n div 10"] False
      by (subst decimal.simps) (simp add: narrow_bytes_def parse_digits_append del: parse_digits.simps)
  qed
qed

lemma parse_int_text: "parse_int (narrow_bytes (int_text i)) = Some i"
proof (cases "i < 0")
  case True
  have "of_char CHR ''-'' = (45 :: u8)" by simp
  with True show ?thesis
    using parse_decimal [of "nat (- i)"] by (simp add: int_text_def parse_int_def narrow_bytes_def)
next
  case False
  have d: "parse_digits 0 (narrow_bytes (decimal (nat i))) = Some (nat i)" by (rule parse_decimal)
  have "decimal (nat i) \<noteq> []" by (subst decimal.simps) simp
  then obtain c cs where c: "narrow_bytes (decimal (nat i)) = c # cs"
    by (cases "narrow_bytes (decimal (nat i))") (simp_all add: narrow_bytes_def)
  have "c \<noteq> 45" using d c by auto
  then show ?thesis using False d c by (simp add: int_text_def parse_int_def)
qed

text \<open>A SMALLINT column, whose column size is 5: with conversions that read decimal texts and a
  driver that cuts a text to the buffer, as documented, a value of at least -9999 arrives
  unchanged, and a smaller one, whose text has six characters, arrives divided by ten, unless
  the pool happens to give a larger buffer.\<close>

lemma smallint_column:
  fixes v :: u16
  defines "tx \<equiv> narrow_bytes (int_text (sint v))"
  assumes "has_memory dr" and "pool_ok h" and "next_size h \<le> 6"
    and "\<And>i. - 32768 \<le> i \<Longrightarrow> i < 32768 \<Longrightarrow> lc_short lc (narrow_bytes (int_text i)) = Some (word_of_int i)"
    and "dr_describe dr (Suc i) d = (ret, sql_smallint, 5, d1)" and "sql_good ret"
    and "dr_get_data dr (Suc i) C_char 6 d1 = (rc, take 5 tx @ [0], int (length tx), d2)"
  shows "\<exists>h'. fetch_column dr lc i h d =
    (Fetched, [P_short (if - 10000 < sint v then v else word_of_int (- ((- sint v) div 10)))], h', d2)"
proof -
  have range: "- 32768 \<le> sint v" "sint v < 32768" using sint_ge [of v] sint_lt [of v] by simp_all
  have z: "0 \<notin> set tx" unfolding tx_def by (rule narrow_bytes_no_nul [OF int_text_no_nul])
  let ?w = "if - 10000 < sint v then sint v else - ((- sint v) div 10)"
  have cut: "take 5 tx = narrow_bytes (int_text ?w)" "tx \<noteq> []"
  proof -
    show "take 5 tx = narrow_bytes (int_text ?w)"
    proof (cases "- 10000 < sint v")
      case True
      have "length (int_text (sint v)) \<le> 5"
        using decimal_length_le [of "nat (- sint v)" 3] decimal_length_le [of "nat (sint v)" 4] True range
        by (auto simp: int_text_def)
      then show ?thesis using True by (simp add: tx_def narrow_bytes_def)
    next
      case False
      then have "take 5 (int_text (sint v)) = int_text ?w" using take_int_text(1) [of v] by simp
      then show ?thesis unfolding tx_def narrow_bytes_def take_map by simp
    qed
    have "decimal n \<noteq> []" for n by (subst decimal.simps) simp
    then show "tx \<noteq> []" by (simp add: tx_def narrow_bytes_def int_text_def)
  qed
  have w: "lc_short lc (take 5 tx) = Some (word_of_int ?w)"
    unfolding cut(1) using range by (intro assms(5)) (auto simp: div_le_dividend)
  obtain fb h1 where a: "alloc_fetch_buffer dr h d = (Some fb, h1, d)" "fb_ok fb" "fb_size fb = next_size h"
    using alloc_fetch_buffer_ok [OF assms(2,3)] by blast
  have c: "column_c_type sql_smallint = C_char" "\<not> goes_big sql_smallint 5"
    by (simp_all add: column_c_type_def goes_big_def sql_types odbc_max_text_def)
  obtain fb0 where f: "fb_size fb0 = next_size h" "fb_ok fb0"
    "fetch_column dr lc i h d =
      (let (r, len, d3) = small_column dr i C_char 5 fb0 d1
       in case r of
            Faulted \<Rightarrow> (Overread, [], h1, d3)
          | Returned fb1 \<Rightarrow>
              (fst (column_value lc sql_smallint len fb1), snd (column_value lc sql_smallint len fb1),
               h1\<lparr>oh_bufs := oh_bufs h1 @ [fb1]\<rparr>, d3))"
    using fetch_column_eq [OF a(1) assms(6,7), of lc] a(2,3) c by auto
  have n: "max (Suc 5) (next_size h) = 6" using assms(4) by simp
  obtain fb1 where b: "small_column dr i C_char 5 fb0 d1 = (Returned fb1, int (length tx), d2)"
    "fb_buf fb1 = Block (take 6 (take 5 tx @ [0]) @ drop (length (take 5 tx @ [0])) (replicate 6 0))"
    using small_column_ok [OF assms(2) f(2), of 5 i C_char d1 rc "take 5 tx @ [0]" "int (length tx)" d2]
      assms(8) n f(1) by auto
  have "take 6 (take 5 tx @ [0]) = take 5 tx @ [0]" by (rule take_all) simp
  then obtain zs where "fb_buf fb1 = Block (take 5 tx @ 0 # zs)" using b(2) by simp
  then have "column_value lc sql_smallint (int (length tx)) fb1 = (Fetched, [P_short (word_of_int ?w)])"
    using cut(2) w c_text_terminated [OF take_no_zero [OF z]]
    by (simp add: column_value_def sql_types with_block_text parse_text_def)
  then have "fetch_column dr lc i h d =
      (Fetched, [P_short (word_of_int ?w)], h1\<lparr>oh_bufs := oh_bufs h1 @ [fb1]\<rparr>, d2)"
    using f(3) b(1) by simp
  then show ?thesis by (auto simp: if_distrib [of word_of_int])
qed

theorem smallint_column_witness:
  "\<exists>h'. fetch_column demo_driver demo_casts 0 demo_handler ([], [(5, 5, narrow_bytes (int_text (- 10000)), 6)]) =
     (Fetched, [P_short (- 1000)], h', ([], [(5, 5, narrow_bytes (int_text (- 10000)), 6)]))"
proof -
  let ?v = "- 10000 :: u16" and ?d = "([], [(5, 5, narrow_bytes (int_text (- 10000)), 6)]) :: demo_state"
  have v: "sint ?v = - 10000" by simp
  have l: "int (length (narrow_bytes (int_text (- 10000)))) = 6"
    using take_int_text(2) [of ?v] v by (simp add: narrow_bytes_def)
  have "\<exists>h'. fetch_column demo_driver demo_casts 0 demo_handler ?d =
      (Fetched, [P_short (if - 10000 < sint ?v then ?v else word_of_int (- ((- sint ?v) div 10)))], h', ?d)"
    by (rule smallint_column [where ret = 0 and rc = 0 and ?d1.0 = "?d"])
      (use v l in \<open>simp_all add: has_memory_def pool_ok_def next_size_def demo_casts_def parse_int_text
         sql_smallint_def sql_good_def sql_codes demo_get_data_def\<close>)
  then show ?thesis using v by simp
qed

section \<open>The type of a column's value\<close>

fun has_sql_type :: "int \<Rightarrow> param \<Rightarrow> bool" where
  "has_sql_type t (P_uint8 v) \<longleftrightarrow> t = sql_tinyint"
| "has_sql_type t (P_short v) \<longleftrightarrow> t = sql_smallint"
| "has_sql_type t (P_int v) \<longleftrightarrow> t = sql_integer"
| "has_sql_type t (P_float v) \<longleftrightarrow> t \<in> set float_types"
| "has_sql_type t (P_double v) \<longleftrightarrow> t \<in> set double_types"
| "has_sql_type t (P_int64 v) \<longleftrightarrow> t = sql_bigint"
| "has_sql_type t (P_string s) \<longleftrightarrow> t \<in> set text_types"
| "has_sql_type t (P_wstring s) \<longleftrightarrow> t \<in> set wide_types"
| "has_sql_type t p \<longleftrightarrow> False"

definition known_type :: "int \<Rightarrow> bool" where
  "known_type t \<longleftrightarrow> t \<in> {sql_tinyint, sql_smallint, sql_integer, sql_bigint} \<union> set float_types \<union>
     set double_types \<union> set text_types \<union> set wide_types"

lemma with_block_typed:
  assumes "with_block fb len z f = (Fetched, vs)" "P z" "\<And>b vs. f b = (Fetched, vs) \<Longrightarrow> \<exists>v. vs = [v] \<and> P v"
  shows "\<exists>v. vs = [v] \<and> P v"
  using assms by (auto simp: with_block_def split: if_splits block.splits)

lemma parse_text_typed: "parse_text cast mk b = (Fetched, vs) \<Longrightarrow> (\<And>v. P (mk v)) \<Longrightarrow> \<exists>v. vs = [v] \<and> P v"
  by (auto simp: parse_text_def split: option.splits)

lemma block_parse_typed:
  "with_block fb len z (parse_text cast mk) = (Fetched, vs) \<Longrightarrow> P z \<Longrightarrow> (\<And>v. P (mk v)) \<Longrightarrow> \<exists>v. vs = [v] \<and> P v"
  by (rule with_block_typed [where f = "parse_text cast mk" and z = z and P = P])
    (auto intro: parse_text_typed)

lemma column_value_typed:
  assumes "column_value lc t len fb = (Fetched, vs)"
  shows "if known_type t then \<exists>v. vs = [v] \<and> has_sql_type t v else vs = []"
proof (cases "known_type t")
  case True
  have "\<exists>v. vs = [v] \<and> has_sql_type t v"
    using assms True
    by (auto simp: column_value_def known_type_def split: if_splits
        intro: block_parse_typed parse_text_typed elim!: with_block_typed [where P = "has_sql_type t"])
  with True show ?thesis by simp
next
  case False
  then show ?thesis using assms by (auto simp: column_value_def known_type_def split: if_splits)
qed

text \<open>C26. Columns are typed: a column that is fetched gives one value of the C++ type that belongs to
  the SQL type the driver described, or, when the code has no case for that type (dates, bits,
  GUIDs), no value at all, so that the columns after it move forward by one.\<close>

theorem column_typed:
  assumes "fetch_column dr lc i h d = (Fetched, vs, h', d')"
  shows "\<exists>ret t col d1. dr_describe dr (Suc i) (snd (snd (alloc_fetch_buffer dr h d))) = (ret, t, col, d1) \<and>
    (if known_type t then \<exists>v. vs = [v] \<and> has_sql_type t v else vs = [])"
proof -
  obtain a h1 d0 where 1: "alloc_fetch_buffer dr h d = (a, h1, d0)" by (metis prod_cases3)
  obtain fb where fb: "a = Some fb" using assms by (cases a) (simp_all add: fetch_column_def 1)
  obtain ret t col d1 where 2: "dr_describe dr (Suc i) d0 = (ret, t, col, d1)" by (metis prod_cases4)
  have "\<exists>len fb1. column_value lc t len fb1 = (Fetched, vs)"
    using assms
    by (auto simp: fetch_column_def 1 fb 2 Let_def split: if_splits prod.splits outcome.splits)
  then show ?thesis using 1 2 column_value_typed by fastforce
qed

theorem column_typed_witness:
  "\<exists>v h. fetch_column demo_driver demo_casts 0 demo_handler ([], [(4, 10, [52, 50], 2)]) =
     (Fetched, [v], h, ([], [(4, 10, [52, 50], 2)])) \<and> has_sql_type 4 v"
proof -
  let ?d = "([], [(4, 10, [52, 50], 2)]) :: demo_state"
  have m: "has_memory demo_driver" "pool_ok demo_handler" "next_size demo_handler = 0"
    by (simp_all add: has_memory_def pool_ok_def next_size_def)
  have "\<exists>h'. fetch_column demo_driver demo_casts 0 demo_handler ?d =
      (fst (text_value demo_casts 4 [52, 50]), snd (text_value demo_casts 4 [52, 50]), h', ?d) \<and>
      pool_ok h' \<and> oh_stmt h' = oh_stmt demo_handler"
    by (rule fetch_column_text [OF m(1,2), where ret = 0 and rc = 0 and ?d1.0 = "?d" and col = 10])
      (simp_all add: m(3) sql_types odbc_max_text_def demo_get_data_def sql_good_def sql_codes)
  then obtain h vs where f: "fetch_column demo_driver demo_casts 0 demo_handler ?d = (Fetched, vs, h, ?d)"
    by (auto simp: text_value_def sql_types parsed_def demo_casts_def parse_int_def)
  have "known_type 4" by (simp add: known_type_def sql_types)
  then show ?thesis
    using column_typed [OF f] f
    by (auto simp: alloc_fetch_buffer_def take_fetch_buffer_def)
qed

end
