(* ===== verification/OdbcProcedure.thy ===== *)
theory OdbcProcedure
  imports OdbcColumns
begin

text \<open>
  Stored procedures (\<open>stored_procedure\<close> in
  \<^verbatim>\<open>source/impl/odbc/{stored_procedure.h,odbc.cpp}\<close>). A procedure that fails is tried again after reconnecting; the loops are bounded by their counters. The time slept
  between reconnects is left out.
\<close>

section \<open>Stored procedures\<close>

record procedure =
  sp_query :: string
  sp_command :: command

definition procedure_new :: "string \<Rightarrow> procedure" where
  "procedure_new q = \<lparr>sp_query = q, sp_command = command_new\<rparr>"

definition procedure_init :: "procedure \<Rightarrow> procedure" where
  "procedure_init sp = sp\<lparr>sp_command := command_init (sp_command sp)\<rparr>"

text \<open>\<open>bind\<close>, for each type it is overloaded on; it cannot be called with another.\<close>

definition sp_bind :: "param \<Rightarrow> procedure \<Rightarrow> procedure" where
  "sp_bind p sp =
     (case bind_parameter p (sp_command sp) of None \<Rightarrow> sp | Some c \<Rightarrow> sp\<lparr>sp_command := c\<rparr>)"

definition retry_count :: nat where "retry_count = 5"

definition reconnect_count :: nat where "reconnect_count = 5"

function reconnect_loop ::
  "'d driver \<Rightarrow> casts \<Rightarrow> nat \<Rightarrow> odbc_handler \<Rightarrow> 'd \<Rightarrow> bool outcome \<times> odbc_handler \<times> 'd" where
  "reconnect_loop dr lc count h d =
     (let (b, h1, d1) = db_reconnect dr lc h d
      in if b \<noteq> Returned False then (b, h1, d1)
         else if reconnect_count < count then (b, h1, d1)
         else reconnect_loop dr lc (Suc count) h1 d1)"
  by pat_completeness auto
termination
  by (relation "measure (\<lambda>(dr, lc, count, h, d). Suc reconnect_count - count)") auto

declare reconnect_loop.simps [simp del]

text \<open>\<open>make_query\<close> again; it never throws (\<open>make_query_eq\<close>).\<close>

definition requery :: "string \<Rightarrow> command \<Rightarrow> command" where
  "requery q c = (case make_query q c of None \<Rightarrow> c | Some (_, c1) \<Rightarrow> c1)"

function single_loop ::
  "'d driver \<Rightarrow> casts \<Rightarrow> string \<Rightarrow> command \<Rightarrow> u16 \<Rightarrow> nat \<Rightarrow> odbc_handler \<Rightarrow> 'd \<Rightarrow>
   param list option outcome \<times> odbc_handler \<times> 'd" where
  "single_loop dr lc q cmd t retry h d =
     (let (b, sql_ret, out, h1, d1) = exec_row dr lc cmd t h d
      in if b = Faulted then (Faulted, h1, d1)
         else if b = Returned True then (Returned (Some out), h1, d1)
         else if retry_count < retry then (Returned None, h1, d1)
         else if sql_ret = sql_no_data then (Returned None, h1, d1)
         else
           let (r, h2, d2) = reconnect_loop dr lc 1 h1 d1
           in if r = Faulted then (Faulted, h2, d2)
              else if r = Returned False then (Returned None, h2, d2)
              else single_loop dr lc q (requery q cmd) t (Suc retry) h2 d2)"
  by pat_completeness auto
termination
  by (relation "measure (\<lambda>(dr, lc, q, cmd, t, retry, h, d). Suc retry_count - retry)") auto

declare single_loop.simps [simp del]

definition single_row ::
  "'d driver \<Rightarrow> casts \<Rightarrow> u16 \<Rightarrow> procedure \<Rightarrow> odbc_handler \<Rightarrow> 'd \<Rightarrow>
   param list option outcome \<times> procedure \<times> odbc_handler \<times> 'd" where
  "single_row dr lc t sp h d =
     (if sp_query sp = [] then (Returned None, sp, h, d)
      else
        let cmd = requery (sp_query sp) (sp_command sp); (r, h1, d1) = single_loop dr lc (sp_query sp) cmd t 1 h d
        in (r, sp\<lparr>sp_command := cmd\<rparr>, h1, d1))"

text \<open>The same for a result set; \<open>None\<close> when the driver never ends one.\<close>

function multi_loop ::
  "'d driver \<Rightarrow> casts \<Rightarrow> string \<Rightarrow> command \<Rightarrow> u16 \<Rightarrow> nat \<Rightarrow> odbc_handler \<Rightarrow> 'd \<Rightarrow>
   (param list list option outcome \<times> odbc_handler \<times> 'd) option" where
  "multi_loop dr lc q cmd t retry h d =
     (case exec_rows dr lc cmd t h d of
        None \<Rightarrow> None
      | Some (b, sql_ret, out, h1, d1) \<Rightarrow>
          if b = Faulted then Some (Faulted, h1, d1)
          else if b = Returned True then Some (Returned (Some out), h1, d1)
          else if retry_count < retry then Some (Returned None, h1, d1)
          else if sql_ret = sql_no_data then Some (Returned None, h1, d1)
          else
            let (r, h2, d2) = reconnect_loop dr lc 1 h1 d1
            in if r = Faulted then Some (Faulted, h2, d2)
               else if r = Returned False then Some (Returned None, h2, d2)
               else multi_loop dr lc q (requery q cmd) t (Suc retry) h2 d2)"
  by pat_completeness auto
termination
  by (relation "measure (\<lambda>(dr, lc, q, cmd, t, retry, h, d). Suc retry_count - retry)") auto

declare multi_loop.simps [simp del]

definition multi_row ::
  "'d driver \<Rightarrow> casts \<Rightarrow> u16 \<Rightarrow> procedure \<Rightarrow> odbc_handler \<Rightarrow> 'd \<Rightarrow>
   (param list list option outcome \<times> procedure \<times> odbc_handler \<times> 'd) option" where
  "multi_row dr lc t sp h d =
     (if sp_query sp = [] then Some (Returned None, sp, h, d)
      else
        let cmd = requery (sp_query sp) (sp_command sp)
        in case multi_loop dr lc (sp_query sp) cmd t 1 h d of
             None \<Rightarrow> None
           | Some (r, h1, d1) \<Rightarrow> Some (r, sp\<lparr>sp_command := cmd\<rparr>, h1, d1))"

section \<open>How often a procedure is executed\<close>

definition ping_text :: wstring where "ping_text = widen ''{ select 0 }''"

lemma requery_text:
  "q \<noteq> [] \<Longrightarrow> cmd_query (requery q c) = call_text q (length (cmd_params c))"
  "q \<noteq> [] \<Longrightarrow> cmd_params (requery q c) = cmd_params c"
  by (simp_all add: requery_def make_query_eq)

lemma call_not_ping: "call_text q n \<noteq> ping_text"
  by (simp add: call_text_def ping_text_def widen_def)

text \<open>A run that adds at most \<open>m\<close> executions of \<open>q\<close> and \<open>k\<close> pings.\<close>

definition runs_at_most :: "wstring \<Rightarrow> nat \<Rightarrow> nat \<Rightarrow> odbc_handler \<Rightarrow> odbc_handler \<Rightarrow> bool" where
  "runs_at_most q m k h h' \<longleftrightarrow> handler_ok h' \<and>
     (\<exists>l. executed h' = executed h @ l \<and> set l \<subseteq> {q, ping_text} \<and> count_list l q \<le> m \<and> count_list l ping_text \<le> k)"

lemma runs_at_most_mono: "runs_at_most q m k h h' \<Longrightarrow> m \<le> m' \<Longrightarrow> k \<le> k' \<Longrightarrow> runs_at_most q m' k' h h'"
  by (fastforce simp: runs_at_most_def)

lemma runs_at_most_trans:
  assumes "runs_at_most q m k h h1" "runs_at_most q m' k' h1 h2"
  shows "runs_at_most q (m + m') (k + k') h h2"
proof -
  obtain l where l: "executed h1 = executed h @ l" "set l \<subseteq> {q, ping_text}" "count_list l q \<le> m"
    "count_list l ping_text \<le> k"
    using assms(1) by (auto simp: runs_at_most_def)
  obtain l' where l': "executed h2 = executed h1 @ l'" "set l' \<subseteq> {q, ping_text}" "count_list l' q \<le> m'"
    "count_list l' ping_text \<le> k'" "handler_ok h2"
    using assms(2) by (auto simp: runs_at_most_def)
  show ?thesis
    unfolding runs_at_most_def
    using l l' by (intro conjI exI [of _ "l @ l'"]) (auto simp: add_mono)
qed

lemma runs_exec:
  assumes "exec_ok q h h'" "q \<noteq> ping_text"
  shows "runs_at_most q 1 0 h h'"
  using assms by (auto simp: exec_ok_def runs_at_most_def)

lemma runs_ping:
  assumes "exec_ok ping_text h h'" "q \<noteq> ping_text"
  shows "runs_at_most q 0 1 h h'"
  using assms by (auto simp: exec_ok_def runs_at_most_def)

lemma reconnect_loop_runs:
  assumes "q \<noteq> ping_text"
  shows "handler_ok h \<Longrightarrow> count \<le> Suc reconnect_count \<Longrightarrow> reconnect_loop dr lc count h d = (b, h', d') \<Longrightarrow>
    runs_at_most q 0 (Suc (Suc reconnect_count) - count) h h'"
proof (induction dr lc count h d rule: reconnect_loop.induct)
  case (1 dr lc count h d)
  obtain b1 h1 d1 where r: "db_reconnect dr lc h d = (b1, h1, d1)" by (metis prod_cases3)
  have p: "runs_at_most q 0 1 h h1"
    using db_reconnect_ok [OF r "1.prems"(1)] runs_ping assms by (simp add: ping_text_def)
  then have ok: "handler_ok h1" by (simp add: runs_at_most_def)
  show ?case
  proof (cases "b1 = Returned False \<and> \<not> reconnect_count < count")
    case True
    then have "reconnect_loop dr lc (Suc count) h1 d1 = (b, h', d')"
      using "1.prems"(3) r by (simp add: reconnect_loop.simps [of dr lc count h d])
    then have "runs_at_most q 0 (Suc (Suc reconnect_count) - Suc count) h1 h'"
      using "1.IH" [OF r [symmetric] refl refl _ _ ok] True by simp
    from runs_at_most_trans [OF p this] show ?thesis
      by (rule runs_at_most_mono) (use True in arith)+
  next
    case False
    then have "h' = h1"
      using "1.prems"(3) r by (auto simp: reconnect_loop.simps [of dr lc count h d] split: if_splits)
    then show ?thesis using runs_at_most_mono [OF p, of 0] "1.prems"(2) by simp
  qed
qed

lemma single_loop_runs:
  "q \<noteq> [] \<Longrightarrow> handler_ok h \<Longrightarrow> retry \<le> Suc retry_count \<Longrightarrow> cmd_query cmd = call_text q (length (cmd_params cmd)) \<Longrightarrow>
    single_loop dr lc q cmd t retry h d = (r, h', d') \<Longrightarrow>
    runs_at_most (cmd_query cmd) (Suc (Suc retry_count) - retry)
      (Suc reconnect_count * (Suc retry_count - retry)) h h'"
proof (induction dr lc q cmd t retry h d rule: single_loop.induct)
  case (1 dr lc q cmd t retry h d)
  let ?q = "cmd_query cmd"
  have np: "?q \<noteq> ping_text" using "1.prems"(4) call_not_ping by metis
  obtain b ret out h1 d1 where e: "exec_row dr lc cmd t h d = (b, ret, out, h1, d1)" by (metis prod_cases5)
  obtain rb h2 d2 where rc: "reconnect_loop dr lc 1 h1 d1 = (rb, h2, d2)" by (metis prod_cases3)
  have x: "runs_at_most ?q 1 0 h h1" by (rule runs_exec [OF exec_row_ok [OF e "1.prems"(2)] np])
  then have ok1: "handler_ok h1" by (simp add: runs_at_most_def)
  have y: "runs_at_most ?q 1 (Suc reconnect_count) h h2"
    using runs_at_most_trans [OF x reconnect_loop_runs [OF np ok1 _ rc]] by simp
  then have ok2: "handler_ok h2" by (simp add: runs_at_most_def)
  consider (stop) "h' = h1" | (lost) "h' = h2" "b = Returned False" "\<not> retry_count < retry"
    | (again) "b = Returned False" "\<not> retry_count < retry" "ret \<noteq> sql_no_data" "rb = Returned True"
      "single_loop dr lc q (requery q cmd) t (Suc retry) h2 d2 = (r, h', d')"
  proof -
    have "b = Faulted \<or> b = Returned True \<or> b = Returned False" "rb = Faulted \<or> rb = Returned True \<or> rb = Returned False"
      by (cases b; force) (cases rb; force)
    then show thesis
      using "1.prems"(5) stop lost again
      by (simp add: single_loop.simps [of dr lc q cmd t retry h d] e rc [unfolded One_nat_def] split: if_splits)
  qed
  then show ?case
  proof cases
    case stop
    then show ?thesis using runs_at_most_mono [OF x] "1.prems"(3) by simp
  next
    case lost
    then have "Suc 0 \<le> Suc retry_count - retry" by simp
    then have "Suc reconnect_count * 1 \<le> Suc reconnect_count * (Suc retry_count - retry)"
      by (intro mult_le_mono2) simp
    then show ?thesis using lost runs_at_most_mono [OF y] by simp
  next
    case again
    have "cmd_query (requery q cmd) = ?q"
      using requery_text(1) [OF "1.prems"(1)] "1.prems"(4) by simp
    then have "runs_at_most ?q (Suc (Suc retry_count) - Suc retry)
        (Suc reconnect_count * (Suc retry_count - Suc retry)) h2 h'"
      using "1.IH" [OF e [symmetric] refl refl refl refl _ _ _ _ rc [symmetric] refl refl _ _ "1.prems"(1) ok2]
        again requery_text [OF "1.prems"(1), of cmd]
      by simp
    from runs_at_most_trans [OF y this] show ?thesis
    proof (rule runs_at_most_mono)
      show "1 + (Suc (Suc retry_count) - Suc retry) \<le> Suc (Suc retry_count) - retry" using again by simp
      have "Suc retry_count - retry = Suc (Suc retry_count - Suc retry)" using again by simp
      then show "Suc reconnect_count + Suc reconnect_count * (Suc retry_count - Suc retry)
          \<le> Suc reconnect_count * (Suc retry_count - retry)"
        by simp
    qed
  qed
qed

text \<open>C19. A procedure returns, and is executed at most six times: whatever the driver does, one call
  of \<open>single_row\<close> hands the procedure's text to the driver at most six times and pings it at
  most thirty times, executes nothing else, and leaves the connection's handles balanced.\<close>

theorem single_row_bounded:
  assumes "single_row dr lc t sp h d = (r, sp', h', d')" and "handler_ok h" and "sp_query sp \<noteq> []"
  shows "handler_ok h' \<and>
    (\<exists>l. executed h' = executed h @ l \<and>
       set l \<subseteq> {call_text (sp_query sp) (length (cmd_params (sp_command sp))), widen ''{ select 0 }''} \<and>
       count_list l (call_text (sp_query sp) (length (cmd_params (sp_command sp)))) \<le> 6 \<and>
       count_list l (widen ''{ select 0 }'') \<le> 30)"
proof -
  let ?cmd = "requery (sp_query sp) (sp_command sp)"
  obtain r1 h1 d1 where l: "single_loop dr lc (sp_query sp) ?cmd t 1 h d = (r1, h1, d1)" by (metis prod_cases3)
  have h: "h' = h1" using assms(1,3) l by (simp add: single_row_def Let_def)
  have q: "cmd_query ?cmd = call_text (sp_query sp) (length (cmd_params ?cmd))"
    "cmd_params ?cmd = cmd_params (sp_command sp)"
    using requery_text [OF assms(3)] by simp_all
  from single_loop_runs [OF assms(3,2) _ q(1) l] show ?thesis
    using q by (simp add: h runs_at_most_def ping_text_def retry_count_def reconnect_count_def)
qed

section \<open>A procedure without a result set\<close>

text \<open>A driver on which everything but the fetch succeeds.\<close>

definition accepts_all :: "'d driver \<Rightarrow> bool" where
  "accepts_all dr \<longleftrightarrow> has_memory dr \<and>
     (\<forall>d. fst (dr_alloc_env dr d) = sql_success \<and> fst (dr_alloc_dbc dr d) = sql_success \<and>
        fst (dr_set_timeout dr d) = sql_success) \<and>
     (\<forall>a b c d. fst (dr_connect dr a b c d) = sql_success) \<and>
     (\<forall>x d. fst (dr_dead dr x d) = sql_success \<and> \<not> fst (snd (dr_dead dr x d)) \<and>
        fst (dr_alloc_stmt dr x d) = sql_success) \<and>
     (\<forall>n b d. fst (dr_bind dr n b d) = sql_success) \<and> (\<forall>q d. fst (dr_execute dr q d) = sql_success)"

definition info_ok :: "odbc_handler \<Rightarrow> bool" where
  "info_ok h \<longleftrightarrow> (case oh_info h of (dsn, uid, pass) \<Rightarrow> dsn \<noteq> [] \<and> uid \<noteq> [] \<and> pass \<noteq> [])"

definition bufs_ok :: "odbc_handler \<Rightarrow> bool" where
  "bufs_ok h \<longleftrightarrow> (\<forall>fb \<in> set (oh_pool h) \<union> set (oh_bufs h). fb_ok fb)"

lemma not_bad: "\<not> sql_bad sql_success"
  by (simp add: sql_bad_def sql_codes)

lemma connect_accepted:
  assumes "accepts_all dr" "info_ok h"
  shows "\<exists>h' d'. handler_connect dr (oh_info h) h d = (True, h', d')"
proof -
  obtain dsn uid pass where i: "oh_info h = (dsn, uid, pass)" "dsn \<noteq> []" "uid \<noteq> []" "pass \<noteq> []"
    using assms(2) by (auto simp: info_ok_def)
  obtain h0 d0 where 0: "handler_close dr h d = (h0, d0)" by fastforce
  obtain r1 h1 d1 where 1: "alloc_env dr h0 d0 = (r1, h1, d1)" by (metis prod_cases3)
  obtain r2 h2 d2 where 2: "alloc_dbc dr h1 d1 = (r2, h2, d2)" by (metis prod_cases3)
  obtain r3 d3 where 3: "dr_set_timeout dr d2 = (r3, d3)" by fastforce
  obtain r4 d4 where 4: "dr_connect dr dsn uid pass d3 = (r4, d4)" by fastforce
  have "r1 = sql_success" using 1 assms(1) by (auto simp: alloc_env_def accepts_all_def split: prod.splits) (metis fst_conv)
  moreover have "r2 = sql_success" using 2 assms(1) by (auto simp: alloc_dbc_def accepts_all_def split: prod.splits) (metis fst_conv)
  moreover have "r3 = sql_success" using 3 assms(1) unfolding accepts_all_def by (metis fst_conv)
  moreover have "r4 = sql_success" using 4 assms(1) unfolding accepts_all_def by (metis fst_conv)
  ultimately show ?thesis using i by (simp add: handler_connect_def 0 1 2 3 4 sql_good_def)
qed

lemma fresh_accepted:
  assumes "accepts_all dr"
  shows "\<exists>r h' d'. fresh_stmt dr h d = (True, r, h', d')"
proof -
  obtain h1 d1 where 1: "free_stmt dr h d = (h1, d1)" by fastforce
  obtain r2 h2 d2 where 2: "alloc_stmt dr h1 d1 = (r2, h2, d2)" by (metis prod_cases3)
  have "r2 = sql_success" using 2 assms by (auto simp: alloc_stmt_def accepts_all_def split: prod.splits) (metis fst_conv)
  then show ?thesis by (simp add: fresh_stmt_def 1 2 sql_bad_def sql_codes)
qed

lemma probe_accepted:
  assumes "accepts_all dr"
  shows "\<exists>r h' d'. probe dr h d = (True, r, h', d')"
proof -
  obtain r1 dead d1 where 1: "dr_dead dr (oh_dbc h) d = (r1, dead, d1)" by (metis prod_cases3)
  have "r1 = sql_success" "\<not> dead"
    using 1 assms unfolding accepts_all_def by (metis fst_conv) (metis fst_conv snd_conv 1 assms accepts_all_def)
  then show ?thesis using fresh_accepted [OF assms, of h d1] by (simp add: probe_def 1 sql_good_def)
qed

lemma open_accepted:
  assumes "accepts_all dr" "info_ok h" "bufs_ok h"
  shows "\<exists>r h' d'. open_statement dr h d = (True, r, h', d')"
proof -
  let ?h = "return_fetch_buffer h"
  have "info_ok ?h" using assms(2) by (simp add: info_ok_def return_fetch_buffer_def)
  then obtain h1 d1 where 1: "handler_connect dr (oh_info ?h) ?h d = (True, h1, d1)"
    using connect_accepted [OF assms(1)] by blast
  show ?thesis
    using probe_accepted [OF assms(1), of ?h d] probe_accepted [OF assms(1), of h1 d1]
    by (simp add: open_statement_def Let_def 1)
qed

lemma open_bufs_ok:
  assumes "open_statement dr h d = (ok, r, h', d')" "handler_ok h" "bufs_ok h"
  shows "bufs_ok h'"
  using open_statement_ok [OF assms(1,2)] assms(3) give_fetch_buffers_ok [of "oh_pool h" "oh_bufs h"]
  by (auto simp: bufs_ok_def)

lemma bind_one_accepted:
  assumes "accepts_all dr" "fb_ok fb" "p \<noteq> P_other"
  shows "\<exists>fb' d'. bind_one dr lc p count ret fb d = (Returned (fb', Suc count, sql_success), d') \<and> fb_ok fb'"
proof -
  have m: "has_memory dr" using assms(1) by (simp add: accepts_all_def)
  have b: "\<exists>d'. dr_bind dr n b d = (sql_success, d')" for n b d
    using assms(1) by (metis accepts_all_def surj_pair fst_conv)
  show ?thesis
  proof (cases "param_room p")
    case None
    then obtain fb' b' where "param_binding lc p fb = Some (fb', b')" "fb_ok fb'"
      using assms(2,3) by (cases p) (auto simp: param_binding_def param_room_def fb_ok_def split: block.splits)
    then show ?thesis using b [of "Suc count" b' d] None assms(3) by (auto simp: bind_one_def)
  next
    case (Some k)
    obtain fb1 where 1: "resize_buf dr k fb d = (Returned fb1, d)" "fb_ok fb1" "fb_size fb1 = max k (fb_size fb)"
      "fb_buf fb1 = Block (replicate (max k (fb_size fb)) 0)"
      using resize_buf_ok [OF m assms(2)] by blast
    have l: "length (wide_bytes s) = length s * 2" for s
      by (induction s) (simp_all add: wide_bytes_def)
    obtain fb' b' where "param_binding lc p fb1 = Some (fb', b')" "fb_ok fb'"
    proof -
      have st: "\<exists>fb2. store_bytes bs fb1 = Some fb2 \<and> fb_ok fb2" if "length bs < k" for bs
      proof -
        have "length bs \<le> fb_size fb1" using 1(3) that by linarith
        then show ?thesis using store_bytes_ok [OF 1(2,4)] by blast
      qed
      consider s where "p = P_string s" "k = length s + 1" | s where "p = P_wstring s" "k = length s * 2 + 2"
        using Some by (cases p) (simp_all add: param_room_def)
      then show thesis
      proof cases
        case (1 s)
        then obtain fb2 where "store_bytes (narrow_bytes s) fb1 = Some fb2" "fb_ok fb2"
          using st [of "narrow_bytes s"] by (auto simp: narrow_bytes_def)
        then show thesis using that [of fb2] 1(1) by (simp add: param_binding_def)
      next
        case (2 s)
        then obtain fb2 where "store_bytes (wide_bytes s) fb1 = Some fb2" "fb_ok fb2"
          using st [of "wide_bytes s"] l [of s] by auto
        then show thesis using that [of fb2] 2(1) by (simp add: param_binding_def)
      qed
    qed
    then show ?thesis using b [of "Suc count" b' d] Some 1(1) assms(3) by (auto simp: bind_one_def)
  qed
qed

lemma bind_loop_accepted:
  assumes "accepts_all dr"
  shows "bufs_ok h \<Longrightarrow> P_other \<notin> set ps \<Longrightarrow>
    \<exists>h' d'. bind_loop dr lc ps count ret h d = (Returned True, h', d') \<and> bufs_ok h'"
proof (induction ps arbitrary: count ret h d)
  case Nil
  then show ?case by simp
next
  case (Cons p ps)
  have m: "has_memory dr" using assms by (simp add: accepts_all_def)
  have "pool_ok h" using Cons.prems(1) by (simp add: pool_ok_def bufs_ok_def)
  then obtain fb h1 where 1: "alloc_fetch_buffer dr h d = (Some fb, h1, d)" "fb_ok fb" "pool_ok h1"
    using alloc_fetch_buffer_ok [OF m] by blast
  have bufs: "oh_bufs h1 = oh_bufs h"
    using 1(1) by (auto simp: alloc_fetch_buffer_def split: prod.splits)
  obtain fb' d' where 2: "bind_one dr lc p count ret fb d = (Returned (fb', Suc count, sql_success), d')" "fb_ok fb'"
    using bind_one_accepted [OF assms 1(2), of p lc count ret d] Cons.prems(2) by auto
  have "bufs_ok (h1\<lparr>oh_bufs := oh_bufs h1 @ [fb']\<rparr>)"
    using Cons.prems(1) 1(3) 2(2) bufs by (auto simp: bufs_ok_def pool_ok_def)
  from Cons.IH [OF this, of "Suc count" sql_success d'] Cons.prems(2) show ?case
    by (simp add: 1(1) 2(1) sql_bad_def sql_codes)
qed

text \<open>An execution whose fetch fails.\<close>

lemma exec_row_no_rows:
  assumes "accepts_all dr" "\<And>d. fst (dr_fetch dr d) = sql_error"
    and "handler_ok h" "info_ok h" "bufs_ok h" "P_other \<notin> set (cmd_params cmd)"
  shows "\<exists>h' d'. exec_row dr lc cmd t h d = (Returned False, sql_error, [], h', d') \<and> handler_ok h' \<and>
    info_ok h' \<and> bufs_ok h' \<and> executed h' = executed h @ [cmd_query cmd]"
proof -
  obtain r h1 d1 where 1: "open_statement dr h d = (True, r, h1, d1)"
    using open_accepted [OF assms(1,4,5)] by blast
  have h1: "handler_ok h1" "executed h1 = executed h" "oh_info h1 = oh_info h" "bufs_ok h1"
    using open_statement_ok [OF 1 assms(3)] open_bufs_ok [OF 1 assms(3,5)] by simp_all
  obtain d' where d': "(if 0 < t then dr_stmt_timeout dr t d1 else d1) = d'" by blast
  obtain h2 d2 where 2: "bind_loop dr lc (cmd_params cmd) 0 sql_error h1 d' = (Returned True, h2, d2)" "bufs_ok h2"
    using bind_loop_accepted [OF assms(1) h1(4) assms(6)] by blast
  have h2: "handler_ok h2" "executed h2 = executed h" "oh_info h2 = oh_info h"
    using bind_loop_frame [OF 2(1)] buffers_only_ok buffers_only_sel h1 by metis+
  obtain d3 where 3: "dr_execute dr (cmd_query cmd) d2 = (sql_success, d3)"
    using assms(1) by (metis accepts_all_def surj_pair fst_conv)
  let ?h = "h2\<lparr>executed := executed h2 @ [cmd_query cmd]\<rparr>"
  have b: "bind_parameters dr lc cmd t h1 d1 = (Returned True, ?h, d3)"
    by (simp add: bind_parameters_def d' 2(1) 3 not_bad)
  obtain n d4 where 4: "dr_fetch dr d3 = (sql_error, n, d4)"
    using assms(2) [of d3] by (metis prod_cases3 fst_conv)
  have "exec_row dr lc cmd t h d = (Returned False, sql_error, [], ?h, d4)"
    by (simp add: exec_row_def 1 b 4 sql_good_def sql_codes)
  moreover have "handler_ok ?h" "info_ok ?h" "bufs_ok ?h" "executed ?h = executed h @ [cmd_query cmd]"
    using h2 2(2) assms(4) by (simp_all add: handler_ok_defs info_ok_def bufs_ok_def)
  ultimately show ?thesis by blast
qed

lemma reconnect_no_rows:
  assumes "accepts_all dr" "\<And>d. fst (dr_fetch dr d) = sql_error" "handler_ok h" "info_ok h" "bufs_ok h"
  shows "\<exists>h' d'. reconnect_loop dr lc 1 h d = (Returned True, h', d') \<and> handler_ok h' \<and> info_ok h' \<and>
    bufs_ok h' \<and> executed h' = executed h @ [ping_text]"
proof -
  let ?c = "ping_query command_new"
  have "P_other \<notin> set (cmd_params ?c)" by (simp add: ping_query_def command_new_def)
  from exec_row_no_rows [OF assms this, of lc odbc_timeout d] obtain h1 d1 where
    1: "exec_row dr lc ?c odbc_timeout h d = (Returned False, sql_error, [], h1, d1)"
    "handler_ok h1" "info_ok h1" "bufs_ok h1" "executed h1 = executed h @ [cmd_query ?c]"
    by blast
  obtain h2 d2 where 2: "handler_close dr h1 d1 = (h2, d2)" by fastforce
  have h2: "handler_ok h2" "oh_info h2 = oh_info h1" "executed h2 = executed h1" "oh_bufs h2 = oh_bufs h1"
    "oh_pool h2 = oh_pool h1"
    using handler_close_ok [OF 2 1(2)] by simp_all
  then have "info_ok h2" using 1(3) by (simp add: info_ok_def)
  then obtain h3 d3 where 3: "handler_connect dr (oh_info h2) h2 d2 = (True, h3, d3)"
    using connect_accepted [OF assms(1)] by blast
  have h3: "handler_ok h3" "same_work h2 h3" "oh_info h3 = oh_info h2"
    using handler_connect_ok [OF 3 h2(1)] by simp_all
  have "reconnect_loop dr lc 1 h d = (Returned True, h3, d3)"
    by (simp add: reconnect_loop.simps [of dr lc _ h d] db_reconnect_def ping_def 1(1) 2 3)
  moreover have "info_ok h3" "bufs_ok h3" "executed h3 = executed h @ [ping_text]"
    using h2 h3 1(3-5) \<open>info_ok h2\<close>
    by (simp_all add: info_ok_def bufs_ok_def same_work_def ping_text_def ping_query_def)
  ultimately show ?thesis using h3(1) by blast
qed

lemma single_loop_no_rows:
  assumes "accepts_all dr" "\<And>d. fst (dr_fetch dr d) = sql_error" "q \<noteq> []"
  shows "handler_ok h \<Longrightarrow> info_ok h \<Longrightarrow> bufs_ok h \<Longrightarrow> P_other \<notin> set (cmd_params cmd) \<Longrightarrow>
    cmd_query cmd = call_text q (length (cmd_params cmd)) \<Longrightarrow> n = Suc retry_count - retry \<Longrightarrow>
    retry \<le> Suc retry_count \<Longrightarrow>
    \<exists>h' d'. single_loop dr lc q cmd t retry h d = (Returned None, h', d') \<and>
      executed h' = executed h @ concat (replicate n [cmd_query cmd, ping_text]) @ [cmd_query cmd]"
proof (induction n arbitrary: cmd retry h d)
  case 0
  obtain h1 d1 where 1: "exec_row dr lc cmd t h d = (Returned False, sql_error, [], h1, d1)"
    "executed h1 = executed h @ [cmd_query cmd]"
    using exec_row_no_rows [OF assms(1,2) 0(1-4), of lc t d] by blast
  then show ?case using 0(6,7) by (simp add: single_loop.simps [of dr lc q cmd t retry h d])
next
  case (Suc n)
  obtain h1 d1 where 1: "exec_row dr lc cmd t h d = (Returned False, sql_error, [], h1, d1)"
    "handler_ok h1" "info_ok h1" "bufs_ok h1" "executed h1 = executed h @ [cmd_query cmd]"
    using exec_row_no_rows [OF assms(1,2) Suc.prems(1-4), of lc t d] by blast
  obtain h2 d2 where 2: "reconnect_loop dr lc 1 h1 d1 = (Returned True, h2, d2)"
    "handler_ok h2" "info_ok h2" "bufs_ok h2" "executed h2 = executed h1 @ [ping_text]"
    using reconnect_no_rows [OF assms(1,2) 1(2-4), of lc d1] by blast
  let ?c = "requery q cmd"
  have c: "cmd_params ?c = cmd_params cmd" "cmd_query ?c = cmd_query cmd"
    using requery_text [OF assms(3), of cmd] Suc.prems(5) by simp_all
  have "n = Suc retry_count - Suc retry" "Suc retry \<le> Suc retry_count" using Suc.prems(6) by simp_all
  from Suc.IH [OF 2(2-4) _ _ this, of ?c d2] obtain h' d' where
    3: "single_loop dr lc q ?c t (Suc retry) h2 d2 = (Returned None, h', d')"
    "executed h' = executed h2 @ concat (replicate n [cmd_query cmd, ping_text]) @ [cmd_query cmd]"
    using Suc.prems(4,5) c by auto
  have "\<not> retry_count < retry" using Suc.prems(6) by arith
  then have "single_loop dr lc q cmd t retry h d = (Returned None, h', d')"
    using 3(1) 1(1) 2(1)
    by (simp add: single_loop.simps [of dr lc q cmd t retry h d] 2(1) [unfolded One_nat_def] sql_codes)
  with 3(2) 1(5) 2(5) show ?case by simp
qed

text \<open>A procedure that returns no rows is executed six times and reported as failed: on a driver
  where connecting, binding and executing succeed and only the fetch fails, as it does after a
  procedure without a result set, \<open>single_row\<close> executes the procedure, pings and reconnects
  five times over, executes it once more and returns nothing.\<close>

lemma procedure_without_rows:
  assumes "accepts_all dr" and "\<And>d. fst (dr_fetch dr d) = sql_error"
    and "handler_ok h" and "info_ok h" and "bufs_ok h"
    and "sp_query sp \<noteq> []" and "P_other \<notin> set (cmd_params (sp_command sp))"
  defines "q \<equiv> call_text (sp_query sp) (length (cmd_params (sp_command sp)))"
  shows "\<exists>sp' h' d'. single_row dr lc t sp h d = (Returned None, sp', h', d') \<and>
    executed h' = executed h @ concat (replicate 5 [q, widen ''{ select 0 }'']) @ [q]"
proof -
  let ?cmd = "requery (sp_query sp) (sp_command sp)"
  have c: "cmd_params ?cmd = cmd_params (sp_command sp)" "cmd_query ?cmd = q"
    using requery_text [OF assms(6), of "sp_command sp"] by (simp_all add: q_def)
  have "(5 :: nat) = Suc retry_count - 1" by (simp add: retry_count_def)
  from single_loop_no_rows [OF assms(1,2,6,3-5) _ _ this, of ?cmd lc t d] obtain h' d' where
    "single_loop dr lc (sp_query sp) ?cmd t 1 h d = (Returned None, h', d')"
    "executed h' = executed h @ concat (replicate 5 [q, ping_text]) @ [q]"
    using assms(7) c by (auto simp: retry_count_def q_def)
  then show ?thesis using assms(6) by (auto simp: single_row_def ping_text_def)
qed

definition mute_driver :: "demo_state driver" where
  "mute_driver = demo_driver\<lparr>dr_fetch := (\<lambda>d. (sql_error, 0, d))\<rparr>"

definition demo_procedure :: procedure where
  "demo_procedure = sp_bind (P_int 7) (procedure_new ''add'')"

lemma demo_procedure_simps [simp]:
  "sp_query demo_procedure = ''add''" "cmd_params (sp_command demo_procedure) = [P_int 7]"
  by (simp_all add: demo_procedure_def sp_bind_def procedure_new_def bind_parameter_def command_new_def)

lemma mute_driver_ok: "accepts_all mute_driver" "fst (dr_fetch mute_driver d) = sql_error"
  by (simp_all add: accepts_all_def mute_driver_def demo_driver_def has_memory_def sql_codes)

lemma demo_handler_ok: "handler_ok demo_handler" "info_ok demo_handler" "bufs_ok demo_handler"
  by (simp_all add: demo_handler_def handler_new_def handler_ok_defs info_ok_def bufs_ok_def fill_buffers_none
      widen_def)

theorem single_row_bounded_witness:
  "\<exists>r sp h d l. single_row mute_driver demo_casts 2 demo_procedure demo_handler ([], []) = (r, sp, h, d) \<and>
     executed h = l \<and> count_list l (call_text ''add'' 1) \<le> 6"
proof -
  obtain r sp h d where s: "single_row mute_driver demo_casts 2 demo_procedure demo_handler ([], []) = (r, sp, h, d)"
    by (metis prod_cases4)
  show ?thesis
    using single_row_bounded [OF s demo_handler_ok(1)] s by auto
qed

lemma count_rounds: "a \<noteq> b \<Longrightarrow> count_list (concat (replicate n [a, b])) a = n"
  by (induction n) simp_all

theorem procedure_without_rows_witness:
  "\<exists>sp h d. single_row mute_driver demo_casts 2 demo_procedure demo_handler ([], []) = (Returned None, sp, h, d) \<and>
     count_list (executed h) (widen ''{ CALL add (?) }'') = 6"
proof -
  have q: "call_text ''add'' 1 = widen ''{ CALL add (?) }''"
    by (simp add: call_text_def c_string_def widen_def)
  have "P_other \<notin> set (cmd_params (sp_command demo_procedure))" by simp
  from procedure_without_rows [OF mute_driver_ok demo_handler_ok _ this, of demo_casts 2 "([], [])"]
  obtain sp h d where h: "single_row mute_driver demo_casts 2 demo_procedure demo_handler ([], []) =
      (Returned None, sp, h, d)"
    "executed h = concat (replicate 5 [widen ''{ CALL add (?) }'', widen ''{ select 0 }'']) @ [widen ''{ CALL add (?) }'']"
    by (auto simp: q [unfolded One_nat_def])
  have "widen ''{ select 0 }'' \<noteq> widen ''{ CALL add (?) }''" by (simp add: widen_def)
  then have "count_list (executed h) (widen ''{ CALL add (?) }'') = 6"
    unfolding h(2) using count_rounds [of "widen ''{ CALL add (?) }''" "widen ''{ select 0 }''" 5] by auto
  with h(1) show ?thesis by blast
qed

end
