(* ===== verification/OdbcPool.thy ===== *)
theory OdbcPool
  imports OdbcProcedure
begin

text \<open>
  The pool of database connections (\<open>handler_wrapper\<close> and \<open>pool\<close> in
  \<^verbatim>\<open>source/impl/odbc/{handler_wrapper.h,pool.h,odbc.cpp}\<close>). A wrapper has no state besides its
  handler and is that handler. Each operation holds the pool's mutex and is one step.
\<close>

section \<open>Wrappers\<close>

definition wrapper_new :: "(nat \<Rightarrow> bool) \<Rightarrow> odbc_handler" where
  "wrapper_new hm = handler_new hm odbc_delay_query"

definition wrapper_connect ::
  "(string \<Rightarrow> wstring option) \<Rightarrow> 'd driver \<Rightarrow> string \<Rightarrow> string \<Rightarrow> string \<Rightarrow> odbc_handler \<Rightarrow> 'd \<Rightarrow>
   bool \<times> odbc_handler \<times> 'd" where
  "wrapper_connect utf dr dsn uid auth w d = db_connect utf dr dsn uid auth w d"

definition wrapper_close :: "'d driver \<Rightarrow> odbc_handler \<Rightarrow> 'd \<Rightarrow> odbc_handler \<times> 'd" where
  "wrapper_close dr w d = db_close dr w d"

definition wrapper_set_delay :: "u64 \<Rightarrow> odbc_handler \<Rightarrow> odbc_handler" where
  "wrapper_set_delay delay w = (if delay < odbc_delay_query then w else handler_set_delay delay w)"

section \<open>The pool\<close>

record odbc_pool =
  op_q :: "odbc_handler list"
  op_dsn :: string
  op_id :: string
  op_auth :: string
  op_early :: u8

definition default_db_pool_size :: u8 where "default_db_pool_size = 2"

definition max_db_pool_size :: u8 where "max_db_pool_size = 16"

definition odbc_pool_new :: odbc_pool where
  "odbc_pool_new = \<lparr>op_q = [], op_dsn = [], op_id = [], op_auth = [], op_early = default_db_pool_size\<rparr>"

text \<open>Clearing the queue destroys its handlers, which closes them.\<close>

definition drop_handlers :: "'d driver \<Rightarrow> odbc_handler list \<Rightarrow> 'd \<Rightarrow> 'd" where
  "drop_handlers dr ws d = fold (\<lambda>w d. snd (handler_close dr w d)) ws d"

definition clamp_db_pool_size :: "u8 \<Rightarrow> u8" where
  "clamp_db_pool_size n =
     (let n1 = (if n < default_db_pool_size then default_db_pool_size else n)
      in if max_db_pool_size < n1 then max_db_pool_size else n1)"

text \<open>The loop of \<open>connect\<close>: \<open>None\<close> when making a handler throws.\<close>

fun connect_handlers ::
  "(string \<Rightarrow> wstring option) \<Rightarrow> 'd driver \<Rightarrow> (nat \<Rightarrow> bool) \<Rightarrow> (nat \<Rightarrow> bool) \<Rightarrow> string \<times> string \<times> string \<Rightarrow>
   nat \<Rightarrow> odbc_handler list \<Rightarrow> 'd \<Rightarrow> bool option \<times> odbc_handler list \<times> 'd" where
  "connect_handlers utf dr mem hm (dsn, uid, auth) 0 q d = (Some True, q, d)"
| "connect_handlers utf dr mem hm (dsn, uid, auth) (Suc n) q d =
     (if \<not> mem n then (None, q, d)
      else
        let (ok, w, d1) = wrapper_connect utf dr dsn uid auth (wrapper_new hm) d; q1 = q @ [w]
        in if \<not> ok then (Some False, [], drop_handlers dr q1 d1)
           else connect_handlers utf dr mem hm (dsn, uid, auth) n q1 d1)"

definition pool_connect ::
  "(string \<Rightarrow> wstring option) \<Rightarrow> 'd driver \<Rightarrow> (nat \<Rightarrow> bool) \<Rightarrow> (nat \<Rightarrow> bool) \<Rightarrow> string \<Rightarrow> string \<Rightarrow> string \<Rightarrow>
   u8 \<Rightarrow> odbc_pool \<Rightarrow> 'd \<Rightarrow> bool option \<times> odbc_pool \<times> 'd" where
  "pool_connect utf dr mem hm dsn uid auth n p d =
     (if dsn = [] \<or> uid = [] \<or> auth = [] then (Some False, p, d)
      else
        let k = clamp_db_pool_size n; p1 = p\<lparr>op_early := k, op_q := []\<rparr>;
            (r, q, d1) = connect_handlers utf dr mem hm (dsn, uid, auth) (unat k) [] (drop_handlers dr (op_q p) d);
            p2 = p1\<lparr>op_q := q\<rparr>
        in if r = Some True then (r, p2\<lparr>op_dsn := dsn, op_id := uid, op_auth := auth\<rparr>, d1) else (r, p2, d1))"

definition alloc_odbc_ptr ::
  "(string \<Rightarrow> wstring option) \<Rightarrow> 'd driver \<Rightarrow> bool \<Rightarrow> (nat \<Rightarrow> bool) \<Rightarrow> odbc_pool \<Rightarrow> 'd \<Rightarrow>
   bool \<times> odbc_handler option \<times> odbc_pool \<times> 'd" where
  "alloc_odbc_ptr utf dr mem hm p d =
     (case op_q p of
        [] \<Rightarrow>
          if max_db_pool_size \<le> op_early p then (False, None, p, d)
          else if \<not> mem then (False, None, p\<lparr>op_early := op_early p + 1 - 1\<rparr>, d)
          else
            let p1 = p\<lparr>op_early := op_early p + 1\<rparr>;
                (ok, w, d1) = wrapper_connect utf dr (op_dsn p1) (op_id p1) (op_auth p1) (wrapper_new hm) d
            in (ok, Some w, p1, d1)
      | w # ws \<Rightarrow> (True, Some w, p\<lparr>op_q := ws\<rparr>, d))"

definition compulsion_alloc_odbc_ptr ::
  "(string \<Rightarrow> wstring option) \<Rightarrow> 'd driver \<Rightarrow> bool \<Rightarrow> (nat \<Rightarrow> bool) \<Rightarrow> odbc_pool \<Rightarrow> 'd \<Rightarrow>
   bool \<times> odbc_handler option \<times> 'd" where
  "compulsion_alloc_odbc_ptr utf dr mem hm p d =
     (if \<not> mem then (False, None, d)
      else let (ok, w, d1) = wrapper_connect utf dr (op_dsn p) (op_id p) (op_auth p) (wrapper_new hm) d
           in (ok, Some w, d1))"

definition release_odbc_ptr :: "'d driver \<Rightarrow> odbc_handler \<Rightarrow> odbc_pool \<Rightarrow> 'd \<Rightarrow> odbc_pool \<times> 'd" where
  "release_odbc_ptr dr w p d =
     (if length (op_q p) < unat max_db_pool_size then (p\<lparr>op_q := op_q p @ [w]\<rparr>, d)
      else (p, snd (wrapper_close dr w d)))"

definition pool_set_delay :: "u64 \<Rightarrow> odbc_pool \<Rightarrow> odbc_pool" where
  "pool_set_delay delay p = p\<lparr>op_q := map (wrapper_set_delay delay) (op_q p)\<rparr>"

section \<open>What the pool guarantees\<close>

lemma clamp_bounds: "2 \<le> unat (clamp_db_pool_size n)" "unat (clamp_db_pool_size n) \<le> 16"
  by (simp_all add: clamp_db_pool_size_def default_db_pool_size_def max_db_pool_size_def word_less_nat_alt
      word_le_nat_alt not_less)

lemma wrapper_connect_ok:
  assumes "wrapper_connect utf dr dsn uid auth (wrapper_new hm) d = (True, w, d')"
  shows "handler_ok w \<and> oh_connected w"
proof -
  have "handler_ok (wrapper_new hm)" by (simp add: wrapper_new_def)
  then show ?thesis
    using assms handler_connect_ok
    by (fastforce simp: wrapper_connect_def db_connect_def split: option.splits)
qed

lemma connect_handlers_ok:
  assumes "\<forall>w \<in> set q. handler_ok w \<and> oh_connected w"
    and "connect_handlers utf dr mem hm (dsn, uid, auth) n q d = (r, q', d')"
  shows "(r = Some True \<longrightarrow> length q' = length q + n \<and> (\<forall>w \<in> set q'. handler_ok w \<and> oh_connected w)) \<and>
    (r = Some False \<longrightarrow> q' = []) \<and> length q' \<le> length q + n"
  using assms
proof (induction n arbitrary: q d)
  case 0
  then show ?case by auto
next
  case (Suc n)
  obtain ok w d1 where 1: "wrapper_connect utf dr dsn uid auth (wrapper_new hm) d = (ok, w, d1)"
    by (metis prod_cases3)
  consider "\<not> mem n" | "mem n" "\<not> ok" | "mem n" "ok" by blast
  then show ?case
  proof cases
    case 3
    then have q1: "\<forall>w \<in> set (q @ [w]). handler_ok w \<and> oh_connected w"
      using Suc.prems(1) wrapper_connect_ok [of utf dr dsn uid auth hm d w d1] 1 by auto
    have "connect_handlers utf dr mem hm (dsn, uid, auth) n (q @ [w]) d1 = (r, q', d')"
      using Suc.prems(2) 3 by (simp add: 1)
    from Suc.IH [OF q1 this] show ?thesis by (simp only: length_append list.size) simp
  qed (use Suc.prems 1 in auto)
qed

text \<open>Filling the pool: \<open>connect\<close> either connects as many handlers as asked for, but at least 2
  and at most 16, all of them connected with their handles balanced, and remembers the names;
  or leaves the pool empty; only an exception while making a handler leaves a part.\<close>

lemma pool_connect_fills:
  assumes "pool_connect utf dr mem hm dsn uid auth n p d = (r, p', d')"
    and "dsn \<noteq> []" and "uid \<noteq> []" and "auth \<noteq> []"
  shows "op_early p' = clamp_db_pool_size n \<and> 2 \<le> unat (op_early p') \<and> unat (op_early p') \<le> 16 \<and>
    (r = Some True \<longrightarrow> length (op_q p') = unat (op_early p') \<and> op_dsn p' = dsn \<and> op_id p' = uid \<and>
       op_auth p' = auth \<and> (\<forall>w \<in> set (op_q p'). handler_ok w \<and> oh_connected w)) \<and>
    (r = Some False \<longrightarrow> op_q p' = []) \<and> length (op_q p') \<le> unat (op_early p')"
proof -
  obtain r1 q d1 where c: "connect_handlers utf dr mem hm (dsn, uid, auth) (unat (clamp_db_pool_size n)) []
      (drop_handlers dr (op_q p) d) = (r1, q, d1)"
    by (metis prod_cases3)
  from connect_handlers_ok [OF _ c] show ?thesis
    using assms c clamp_bounds [of n] by (auto simp: pool_connect_def Let_def split: if_splits)
qed

theorem pool_connect_fills_witness:
  "\<exists>p d. pool_connect (\<lambda>s. Some (widen s)) demo_driver (\<lambda>_. True) (\<lambda>_. False) ''dsn'' ''id'' ''pass'' 0
     odbc_pool_new ([], []) = (Some True, p, d) \<and> length (op_q p) = 2 \<and> (\<forall>w \<in> set (op_q p). oh_connected w)"
proof -
  let ?p = "pool_connect (\<lambda>s. Some (widen s)) demo_driver (\<lambda>_. True) (\<lambda>_. False) ''dsn'' ''id'' ''pass'' 0
     odbc_pool_new ([], [])"
  have w: "\<exists>w. wrapper_connect (\<lambda>s. Some (widen s)) demo_driver ''dsn'' ''id'' ''pass'' (wrapper_new hm) d = (True, w, d)"
    for hm d
    by (simp add: wrapper_connect_def db_connect_def handler_connect_def c_string_def widen_def handler_close_def
        free_stmt_def wrapper_new_def handler_new_def alloc_env_def alloc_dbc_def sql_codes sql_good_def
        count_handle_def Let_def)
  have k: "clamp_db_pool_size 0 = 2"
    by (simp add: clamp_db_pool_size_def default_db_pool_size_def max_db_pool_size_def)
  obtain q d where c: "connect_handlers (\<lambda>s. Some (widen s)) demo_driver (\<lambda>_. True) (\<lambda>_. False) (''dsn'', ''id'', ''pass'')
      2 [] ([], []) = (Some True, q, d)"
  proof -
    obtain w1 where "wrapper_connect (\<lambda>s. Some (widen s)) demo_driver ''dsn'' ''id'' ''pass''
        (wrapper_new (\<lambda>_. False)) ([], []) = (True, w1, ([], []))"
      using w by blast
    then show thesis using that by (simp add: numeral_2_eq_2)
  qed
  have n: "unat (2 :: u8) = 2" "drop_handlers demo_driver (op_q odbc_pool_new) ([], []) = ([], [])"
    by (simp_all add: drop_handlers_def odbc_pool_new_def)
  obtain p where p: "?p = (Some True, p, d)"
    by (simp add: pool_connect_def k c n Let_def)
  from pool_connect_fills [OF this] p show ?thesis by (auto simp: k)
qed

section \<open>Slots that are never given back\<close>

fun drain :: "(string \<Rightarrow> wstring option) \<Rightarrow> 'd driver \<Rightarrow> (nat \<Rightarrow> bool) \<Rightarrow> nat \<Rightarrow> odbc_pool \<Rightarrow> 'd \<Rightarrow> odbc_pool \<times> 'd" where
  "drain utf dr hm 0 p d = (p, d)"
| "drain utf dr hm (Suc n) p d =
     (let (_, _, p1, d1) = alloc_odbc_ptr utf dr True hm p d in drain utf dr hm n p1 d1)"

text \<open>Slots of the pool are lost while the database is away: on an empty pool every allocation
  whose connect fails keeps its slot, so after enough of them all 16 are taken although no
  handler exists, and from then on an allocation is refused without trying to connect, over
  any driver, until handlers are released or the pool is connected again.\<close>

lemma pool_slots_lost:
  assumes "op_q p = []" and "op_early p \<le> 16" and "16 \<le> unat (op_early p) + n"
    and "\<And>d. \<not> fst (wrapper_connect utf dr (op_dsn p) (op_id p) (op_auth p) (wrapper_new hm) d)"
  shows "\<exists>d'. drain utf dr hm n p d = (p\<lparr>op_early := 16\<rparr>, d') \<and>
    alloc_odbc_ptr utf' dr' mem hm' (p\<lparr>op_early := 16\<rparr>) d2 = (False, None, p\<lparr>op_early := 16\<rparr>, d2)"
proof -
  have full: "alloc_odbc_ptr utf' dr' mem hm' (p\<lparr>op_early := 16\<rparr>) d2 = (False, None, p\<lparr>op_early := 16\<rparr>, d2)"
    for utf' and dr' :: "'x driver" and mem hm' d2
    using assms(1) by (simp add: alloc_odbc_ptr_def max_db_pool_size_def)
  have "\<exists>d'. drain utf dr hm n p d = (p\<lparr>op_early := 16\<rparr>, d')"
    using assms
  proof (induction n arbitrary: p d)
    case 0
    then have "op_early p = 16" by (simp add: word_le_nat_alt word_unat_eq_iff)
    then show ?case by (cases p) simp
  next
    case (Suc n)
    show ?case
    proof (cases "op_early p = 16")
      case True
      have "drain utf dr hm m p d = (p, d)" for m
        using True Suc.prems(1) by (induction m) (simp_all add: alloc_odbc_ptr_def max_db_pool_size_def)
      moreover have "p\<lparr>op_early := 16\<rparr> = p" using True by (cases p) simp
      ultimately show ?thesis by metis
    next
      case False
      then have less: "op_early p < 16" using Suc.prems(2) by (simp add: less_le)
      then have u: "unat (op_early p + 1) = Suc (unat (op_early p))"
        by (simp add: unat_word_ariths word_less_nat_alt)
      let ?p = "p\<lparr>op_early := op_early p + 1\<rparr>"
      obtain w d1 where w: "wrapper_connect utf dr (op_dsn p) (op_id p) (op_auth p) (wrapper_new hm) d = (False, w, d1)"
        using Suc.prems(4) [of d] by (metis prod_cases3 fst_conv)
      have a: "alloc_odbc_ptr utf dr True hm p d = (False, Some w, ?p, d1)"
        using Suc.prems(1) less w by (simp add: alloc_odbc_ptr_def max_db_pool_size_def not_le)
      have "\<exists>d'. drain utf dr hm n ?p d1 = (?p\<lparr>op_early := 16\<rparr>, d')"
        using Suc.prems less u by (intro Suc.IH) (simp_all add: word_le_nat_alt word_less_nat_alt)
      then show ?thesis using a by simp
    qed
  qed
  then obtain d' where "drain utf dr hm n p d = (p\<lparr>op_early := 16\<rparr>, d')" ..
  then show ?thesis by (intro exI [of _ d'] conjI full)
qed

definition dead_driver :: "demo_state driver" where
  "dead_driver = demo_driver\<lparr>dr_connect := (\<lambda>_ _ _ d. (sql_error, d))\<rparr>"

theorem pool_slots_lost_witness:
  "\<exists>p. fst (drain (\<lambda>s. Some (widen s)) dead_driver (\<lambda>_. False) 14 odbc_pool_new ([], [])) = p \<and> op_q p = [] \<and>
     fst (alloc_odbc_ptr (\<lambda>s. Some (widen s)) demo_driver True (\<lambda>_. False) p ([], [])) = False"
proof -
  have c: "\<not> fst (wrapper_connect (\<lambda>s. Some (widen s)) dead_driver (op_dsn odbc_pool_new) (op_id odbc_pool_new)
      (op_auth odbc_pool_new) (wrapper_new (\<lambda>_. False)) d)" for d
    by (simp add: wrapper_connect_def db_connect_def handler_connect_def odbc_pool_new_def c_string_def)
  have r: "op_q odbc_pool_new = []" "op_early odbc_pool_new \<le> 16" "16 \<le> unat (op_early odbc_pool_new) + 14"
    by (simp_all add: odbc_pool_new_def default_db_pool_size_def)
  from pool_slots_lost [OF r c, of "([], [])" "\<lambda>s. Some (widen s)" demo_driver True "\<lambda>_. False" "([], [])"]
  obtain d where
    "drain (\<lambda>s. Some (widen s)) dead_driver (\<lambda>_. False) 14 odbc_pool_new ([], []) = (odbc_pool_new\<lparr>op_early := 16\<rparr>, d)"
    "alloc_odbc_ptr (\<lambda>s. Some (widen s)) demo_driver True (\<lambda>_. False) (odbc_pool_new\<lparr>op_early := 16\<rparr>) ([], []) =
       (False, None, odbc_pool_new\<lparr>op_early := 16\<rparr>, ([], []))"
    by blast
  then show ?thesis using r(1) by simp
qed

end
