(* ===== verification/ObjectPool.thy ===== *)
theory ObjectPool
  imports Prelude
begin

text \<open>
  The object pools (\<^verbatim>\<open>source/impl/util/memory_pool\<close>): \<open>object_pool\<close> over boost's pool of the
  same name, \<open>bufferd_object_pool\<close>, which keeps a deque of objects made ahead, and their
  variants under a spin lock, whose operations are one step each.

  Objects are their addresses. Boost's pool is a parameter: its operations with the state
  they keep. \<open>construct\<close> gives no object when memory is short or the object's constructor
  throws.
\<close>

section \<open>Boost's pool\<close>

record 'b raw_pool =
  rp_construct :: "'b \<Rightarrow> nat option \<times> 'b"
  rp_destroy :: "nat \<Rightarrow> 'b \<Rightarrow> 'b"
  rp_is_from :: "nat \<Rightarrow> 'b \<Rightarrow> bool"

text \<open>What its documentation promises, over the objects \<open>live\<close> in it: a constructed object is new,
  and a live one is recognised and can be destroyed.\<close>

definition lawful :: "'b raw_pool \<Rightarrow> ('b \<Rightarrow> nat set) \<Rightarrow> bool" where
  "lawful rp live \<longleftrightarrow>
     (\<forall>r a r'. rp_construct rp r = (Some a, r') \<longrightarrow> a \<notin> live r \<and> live r' = insert a (live r)) \<and>
     (\<forall>r r'. rp_construct rp r = (None, r') \<longrightarrow> live r' = live r) \<and>
     (\<forall>r a. a \<in> live r \<longrightarrow> rp_is_from rp a r \<and> live (rp_destroy rp a r) = live r - {a})"

section \<open>object_pool\<close>

text \<open>The pointer; the result is whether it is not null.\<close>

definition op_construct :: "'b raw_pool \<Rightarrow> 'b \<Rightarrow> nat option \<times> 'b" where
  "op_construct rp r = rp_construct rp r"

definition op_destroy :: "'b raw_pool \<Rightarrow> nat option \<Rightarrow> 'b \<Rightarrow> 'b" where
  "op_destroy rp p r =
     (case p of None \<Rightarrow> r | Some a \<Rightarrow> if \<not> rp_is_from rp a r then r else rp_destroy rp a r)"

section \<open>bufferd_object_pool\<close>

definition pool_add_size :: nat where "pool_add_size = 1024"

definition pool_max_size :: nat where "pool_max_size = 0xffffffff"

record 'b buffered =
  bo_raw :: 'b
  bo_q :: "nat option list"

fun reserve_loop :: "'b raw_pool \<Rightarrow> nat \<Rightarrow> 'b buffered \<Rightarrow> 'b buffered" where
  "reserve_loop rp 0 s = s"
| "reserve_loop rp (Suc n) s =
     (let (p, r) = op_construct rp (bo_raw s)
      in reserve_loop rp n (if p = None then s\<lparr>bo_raw := r\<rparr> else s\<lparr>bo_raw := r, bo_q := bo_q s @ [p]\<rparr>))"

definition bo_reserve :: "'b raw_pool \<Rightarrow> nat \<Rightarrow> 'b buffered \<Rightarrow> 'b buffered" where
  "bo_reserve rp n s = reserve_loop rp (if n = 0 \<or> pool_max_size < n then pool_add_size else n) s"

definition bo_new :: "'b raw_pool \<Rightarrow> nat \<Rightarrow> 'b \<Rightarrow> 'b buffered" where
  "bo_new rp n r = bo_reserve rp n \<lparr>bo_raw = r, bo_q = []\<rparr>"

text \<open>The loop of \<open>construct\<close> on an empty deque, with the number of rounds left: the object of the
  last round is handed out at once.\<close>

fun fill_loop :: "'b raw_pool \<Rightarrow> nat \<Rightarrow> 'b buffered \<Rightarrow> nat option \<times> 'b buffered" where
  "fill_loop rp 0 s = (None, s)"
| "fill_loop rp (Suc n) s =
     (let (p, r) = op_construct rp (bo_raw s)
      in if p = None then fill_loop rp n (s\<lparr>bo_raw := r\<rparr>)
         else if n = 0 then (p, s\<lparr>bo_raw := r\<rparr>)
         else fill_loop rp n (s\<lparr>bo_raw := r, bo_q := bo_q s @ [p]\<rparr>))"

text \<open>\<open>None\<close>: the front of an empty deque is read.\<close>

definition bo_construct :: "'b raw_pool \<Rightarrow> 'b buffered \<Rightarrow> (nat option \<times> 'b buffered) option" where
  "bo_construct rp s =
     (let (p, s1) = (if bo_q s = [] then fill_loop rp pool_add_size s else (None, s))
      in if p \<noteq> None then Some (p, s1)
         else case bo_q s1 of [] \<Rightarrow> None | p # ps \<Rightarrow> Some (p, s1\<lparr>bo_q := ps\<rparr>))"

definition bo_destroy :: "'b raw_pool \<Rightarrow> nat option \<Rightarrow> 'b buffered \<Rightarrow> 'b buffered" where
  "bo_destroy rp p s =
     (if pool_max_size \<le> length (bo_q s) then s\<lparr>bo_raw := op_destroy rp p (bo_raw s)\<rparr>
      else s\<lparr>bo_q := bo_q s @ [p]\<rparr>)"

text \<open>The destructor calls \<open>destroy\<close> for every element of the deque while it walks over it; a
  \<open>destroy\<close> that appends to the deque invalidates the walk (\<open>None\<close>).\<close>

definition bo_destructor :: "'b raw_pool \<Rightarrow> 'b buffered \<Rightarrow> 'b buffered option" where
  "bo_destructor rp s =
     (if bo_q s \<noteq> [] \<and> length (bo_q s) < pool_max_size then None else Some (fold (bo_destroy rp) (bo_q s) s))"

section \<open>The variants with a lock\<close>

definition lock_op_construct :: "'b raw_pool \<Rightarrow> 'b \<Rightarrow> nat option \<times> 'b" where
  "lock_op_construct rp r = op_construct rp r"

definition lock_op_destroy :: "'b raw_pool \<Rightarrow> nat option \<Rightarrow> 'b \<Rightarrow> 'b" where
  "lock_op_destroy rp p r = op_destroy rp p r"

text \<open>The argument of \<open>reserve\<close> is not passed on. The constructor of the base class has already
  reserved its default size when the variant's own reserves again.\<close>

definition lock_bo_reserve :: "'b raw_pool \<Rightarrow> nat \<Rightarrow> 'b buffered \<Rightarrow> 'b buffered" where
  "lock_bo_reserve rp n s = bo_reserve rp pool_add_size s"

definition lock_bo_new :: "'b raw_pool \<Rightarrow> nat \<Rightarrow> 'b \<Rightarrow> 'b buffered" where
  "lock_bo_new rp n r = bo_reserve rp n (bo_new rp pool_add_size r)"

definition lock_bo_construct :: "'b raw_pool \<Rightarrow> 'b buffered \<Rightarrow> (nat option \<times> 'b buffered) option" where
  "lock_bo_construct rp s = bo_construct rp s"

definition lock_bo_destroy :: "'b raw_pool \<Rightarrow> nat option \<Rightarrow> 'b buffered \<Rightarrow> 'b buffered" where
  "lock_bo_destroy rp p s = bo_destroy rp p s"

section \<open>What a client relies on\<close>

text \<open>A client takes objects and gives back ones it holds, by their position in what it holds.\<close>

datatype pool_call = Take_object | Give_object nat

definition remove_nth :: "nat \<Rightarrow> 'a list \<Rightarrow> 'a list" where
  "remove_nth i xs = take i xs @ drop (Suc i) xs"

lemma remove_nth_distinct:
  assumes "distinct xs" "i < length xs"
  shows "distinct (remove_nth i xs) \<and> set (remove_nth i xs) = set xs - {xs ! i}"
proof -
  have "xs = take i xs @ xs ! i # drop (Suc i) xs" using assms(2) by (rule id_take_nth_drop)
  then have "distinct (take i xs @ xs ! i # drop (Suc i) xs)" "set xs = set (take i xs @ xs ! i # drop (Suc i) xs)"
    using assms(1) by simp_all
  then show ?thesis by (auto simp: remove_nth_def)
qed

fun client_calls ::
  "('s \<Rightarrow> (nat option \<times> 's) option) \<Rightarrow> (nat \<Rightarrow> 's \<Rightarrow> 's) \<Rightarrow> pool_call list \<Rightarrow> nat list \<Rightarrow> 's \<Rightarrow> (nat list \<times> 's) option" where
  "client_calls alloc free [] held s = Some (held, s)"
| "client_calls alloc free (Take_object # cs) held s =
     (case alloc s of
        None \<Rightarrow> None
      | Some (None, s') \<Rightarrow> client_calls alloc free cs held s'
      | Some (Some a, s') \<Rightarrow> client_calls alloc free cs (a # held) s')"
| "client_calls alloc free (Give_object i # cs) held s =
     (if i < length held then client_calls alloc free cs (remove_nth i held) (free (held ! i) s)
      else client_calls alloc free cs held s)"

locale object_source =
  fixes alloc :: "'s \<Rightarrow> (nat option \<times> 's) option"
    and free :: "nat \<Rightarrow> 's \<Rightarrow> 's"
    and inv :: "nat set \<Rightarrow> 's \<Rightarrow> bool"
  assumes alloc_fresh: "inv U s \<Longrightarrow> alloc s = Some (Some a, s') \<Longrightarrow> a \<notin> U \<and> inv (insert a U) s'"
    and alloc_refused: "inv U s \<Longrightarrow> alloc s = Some (None, s') \<Longrightarrow> inv U s'"
    and free_held: "inv U s \<Longrightarrow> a \<in> U \<Longrightarrow> inv (U - {a}) (free a s)"
begin

lemma held_distinct:
  "client_calls alloc free cs held s = Some (held', s') \<Longrightarrow> distinct held \<Longrightarrow> inv (set held) s \<Longrightarrow>
   distinct held' \<and> inv (set held') s'"
proof (induction cs arbitrary: held s)
  case (Cons c cs)
  show ?case
  proof (cases c)
    case Take_object
    then show ?thesis
      using Cons alloc_fresh [of "set held" s] alloc_refused [of "set held" s]
      by (auto split: option.splits)
  next
    case (Give_object i)
    then show ?thesis
      using Cons free_held [of "set held" s] remove_nth_distinct [of held i] by (auto split: if_splits)
  qed
qed simp

end

text \<open>A source that serves at once from what was given back.\<close>

locale buffered_source = object_source +
  fixes stocked :: "'s \<Rightarrow> bool"
  assumes stocked_serves: "inv U s \<Longrightarrow> stocked s \<Longrightarrow> \<exists>a s'. alloc s = Some (Some a, s')"
    and free_stocks: "inv U s \<Longrightarrow> a \<in> U \<Longrightarrow> stocked (free a s)"
begin

lemma served_after_free:
  assumes "inv U s" "a \<in> U"
  shows "\<exists>b s'. alloc (free a s) = Some (Some b, s') \<and> b \<notin> U - {a} \<and> inv (insert b (U - {a})) s'"
  using stocked_serves [OF free_held [OF assms] free_stocks [OF assms]] alloc_fresh [OF free_held [OF assms]]
  by blast

end

section \<open>The pools provide it\<close>

definition op_inv :: "'b raw_pool \<Rightarrow> ('b \<Rightarrow> nat set) \<Rightarrow> nat set \<Rightarrow> 'b \<Rightarrow> bool" where
  "op_inv rp live U r \<longleftrightarrow> lawful rp live \<and> U \<subseteq> live r"

text \<open>The deque holds live objects, each once and none that a client holds.\<close>

definition bo_inv :: "'b raw_pool \<Rightarrow> ('b \<Rightarrow> nat set) \<Rightarrow> nat set \<Rightarrow> 'b buffered \<Rightarrow> bool" where
  "bo_inv rp live U s \<longleftrightarrow> lawful rp live \<and> U \<subseteq> live (bo_raw s) \<and>
     (\<exists>as. bo_q s = map Some as \<and> distinct as \<and> set as \<inter> U = {} \<and> set as \<subseteq> live (bo_raw s))"

lemma lawful_construct:
  assumes "lawful rp live" "op_construct rp r = (p, r')"
  shows "live r' = live r \<union> set_option p \<and> (\<forall>a. p = Some a \<longrightarrow> a \<notin> live r)"
  using assms unfolding lawful_def op_construct_def by (cases p) auto

lemma lawful_destroy:
  "lawful rp live \<Longrightarrow> a \<in> live r \<Longrightarrow> live (op_destroy rp (Some a) r) = live r - {a}"
  by (simp add: lawful_def op_destroy_def)

interpretation plain_pool: object_source "\<lambda>r. Some (op_construct rp r)" "\<lambda>a. op_destroy rp (Some a)" "op_inv rp live"
  for rp :: "'b raw_pool" and live :: "'b \<Rightarrow> nat set"
proof
  fix U r
  show "Some (op_construct rp r) = Some (Some a, r') \<Longrightarrow> op_inv rp live U r \<Longrightarrow> a \<notin> U \<and> op_inv rp live (insert a U) r'" for a r'
    using lawful_construct [of rp live r] by (auto simp: op_inv_def)
  show "Some (op_construct rp r) = Some (None, r') \<Longrightarrow> op_inv rp live U r \<Longrightarrow> op_inv rp live U r'" for r'
    using lawful_construct [of rp live r] by (auto simp: op_inv_def)
  show "op_inv rp live U r \<Longrightarrow> a \<in> U \<Longrightarrow> op_inv rp live (U - {a}) (op_destroy rp (Some a) r)" for a
    using lawful_destroy [of rp live a r] by (auto simp: op_inv_def)
qed

lemma bo_inv_grow:
  assumes "bo_inv rp live U s" "op_construct rp (bo_raw s) = (p, r)"
  shows "bo_inv rp live U (s\<lparr>bo_raw := r\<rparr>)"
    "p = Some a \<Longrightarrow> a \<notin> U \<and> a \<notin> live (bo_raw s) \<and> bo_inv rp live (insert a U) (s\<lparr>bo_raw := r\<rparr>)"
    "p \<noteq> None \<Longrightarrow> bo_inv rp live U (s\<lparr>bo_raw := r, bo_q := bo_q s @ [p]\<rparr>)"
proof -
  obtain as where q: "bo_q s = map Some as" "distinct as" "set as \<inter> U = {}" "set as \<subseteq> live (bo_raw s)"
    and U: "lawful rp live" "U \<subseteq> live (bo_raw s)"
    using assms(1) by (auto simp: bo_inv_def)
  note c = lawful_construct [OF U(1) assms(2)]
  show "bo_inv rp live U (s\<lparr>bo_raw := r\<rparr>)" using q U c by (auto simp: bo_inv_def)
  show "p = Some a \<Longrightarrow> a \<notin> U \<and> a \<notin> live (bo_raw s) \<and> bo_inv rp live (insert a U) (s\<lparr>bo_raw := r\<rparr>)"
    using q U c by (auto simp: bo_inv_def)
  show "p \<noteq> None \<Longrightarrow> bo_inv rp live U (s\<lparr>bo_raw := r, bo_q := bo_q s @ [p]\<rparr>)"
    using q U c by (auto simp: bo_inv_def intro!: exI [of _ "as @ [the p]"])
qed

lemma reserve_loop_inv: "bo_inv rp live U s \<Longrightarrow> bo_inv rp live U (reserve_loop rp n s)"
proof (induction n arbitrary: s)
  case (Suc n)
  obtain p r where 1: "op_construct rp (bo_raw s) = (p, r)" by fastforce
  show ?case using Suc bo_inv_grow(1,3) [OF Suc(2) 1] by (simp add: 1)
qed simp

lemma fill_loop_inv:
  "bo_inv rp live U s \<Longrightarrow> fill_loop rp n s = (p, s') \<Longrightarrow>
   case p of None \<Rightarrow> bo_inv rp live U s' | Some a \<Rightarrow> a \<notin> U \<and> bo_inv rp live (insert a U) s'"
proof (induction n arbitrary: s)
  case (Suc n)
  obtain o1 r where 1: "op_construct rp (bo_raw s) = (o1, r)" by fastforce
  show ?case
    using Suc bo_inv_grow [OF Suc(2) 1] by (auto simp: 1 split: if_splits option.splits)
qed auto

lemma bo_construct_inv:
  assumes "bo_inv rp live U s" "bo_construct rp s = Some (p, s')"
  shows "case p of None \<Rightarrow> False | Some a \<Rightarrow> a \<notin> U \<and> bo_inv rp live (insert a U) s'"
proof -
  obtain p1 s1 where 1: "(if bo_q s = [] then fill_loop rp pool_add_size s else (None, s)) = (p1, s1)" by fastforce
  have i: "case p1 of None \<Rightarrow> bo_inv rp live U s1 | Some a \<Rightarrow> a \<notin> U \<and> bo_inv rp live (insert a U) s1"
    using fill_loop_inv [OF assms(1)] 1 assms(1) by (auto split: if_splits)
  show ?thesis
  proof (cases p1)
    case (Some a)
    then show ?thesis using assms(2) i unfolding bo_construct_def 1 by auto
  next
    case None
    with i obtain as where as: "bo_q s1 = map Some as" "distinct as" "set as \<inter> U = {}"
        "set as \<subseteq> live (bo_raw s1)" "lawful rp live" "U \<subseteq> live (bo_raw s1)"
      by (auto simp: bo_inv_def)
    show ?thesis
      using assms(2) None as unfolding bo_construct_def 1
      by (cases as) (auto simp: bo_inv_def)
  qed
qed

lemma bo_destroy_inv:
  assumes "bo_inv rp live U s" "a \<in> U"
  shows "bo_inv rp live (U - {a}) (bo_destroy rp (Some a) s)"
proof -
  obtain as where q: "bo_q s = map Some as" "distinct as" "set as \<inter> U = {}" "set as \<subseteq> live (bo_raw s)"
    and U: "lawful rp live" "U \<subseteq> live (bo_raw s)"
    using assms(1) by (auto simp: bo_inv_def)
  show ?thesis
  proof (cases "pool_max_size \<le> length (bo_q s)")
    case True
    have "a \<in> live (bo_raw s)" using U(2) assms(2) by blast
    then show ?thesis using q U assms(2) True lawful_destroy [OF U(1)]
      by (auto simp: bo_inv_def bo_destroy_def)
  next
    case False
    then show ?thesis
      using q U assms(2) by (auto simp: bo_inv_def bo_destroy_def intro!: exI [of _ "as @ [a]"])
  qed
qed

lemma bo_destroy_stocks: "bo_q (bo_destroy rp p s) \<noteq> []"
  by (auto simp: bo_destroy_def pool_max_size_def)

interpretation buffered_pool: buffered_source "bo_construct rp" "\<lambda>a. bo_destroy rp (Some a)" "bo_inv rp live" "\<lambda>s. bo_q s \<noteq> []"
  for rp :: "'b raw_pool" and live :: "'b \<Rightarrow> nat set"
proof
  fix U s
  show "bo_construct rp s = Some (Some a, s') \<Longrightarrow> bo_inv rp live U s \<Longrightarrow> a \<notin> U \<and> bo_inv rp live (insert a U) s'" for a s'
    using bo_construct_inv by fastforce
  show "bo_construct rp s = Some (None, s') \<Longrightarrow> bo_inv rp live U s \<Longrightarrow> bo_inv rp live U s'" for s'
    using bo_construct_inv by fastforce
  show "bo_inv rp live U s \<Longrightarrow> a \<in> U \<Longrightarrow> bo_inv rp live (U - {a}) (bo_destroy rp (Some a) s)" for a
    by (rule bo_destroy_inv)
  show "bo_inv rp live U s \<Longrightarrow> a \<in> U \<Longrightarrow> bo_q (bo_destroy rp (Some a) s) \<noteq> []" for a
    by (rule bo_destroy_stocks)
  show "bo_inv rp live U s \<Longrightarrow> bo_q s \<noteq> [] \<Longrightarrow> \<exists>a s'. bo_construct rp s = Some (Some a, s')"
    by (auto simp: bo_inv_def bo_construct_def split: list.split)
qed

section \<open>Properties\<close>

lemma bo_new_inv: "lawful rp live \<Longrightarrow> bo_inv rp live {} (bo_new rp n r)"
  unfolding bo_new_def bo_reserve_def by (rule reserve_loop_inv) (simp add: bo_inv_def)

lemma lock_bo_new_inv: "lawful rp live \<Longrightarrow> bo_inv rp live {} (lock_bo_new rp n r)"
  unfolding lock_bo_new_def bo_reserve_def by (rule reserve_loop_inv) (rule bo_new_inv)


text \<open>A pool that hands out the successor of the sum of its objects.\<close>

definition demo_raw :: "nat list raw_pool" where
  "demo_raw = \<lparr>rp_construct = (\<lambda>r. (Some (Suc (sum_list r)), Suc (sum_list r) # r)),
     rp_destroy = removeAll, rp_is_from = (\<lambda>a r. a \<in> set r)\<rparr>"

lemma demo_raw_lawful: "lawful demo_raw set"
proof -
  have "Suc (sum_list r) \<notin> set r" for r :: "nat list"
    using member_le_sum_list [of "Suc (sum_list r)" r] by auto
  then show ?thesis by (auto simp: lawful_def demo_raw_def)
qed


text \<open>Construction fails on a state when it does so the given number of times in a row.\<close>

fun exhausted :: "'b raw_pool \<Rightarrow> nat \<Rightarrow> 'b \<Rightarrow> bool" where
  "exhausted rp 0 r \<longleftrightarrow> True"
| "exhausted rp (Suc n) r \<longleftrightarrow> (\<exists>r'. op_construct rp r = (None, r') \<and> exhausted rp n r')"

lemma fill_loop_exhausted:
  "fst (fill_loop rp n s) = None \<and> bo_q (snd (fill_loop rp n s)) = [] \<longleftrightarrow> bo_q s = [] \<and> exhausted rp n (bo_raw s)"
proof (induction n arbitrary: s)
  case (Suc n)
  obtain p r where 1: "op_construct rp (bo_raw s) = (p, r)" by fastforce
  show ?case using Suc [of "s\<lparr>bo_raw := r\<rparr>"] Suc [of "s\<lparr>bo_raw := r, bo_q := bo_q s @ [p]\<rparr>"]
    by (auto simp: 1)
qed auto

text \<open>How the pool fails: taking an object reads the front of an empty deque exactly when no
  object is kept and all 1024 constructions fail, where it should refuse; destroying the null
  pointer keeps it, so that a later call is refused although memory may be available;
  destroying an object twice lets two calls hand it out; and the destructor of a pool that
  keeps an object appends to the deque it walks over.\<close>

lemma pool_failures:
  shows "(bo_construct rp s = None \<longleftrightarrow> bo_q s = [] \<and> exhausted rp 1024 (bo_raw s)) \<and>
    (bo_q s = [] \<longrightarrow> bo_construct rp (bo_destroy rp None s) = Some (None, s) \<and>
       bo_construct rp (bo_destroy rp p (bo_destroy rp p s)) = Some (p, s\<lparr>bo_q := [p]\<rparr>)) \<and>
    (bo_destructor rp s = None \<longleftrightarrow> bo_q s \<noteq> [] \<and> length (bo_q s) < pool_max_size)"
proof (intro conjI impI)
  obtain p1 s1 where 1: "fill_loop rp pool_add_size s = (p1, s1)" by fastforce
  have "p1 = None \<and> bo_q s1 = [] \<longleftrightarrow> bo_q s = [] \<and> exhausted rp 1024 (bo_raw s)"
    using fill_loop_exhausted [of rp pool_add_size s] unfolding 1 by (simp add: pool_add_size_def)
  then show "bo_construct rp s = None \<longleftrightarrow> bo_q s = [] \<and> exhausted rp 1024 (bo_raw s)"
    by (cases "bo_q s") (auto simp: bo_construct_def 1 split: list.splits)
qed (cases s; simp add: bo_construct_def bo_destroy_def bo_destructor_def pool_max_size_def)+

theorem pool_failures_witness:
  "bo_destructor demo_raw (bo_new demo_raw 1 []) = None"
  using pool_failures [of demo_raw "bo_new demo_raw 1 []" None]
  by (simp add: bo_new_def bo_reserve_def op_construct_def demo_raw_def pool_max_size_def)

end
