(* ===== verification/SingletonPool.thy ===== *)
theory SingletonPool
  imports Prelude
begin

text \<open>
  The allocator base class \<open>singleton_pool_allocator\<close>
  (\<^verbatim>\<open>source/impl/util/memory_pool/singleton_pool_allocator.hpp\<close>), whose \<open>operator new\<close> and \<open>delete\<close>
  the packet classes inherit. Boost has one pool for every combination of type, size, allocator
  and mutex, so the pools of one class are told apart by the mutex. A pool is the set of the
  addresses it has handed out and the set of those it keeps for reuse; the address \<open>malloc\<close>
  answers with, or null, is an argument, and so are the addresses in blocks none of whose chunks
  is handed out.
\<close>

datatype lock_kind = Default_mutex | Null_mutex

record singleton_pools =
  sp_live :: "lock_kind \<Rightarrow> nat set"
  sp_kept :: "lock_kind \<Rightarrow> nat set"
  sp_count :: u64

definition sp_new :: singleton_pools where
  "sp_new = \<lparr>sp_live = (\<lambda>_. {}), sp_kept = (\<lambda>_. {}), sp_count = 0\<rparr>"

text \<open>\<open>operator new\<close> counts before it asks for memory and hands on a null pointer.\<close>

definition operator_new :: "lock_kind \<Rightarrow> nat option \<Rightarrow> singleton_pools \<Rightarrow> nat option \<times> singleton_pools" where
  "operator_new lk malloc s =
     (let s1 = s\<lparr>sp_count := sp_count s + 1\<rparr>
      in case malloc of
           None \<Rightarrow> (None, s1)
         | Some a \<Rightarrow> 
             (Some a, s1\<lparr>sp_live := (sp_live s1)(lk := insert a (sp_live s1 lk)),
                sp_kept := (sp_kept s1)(lk := sp_kept s1 lk - {a})\<rparr>))"

definition operator_delete :: "lock_kind \<Rightarrow> nat \<Rightarrow> singleton_pools \<Rightarrow> singleton_pools" where
  "operator_delete lk a s =
     s\<lparr>sp_count := sp_count s - 1, sp_live := (sp_live s)(lk := sp_live s lk - {a}),
       sp_kept := (sp_kept s)(lk := insert a (sp_kept s lk))\<rparr>"

text \<open>Both name the pool without the class's mutex.\<close>

definition release_memory :: "lock_kind \<Rightarrow> nat set \<Rightarrow> singleton_pools \<Rightarrow> singleton_pools" where
  "release_memory lk unused s =
     s\<lparr>sp_kept := (sp_kept s)(Default_mutex := sp_kept s Default_mutex - unused)\<rparr>"

definition purge_memory :: "lock_kind \<Rightarrow> singleton_pools \<Rightarrow> singleton_pools" where
  "purge_memory lk s = s\<lparr>sp_live := (sp_live s)(Default_mutex := {}),
     sp_kept := (sp_kept s)(Default_mutex := {})\<rparr>"

definition operator_new_array :: "nat \<Rightarrow> nat option" where
  "operator_new_array n = None"

definition operator_delete_array :: "nat \<Rightarrow> singleton_pools \<Rightarrow> singleton_pools" where
  "operator_delete_array a s = s"

text \<open>While \<open>malloc\<close> answers with fresh addresses and only live ones are deleted, the counter is the
  number of live objects (modulo its width).\<close>

inductive sp_reachable :: "lock_kind \<Rightarrow> singleton_pools \<Rightarrow> bool" for lk where
  sp_start: "sp_reachable lk sp_new"
| sp_alloc: "sp_reachable lk s \<Longrightarrow> a \<notin> sp_live s lk \<Longrightarrow>
    sp_reachable lk (snd (operator_new lk (Some a) s))"
| sp_free: "sp_reachable lk s \<Longrightarrow> a \<in> sp_live s lk \<Longrightarrow> sp_reachable lk (operator_delete lk a s)"

lemma sp_count_live:
  "sp_reachable lk s \<Longrightarrow> finite (sp_live s lk) \<and> sp_count s = word_of_nat (card (sp_live s lk))"
proof (induction rule: sp_reachable.induct)
  case sp_start
  then show ?case by (simp add: sp_new_def)
next
  case (sp_alloc s a)
  then show ?case by (simp add: operator_new_def Let_def add.commute)
next
  case (sp_free s a)
  then have c: "card (sp_live s lk) = Suc (card (sp_live s lk - {a}))"
    by (metis card_Suc_Diff1)
  have "sp_count s - 1 = word_of_nat (card (sp_live s lk - {a}))"
    using sp_free by (simp only: c of_nat_Suc) simp
  with sp_free show ?case by (simp add: operator_delete_def)
qed

text \<open>A \<open>malloc\<close> that fails is counted all the same, and the caller gets the null pointer.\<close>

lemma failed_new_counted:
  "operator_new lk None s = (None, s\<lparr>sp_count := sp_count s + 1\<rparr>)"
  by (simp add: operator_new_def Let_def)

text \<open>A class with the null mutex cannot give its memory back.\<close>

lemma release_misses_null_mutex:
  "sp_kept (release_memory Null_mutex unused s) Null_mutex = sp_kept s Null_mutex"
  "sp_kept (purge_memory Null_mutex s) Null_mutex = sp_kept s Null_mutex"
  by (simp_all add: release_memory_def purge_memory_def)

end
