(* ===== verification/SpinLock.thy ===== *)
theory SpinLock
  imports Prelude
begin

text \<open>
  The spin lock and its guard (\<open>spin_lock\<close>, \<open>spin_lock_guard\<close> in
  \<^verbatim>\<open>source/impl/util/{spin_lock.h,util.cpp}\<close>), under which the timers, the pools and the stores
  run their operations. Threads interleave at single actions: a round of the loop of \<open>lock\<close>,
  an action of the section, an \<open>unlock\<close>. What is shown is what the rest of the development
  uses: a section under a guard is one step.

  \<open>try_lock\<close> of the base class is an atomic test-and-set. The message logged after a
  millisecond of waiting is left out.
\<close>

section \<open>Threads\<close>

text \<open>What a section does between the guard's constructor and its destructor; the guard offers
  \<open>unlock\<close> as well.\<close>

datatype 's action = Act "'s \<Rightarrow> 's" | Guard_unlock

text \<open>A thread is outside, in the loop of \<open>lock\<close> with the number of failed rounds, or inside with
  its section and what is left of it.\<close>

datatype 's thread = Outside | Spinning "'s action list" nat | Inside "'s action list" "'s action list"

text \<open>\<open>sections\<close> are the completed sections, in order; no operation reads them.\<close>

record 's spin =
  locked :: bool
  shared :: 's
  threads :: "nat \<Rightarrow> 's thread"
  sections :: "'s action list list"

definition spin_new :: "'s \<Rightarrow> 's spin" where
  "spin_new x = \<lparr>locked = False, shared = x, threads = (\<lambda>_. Outside), sections = []\<rparr>"

definition try_lock :: "'s spin \<Rightarrow> bool \<times> 's spin" where
  "try_lock s = (\<not> locked s, s\<lparr>locked := True\<rparr>)"

text \<open>The guard's constructor begins the loop; one round of it.\<close>

definition guard_begin :: "nat \<Rightarrow> 's action list \<Rightarrow> 's spin \<Rightarrow> 's spin" where
  "guard_begin t body s = s\<lparr>threads := (threads s)(t := Spinning body 0)\<rparr>"

definition lock_round :: "nat \<Rightarrow> 's action list \<Rightarrow> nat \<Rightarrow> 's spin \<Rightarrow> 's spin" where
  "lock_round t body k s =
     (let (ok, s1) = try_lock s
      in s1\<lparr>threads := (threads s1)(t := if ok then Inside body body else Spinning body (k + 1))\<rparr>)"

definition guard_unlock :: "'s spin \<Rightarrow> 's spin" where
  "guard_unlock s = s\<lparr>locked := False\<rparr>"

definition guard_end :: "nat \<Rightarrow> 's action list \<Rightarrow> 's spin \<Rightarrow> 's spin" where
  "guard_end t body s =
     (guard_unlock s)\<lparr>threads := (threads s)(t := Outside), sections := sections s @ [body]\<rparr>"

text \<open>\<open>early\<close> says whether a section may call the guard's \<open>unlock\<close> itself.\<close>

inductive spin_step :: "bool \<Rightarrow> 's spin \<Rightarrow> 's spin \<Rightarrow> bool" for early where
  sp_begin: "threads s t = Outside \<Longrightarrow> early \<or> Guard_unlock \<notin> set body \<Longrightarrow>
     spin_step early s (guard_begin t body s)"
| sp_round: "threads s t = Spinning body k \<Longrightarrow> spin_step early s (lock_round t body k s)"
| sp_act: "threads s t = Inside body (Act f # rest) \<Longrightarrow>
     spin_step early s (s\<lparr>shared := f (shared s), threads := (threads s)(t := Inside body rest)\<rparr>)"
| sp_unlock: "threads s t = Inside body (Guard_unlock # rest) \<Longrightarrow>
     spin_step early s ((guard_unlock s)\<lparr>threads := (threads s)(t := Inside body rest)\<rparr>)"
| sp_end: "threads s t = Inside body [] \<Longrightarrow> spin_step early s (guard_end t body s)"

inductive spin_reachable :: "bool \<Rightarrow> 's \<Rightarrow> 's spin \<Rightarrow> bool" for early x where
  spin_init: "spin_reachable early x (spin_new x)"
| spin_next: "spin_reachable early x s \<Longrightarrow> spin_step early s s' \<Longrightarrow> spin_reachable early x s'"

section \<open>Sections as steps\<close>

fun run_action :: "'s action \<Rightarrow> 's \<Rightarrow> 's" where
  "run_action (Act f) x = f x"
| "run_action Guard_unlock x = x"

definition run_section :: "'s action list \<Rightarrow> 's \<Rightarrow> 's" where
  "run_section = fold run_action"

lemma run_section_append [simp]: "run_section (as @ bs) x = run_section bs (run_section as x)"
  by (simp add: run_section_def)

lemma run_section_simps [simp]: "run_section [] x = x" "run_section [a] x = run_action a x"
  by (simp_all add: run_section_def)

definition is_inside :: "'s thread \<Rightarrow> bool" where
  "is_inside p \<longleftrightarrow> (\<exists>body rest. p = Inside body rest)"

lemma is_inside_simps [simp]: "\<not> is_inside Outside" "\<not> is_inside (Spinning body k)" "is_inside (Inside body rest)"
  by (simp_all add: is_inside_def)

text \<open>The sections of all threads keep to the guard; at most one thread is inside, exactly when
  the lock is taken; and the shared state is that of the completed sections run one after the
  other, followed by what the thread inside has done so far.\<close>

fun thread_ok :: "'s thread \<Rightarrow> bool" where
  "thread_ok Outside \<longleftrightarrow> True"
| "thread_ok (Spinning body k) \<longleftrightarrow> Guard_unlock \<notin> set body"
| "thread_ok (Inside body rest) \<longleftrightarrow> Guard_unlock \<notin> set body \<and> (\<exists>past. body = past @ rest)"

definition serial :: "'s \<Rightarrow> 's spin \<Rightarrow> 's" where
  "serial x s = run_section (concat (sections s)) x"

definition spin_inv :: "'s \<Rightarrow> 's spin \<Rightarrow> bool" where
  "spin_inv x s \<longleftrightarrow> (\<forall>t. thread_ok (threads s t)) \<and>
     (\<forall>t u. is_inside (threads s t) \<longrightarrow> is_inside (threads s u) \<longrightarrow> t = u) \<and>
     (locked s \<longleftrightarrow> (\<exists>t. is_inside (threads s t))) \<and>
     (\<not> locked s \<longrightarrow> shared s = serial x s) \<and>
     (\<forall>t past rest. threads s t = Inside (past @ rest) rest \<longrightarrow> shared s = run_section past (serial x s))"

lemma spin_inv_inside:
  assumes "spin_inv x s" "threads s t = Inside body rest"
  obtains past where "body = past @ rest" "Guard_unlock \<notin> set body" "locked s"
    "shared s = run_section past (serial x s)" "\<And>u. u \<noteq> t \<Longrightarrow> \<not> is_inside (threads s u)"
proof -
  have "thread_ok (Inside body rest)" using assms by (metis spin_inv_def)
  then obtain past where past: "body = past @ rest" "Guard_unlock \<notin> set body" by auto
  have in_t: "is_inside (threads s t)" using assms(2) by simp
  have "locked s" using assms(1) in_t unfolding spin_inv_def by blast
  moreover have "shared s = run_section past (serial x s)"
    using assms past(1) unfolding spin_inv_def by blast
  moreover have "\<not> is_inside (threads s u)" if "u \<noteq> t" for u
    using assms(1) in_t that unfolding spin_inv_def by blast
  ultimately show ?thesis using past that by blast
qed

text \<open>A step of a thread that is not inside and stays so.\<close>

lemma spin_inv_outside:
  assumes "spin_inv x s" "\<not> is_inside (threads s t)" "\<not> is_inside p" "thread_ok p"
  shows "spin_inv x (s\<lparr>threads := (threads s)(t := p)\<rparr>)"
proof -
  let ?s = "s\<lparr>threads := (threads s)(t := p)\<rparr>"
  have same: "is_inside (threads ?s u) \<longleftrightarrow> is_inside (threads s u)"
    "threads ?s u = Inside body rest \<longleftrightarrow> threads s u = Inside body rest" for u body rest
    using assms(2,3) by (auto simp: is_inside_def)
  have "thread_ok (threads ?s u)" for u using assms(1,4) by (simp add: spin_inv_def)
  then show ?thesis
    using assms(1) unfolding spin_inv_def same serial_def by simp
qed

lemma spin_inv_step:
  assumes "spin_step False s s'" "spin_inv x s"
  shows "spin_inv x s'"
  using assms(1)
proof cases
  case (sp_begin t body)
  then show ?thesis
    using spin_inv_outside [OF assms(2), of t "Spinning body 0"] by (simp add: guard_begin_def)
next
  case (sp_round t body k)
  have ok: "thread_ok (threads s t)" using assms(2) by (simp add: spin_inv_def)
  show ?thesis
  proof (cases "locked s")
    case True
    then have "s' = s\<lparr>threads := (threads s)(t := Spinning body (k + 1))\<rparr>"
      using sp_round(1) by (cases s) (simp add: lock_round_def try_lock_def)
    then show ?thesis
      using sp_round(2) ok spin_inv_outside [OF assms(2), of t "Spinning body (k + 1)"] by simp
  next
    case False
    then show ?thesis
      using sp_round ok assms(2) by (auto simp: spin_inv_def lock_round_def try_lock_def serial_def) blast
  qed
next
  case (sp_act t body f rest)
  from spin_inv_inside [OF assms(2) sp_act(2)] obtain past where
    p: "body = past @ Act f # rest" "Guard_unlock \<notin> set body" "locked s"
      "shared s = run_section past (serial x s)" "\<And>u. u \<noteq> t \<Longrightarrow> \<not> is_inside (threads s u)"
    by metis
  have "shared s' = run_section (past @ [Act f]) (serial x s')"
    using p(4) sp_act(1) by (simp add: serial_def)
  then show ?thesis
    using p assms(2) sp_act(1) by (auto simp: spin_inv_def is_inside_def serial_def)
next
  case (sp_unlock t body rest)
  from spin_inv_inside [OF assms(2) sp_unlock(2)] show ?thesis by (metis in_set_conv_decomp)
next
  case (sp_end t body)
  from spin_inv_inside [OF assms(2) sp_end(2)] have
    "Guard_unlock \<notin> set body" "shared s = run_section body (serial x s)" "\<And>u. u \<noteq> t \<Longrightarrow> \<not> is_inside (threads s u)"
    by (metis append_Nil2)+
  then show ?thesis
    using assms(2) sp_end(1)
    by (auto simp: spin_inv_def guard_end_def guard_unlock_def serial_def is_inside_def)
qed

lemma spin_reachable_inv: "spin_reachable False x s \<Longrightarrow> spin_inv x s"
proof (induction rule: spin_reachable.induct)
  case spin_init
  then show ?case by (simp add: spin_inv_def spin_new_def serial_def)
next
  case (spin_next s s')
  then show ?case by (blast intro: spin_inv_step)
qed

text \<open>C30. A section under a guard is one step: when no section calls the guard's \<open>unlock\<close>, then in
  every interleaving at most one thread is inside, and the shared state is the one obtained by
  running the completed sections one after the other, in the order they were completed,
  followed by the actions the thread inside has done; with nobody inside it is exactly that
  of the completed sections.\<close>

theorem guarded_sections_serial:
  assumes "spin_reachable False x s"
  shows "(\<forall>t u. is_inside (threads s t) \<and> is_inside (threads s u) \<longrightarrow> t = u) \<and>
    (if locked s
     then \<exists>t past rest. threads s t = Inside (past @ rest) rest \<and>
       shared s = run_section past (fold run_section (sections s) x)
     else (\<forall>t. \<not> is_inside (threads s t)) \<and> shared s = fold run_section (sections s) x)"
proof -
  have inv: "spin_inv x s" by (rule spin_reachable_inv [OF assms])
  have "run_section (concat ss) y = fold run_section ss y" for ss :: "'a action list list" and y
    by (induction ss arbitrary: y) simp_all
  then have eq: "serial x s = fold run_section (sections s) x" by (simp add: serial_def)
  show ?thesis
  proof (cases "locked s")
    case True
    then obtain t body rest where t: "threads s t = Inside body rest"
      using inv unfolding spin_inv_def is_inside_def by blast
    from spin_inv_inside [OF inv t] obtain past where
      past: "body = past @ rest" "shared s = run_section past (serial x s)" by metis
    have "\<forall>t u. is_inside (threads s t) \<and> is_inside (threads s u) \<longrightarrow> t = u"
      using inv unfolding spin_inv_def by blast
    moreover have "threads s t = Inside (past @ rest) rest \<and> shared s = run_section past (fold run_section (sections s) x)"
      using t past eq by simp
    ultimately show ?thesis using True by auto
  next
    case False
    with inv eq show ?thesis unfolding spin_inv_def by auto
  qed
qed

text \<open>Two threads: one has completed a section, the other is half through its own.\<close>

definition demo_spin :: "int spin" where
  "demo_spin = \<lparr>locked = True, shared = 3, threads = (\<lambda>_. Outside)(1 := Inside [Act (\<lambda>n. n + 1), Act (\<lambda>n. n * 2)] [Act (\<lambda>n. n * 2)]),
     sections = [[Act (\<lambda>n. n + 2)]]\<rparr>"

lemma demo_spin_reachable: "spin_reachable False 0 demo_spin"
proof -
  let ?two = "[Act (\<lambda>n. n + 2)] :: int action list" and ?one = "[Act (\<lambda>n. n + 1), Act (\<lambda>n. n * 2)] :: int action list"
  note step = spin_next [OF _ sp_begin] spin_next [OF _ sp_round] spin_next [OF _ sp_act] spin_next [OF _ sp_end]
  have "spin_reachable False 0 (guard_begin 0 ?two (spin_new 0))"
    by (rule step(1) [OF spin_init]) (simp_all add: spin_new_def)
  then have "spin_reachable False 0 (lock_round 0 ?two 0 (guard_begin 0 ?two (spin_new 0)))"
    by (rule step(2)) (simp add: guard_begin_def spin_new_def)
  then have "spin_reachable False 0 \<lparr>locked = True, shared = 0, threads = (\<lambda>_. Outside)(0 := Inside ?two ?two), sections = []\<rparr>"
    by (simp add: lock_round_def try_lock_def guard_begin_def spin_new_def)
  from step(3) [OF this, of 0 ?two "\<lambda>n. n + 2" "[]"]
  have "spin_reachable False 0 \<lparr>locked = True, shared = 2, threads = (\<lambda>_. Outside)(0 := Inside ?two []), sections = []\<rparr>"
    by simp
  from step(4) [OF this, of 0 ?two]
  have "spin_reachable False 0 \<lparr>locked = False, shared = 2, threads = \<lambda>_. Outside, sections = [?two]\<rparr>"
    by (simp add: guard_end_def guard_unlock_def fun_upd_idem)
  from step(1) [OF this, of 1 ?one]
  have "spin_reachable False 0 \<lparr>locked = False, shared = 2, threads = (\<lambda>_. Outside)(1 := Spinning ?one 0), sections = [?two]\<rparr>"
    by (simp add: guard_begin_def)
  from step(2) [OF this, of 1 ?one 0]
  have "spin_reachable False 0 \<lparr>locked = True, shared = 2, threads = (\<lambda>_. Outside)(1 := Inside ?one ?one), sections = [?two]\<rparr>"
    by (simp add: lock_round_def try_lock_def)
  from step(3) [OF this, of 1 ?one "\<lambda>n. n + 1" "[Act (\<lambda>n. n * 2)]"]
  show ?thesis by (simp add: demo_spin_def)
qed

theorem guarded_sections_serial_witness:
  "\<exists>t past rest. threads demo_spin t = Inside (past @ rest) rest \<and>
     shared demo_spin = run_section past (fold run_section (sections demo_spin) 0)"
proof -
  have "locked demo_spin" by (simp add: demo_spin_def)
  with guarded_sections_serial [OF demo_spin_reachable] show ?thesis by (simp only: if_True)
qed

text \<open>The guard's destructor unlocks whether or not \<open>unlock\<close> was called before: a section that calls
  it lets another thread in, and then, at its end, a third one while the second is still
  inside. No code of the program does.\<close>

lemma early_unlock_admits_two:
  "\<exists>s. spin_reachable True (0 :: nat) s \<and> is_inside (threads s 1) \<and> is_inside (threads s 2)"
proof -
  let ?b = "[Guard_unlock] :: nat action list"
  note step = spin_next [OF _ sp_begin] spin_next [OF _ sp_round] spin_next [OF _ sp_unlock] spin_next [OF _ sp_end]
  let ?s = "\<lambda>l p q r n. \<lparr>locked = l, shared = 0, threads = (\<lambda>_. Outside)(0 := p, 1 := q, 2 := r), sections = replicate n ?b\<rparr>"
  have upd: "(\<lambda>_ :: nat. Outside)(0 := p, 1 := q, 2 := r, 0 := p') = (\<lambda>_. Outside)(0 := p', 1 := q, 2 := r)"
    "(\<lambda>_ :: nat. Outside)(0 := p, 1 := q, 2 := r, 1 := p') = (\<lambda>_. Outside)(0 := p, 1 := p', 2 := r)"
    for p q r p' :: "nat thread"
    by auto
  have "spin_reachable True 0 (?s False Outside Outside Outside 0)"
    using spin_init [of True 0] by (simp add: spin_new_def fun_upd_idem)
  from step(1) [OF this, of 0 ?b] have "spin_reachable True 0 (?s False (Spinning ?b 0) Outside Outside 0)"
    by (simp add: guard_begin_def upd [unfolded One_nat_def])
  from step(1) [OF this, of 1 "[]"] have "spin_reachable True 0 (?s False (Spinning ?b 0) (Spinning [] 0) Outside 0)"
    by (simp add: guard_begin_def upd [unfolded One_nat_def])
  from step(1) [OF this, of 2 "[]"] have "spin_reachable True 0 (?s False (Spinning ?b 0) (Spinning [] 0) (Spinning [] 0) 0)"
    by (simp add: guard_begin_def upd [unfolded One_nat_def])
  from step(2) [OF this, of 0 ?b 0] have "spin_reachable True 0 (?s True (Inside ?b ?b) (Spinning [] 0) (Spinning [] 0) 0)"
    by (simp add: lock_round_def try_lock_def upd [unfolded One_nat_def])
  from step(3) [OF this, of 0 ?b "[]"] have "spin_reachable True 0 (?s False (Inside ?b []) (Spinning [] 0) (Spinning [] 0) 0)"
    by (simp add: guard_unlock_def upd [unfolded One_nat_def])
  from step(2) [OF this, of 1 "[]" 0] have "spin_reachable True 0 (?s True (Inside ?b []) (Inside [] []) (Spinning [] 0) 0)"
    by (simp add: lock_round_def try_lock_def upd [unfolded One_nat_def])
  from step(4) [OF this, of 0 ?b] have "spin_reachable True 0 (?s False Outside (Inside [] []) (Spinning [] 0) 1)"
    by (simp add: guard_end_def guard_unlock_def upd [unfolded One_nat_def])
  from step(2) [OF this, of 2 "[]" 0] have "spin_reachable True 0 (?s True Outside (Inside [] []) (Inside [] []) 1)"
    by (simp add: lock_round_def try_lock_def upd [unfolded One_nat_def])
  then show ?thesis by (intro exI conjI) auto
qed

end
