(* ===== verification/QuickLZ.thy ===== *)
theory QuickLZ
  imports Prelude "HOL-Library.Monad_Syntax"
begin

text \<open>
  The compressor \<^verbatim>\<open>util/quicklz/quicklz.cpp\<close> as the project builds it: level 1, no streaming
  buffer, not memory safe, on 64-bit x86 (\<open>X86X64\<close>, \<open>QLZ_PTR_64\<close>). A memory area is a list of
  bytes and a pointer an offset in it; an access outside the area is \<open>None\<close>. Pointers that the
  code lets fall below their area (\<open>last_matchstart\<close>, \<open>last_hashed\<close>) are integers. The hash tables
  are functions of the hash, which the code masks to their 4096 entries.
\<close>

unbundle bit_operations_syntax

section \<open>Memory\<close>

definition byte_at :: "u8 list \<Rightarrow> nat \<Rightarrow> u8 option" where
  "byte_at m a = (if a < length m then Some (m ! a) else None)"

definition put_byte :: "u8 list \<Rightarrow> nat \<Rightarrow> u8 \<Rightarrow> u8 list option" where
  "put_byte m a b = (if a < length m then Some (m[a := b]) else None)"

definition get_bytes :: "u8 list \<Rightarrow> nat \<Rightarrow> nat \<Rightarrow> u8 list option" where
  "get_bytes m a n = (if a + n \<le> length m then Some (take n (drop a m)) else None)"

definition put_bytes :: "u8 list \<Rightarrow> nat \<Rightarrow> u8 list \<Rightarrow> u8 list option" where
  "put_bytes m a bs =
     (if a + length bs \<le> length m then Some (take a m @ bs @ drop (a + length bs) m) else None)"

text \<open>On x86 both access a whole 32-bit word for three and for four bytes.\<close>

definition w32 :: "u8 list \<Rightarrow> nat \<Rightarrow> u32" where
  "w32 m a = word_of_nat (dec_le (take 4 (drop a m)))"

definition fast_read :: "u8 list \<Rightarrow> nat \<Rightarrow> nat \<Rightarrow> u32 option" where
  "fast_read m src bytes =
     (if 1 \<le> bytes \<and> bytes \<le> 4
      then if src + 4 \<le> length m then Some (w32 m src) else None
      else Some 0)"

definition fast_write :: "u32 \<Rightarrow> u8 list \<Rightarrow> nat \<Rightarrow> nat \<Rightarrow> u8 list option" where
  "fast_write f m dst bytes =
     (if bytes = 4 \<or> bytes = 3 then put_bytes m dst (enc_le 4 (unat f))
      else if bytes = 2 then put_bytes m dst (enc_le 2 (unat f))
      else if bytes = 1 then put_bytes m dst (enc_le 1 (unat f))
      else Some m)"

section \<open>Constants, tables and hashes\<close>

definition MINOFFSET :: int where "MINOFFSET = 2"
definition UNCONDITIONAL_MATCHLEN :: int where "UNCONDITIONAL_MATCHLEN = 6"
definition UNCOMPRESSED_END :: int where "UNCOMPRESSED_END = 4"
definition CWORD_LEN :: nat where "CWORD_LEN = 4"

lemmas qlz_consts = MINOFFSET_def UNCONDITIONAL_MATCHLEN_def UNCOMPRESSED_END_def CWORD_LEN_def

record qlz_hash_compress =
  hc_cache :: u32
  hc_offset :: u32

record qlz_state_compress =
  qc_stream_counter :: u64
  qc_hash :: "u32 \<Rightarrow> qlz_hash_compress"
  qc_hash_counter :: "u32 \<Rightarrow> u8"

text \<open>An entry of the decompressor's table points into the destination, or nowhere.\<close>

record qlz_state_decompress =
  qd_hash :: "u32 \<Rightarrow> nat option"
  qd_hash_counter :: "u32 \<Rightarrow> u8"
  qd_stream_counter :: u64

definition qlz_get_setting :: "nat \<Rightarrow> nat \<Rightarrow> int \<Rightarrow> int" where
  "qlz_get_setting sizeof_compress sizeof_decompress setting =
     (if setting = 0 then 1 else if setting = 1 then int sizeof_compress
      else if setting = 2 then int sizeof_decompress else if setting = 3 then 0
      else if setting = 6 then 0 else if setting = 7 then 1 else if setting = 8 then 5
      else if setting = 9 then 0 else -1)"

definition reset_table_compress :: "qlz_state_compress \<Rightarrow> qlz_state_compress" where
  "reset_table_compress st = st\<lparr>qc_hash := \<lambda>h. (qc_hash st h)\<lparr>hc_offset := 0\<rparr>\<rparr>"

definition reset_table_decompress :: "qlz_state_decompress \<Rightarrow> qlz_state_decompress" where
  "reset_table_decompress st = st"

definition hash_func :: "u32 \<Rightarrow> u32" where
  "hash_func i = (drop_bit 12 i XOR i) AND 4095"

definition hashat :: "u8 list \<Rightarrow> nat \<Rightarrow> u32 option" where
  "hashat m src = do { fetch \<leftarrow> fast_read m src 3; Some (hash_func fetch) }"

text \<open>Are the \<open>n\<close> bytes after \<open>src\<close> the byte at \<open>src\<close>?\<close>

fun same :: "u8 list \<Rightarrow> nat \<Rightarrow> nat \<Rightarrow> bool option" where
  "same m src 0 = Some True"
| "same m src (Suc n) = do {
     a \<leftarrow> byte_at m (src + Suc n);
     b \<leftarrow> byte_at m src;
     if a = b then same m src n else Some False }"

section \<open>The sizes in the header\<close>

definition qlz_size_n :: "u8 list \<Rightarrow> nat option" where
  "qlz_size_n m = do { b \<leftarrow> byte_at m 0; Some (if b AND 2 = 2 then 4 else 1) }"

definition qlz_size_decompressed :: "u8 list \<Rightarrow> nat option" where
  "qlz_size_decompressed m = do {
     n \<leftarrow> qlz_size_n m;
     r \<leftarrow> fast_read m (1 + n) n;
     Some (unat (r AND drop_bit ((4 - n) * 8) 0xffffffff)) }"

definition qlz_size_compressed :: "u8 list \<Rightarrow> nat option" where
  "qlz_size_compressed m = do {
     n \<leftarrow> qlz_size_n m;
     r \<leftarrow> fast_read m 1 n;
     Some (unat (r AND drop_bit ((4 - n) * 8) 0xffffffff)) }"

definition qlz_size_header :: "u8 list \<Rightarrow> nat option" where
  "qlz_size_header m = do { n \<leftarrow> qlz_size_n m; Some (2 * n + 1) }"

section \<open>Compression\<close>

text \<open>The local variables of \<open>qlz_compress_core\<close>, the destination and the state; \<open>source\<close> is the
  text itself, of \<open>size\<close> bytes.\<close>

record qlz_comp =
  k_src :: nat
  k_dst :: nat
  k_cword_ptr :: nat
  k_cword_val :: u32
  k_fetch :: u32
  k_lits :: u32
  k_out :: "u8 list"
  k_state :: qlz_state_compress

definition last_byte :: "u8 list \<Rightarrow> int" where
  "last_byte source = int (length source) - 1"

definition last_matchstart :: "u8 list \<Rightarrow> int" where
  "last_matchstart source = last_byte source - UNCONDITIONAL_MATCHLEN - UNCOMPRESSED_END"

text \<open>The ratio is too low: past the middle the output is not shorter than 31/32 of the input.\<close>

definition ratio_too_low :: "u8 list \<Rightarrow> qlz_comp \<Rightarrow> bool" where
  "ratio_too_low source c \<longleftrightarrow> k_src c > length source div 2 \<and> k_dst c > k_src c - k_src c div 32"

definition close_cword :: "qlz_comp \<Rightarrow> u8 list option" where
  "close_cword c = fast_write (drop_bit 1 (k_cword_val c) OR push_bit 31 1) (k_out c) (k_cword_ptr c) CWORD_LEN"

definition next_cword :: "qlz_comp \<Rightarrow> qlz_comp option" where
  "next_cword c = do {
     out \<leftarrow> close_cword c;
     Some (c\<lparr>k_out := out, k_cword_ptr := k_dst c, k_dst := k_dst c + CWORD_LEN,
             k_cword_val := push_bit 31 1\<rparr>) }"

function extend_match :: "u8 list \<Rightarrow> nat \<Rightarrow> nat \<Rightarrow> nat \<Rightarrow> nat \<Rightarrow> nat option" where
  "extend_match source off old_src remaining src = do {
     a \<leftarrow> byte_at source (off + (src - old_src));
     b \<leftarrow> byte_at source src;
     if a = b \<and> src - old_src < remaining
     then extend_match source off old_src remaining (Suc src) else Some src }"
  by pat_completeness auto
termination
  by (relation "measure (\<lambda>(_, _, old_src, remaining, src). old_src + remaining - src)") auto

declare extend_match.simps [simp del]

text \<open>Where a match of at least four bytes ends.\<close>

definition match_end :: "u8 list \<Rightarrow> nat \<Rightarrow> nat \<Rightarrow> nat option" where
  "match_end source off old_src = do {
     a \<leftarrow> byte_at source (off + 4);
     b \<leftarrow> byte_at source (old_src + 4);
     if a \<noteq> b then Some (old_src + 4) else do {
       a \<leftarrow> byte_at source (off + 5);
       b \<leftarrow> byte_at source (old_src + 5);
       if a \<noteq> b then Some (old_src + 5) else do {
         let q = nat (last_byte source - UNCOMPRESSED_END - int (old_src + 5 - 5) + 1);
         let remaining = (if q > 255 then 255 else q);
         extend_match source off old_src remaining (old_src + 6) } } }"

text \<open>What is written for a match of \<open>matchlen\<close> bytes, and how many bytes of it count.\<close>

definition write_match :: "u32 \<Rightarrow> nat \<Rightarrow> u8 list \<Rightarrow> nat \<Rightarrow> (u8 list \<times> nat) option" where
  "write_match hash matchlen out dst =
     (if matchlen < 18
      then do { out \<leftarrow> fast_write ((word_of_nat matchlen - 2) OR push_bit 4 hash) out dst 2; Some (out, dst + 2) }
      else do { out \<leftarrow> fast_write (push_bit 16 (word_of_nat matchlen) OR push_bit 4 hash) out dst 3; Some (out, dst + 3) })"

definition compress_match :: "u8 list \<Rightarrow> nat \<Rightarrow> u32 \<Rightarrow> u32 \<Rightarrow> qlz_comp \<Rightarrow> qlz_comp option" where
  "compress_match source off hash cached c = do {
     src \<leftarrow> (if cached \<noteq> 0 then Some (k_src c + 3) else match_end source off (k_src c));
     (out, dst) \<leftarrow> write_match hash (src - k_src c) (k_out c) (k_dst c);
     fetch \<leftarrow> fast_read source src 3;
     Some (c\<lparr>k_cword_val := drop_bit 1 (k_cword_val c) OR push_bit 31 1, k_out := out, k_dst := dst,
             k_src := src, k_fetch := fetch, k_lits := 0\<rparr>) }"

definition compress_literal :: "u8 list \<Rightarrow> qlz_comp \<Rightarrow> qlz_comp option" where
  "compress_literal source c = do {
     b \<leftarrow> byte_at source (k_src c);
     out \<leftarrow> put_byte (k_out c) (k_dst c) b;
     fetch \<leftarrow> fast_read source (k_src c + 1) 3;
     Some (c\<lparr>k_lits := k_lits c + 1, k_out := out, k_src := k_src c + 1, k_dst := k_dst c + 1,
             k_cword_val := drop_bit 1 (k_cword_val c), k_fetch := fetch\<rparr>) }"

text \<open>Is the earlier position \<open>off\<close> a match for \<open>src\<close>?\<close>

definition usable :: "u8 list \<Rightarrow> nat \<Rightarrow> u32 \<Rightarrow> qlz_comp \<Rightarrow> bool option" where
  "usable source off cached c =
     (if cached AND 0xffffff = 0 \<and> off \<noteq> 0
      then if int (k_src c) - int off > MINOFFSET then Some True
           else if k_src c = off + 1 \<and> k_lits c \<ge> 3 \<and> k_src c > 3 then same source (k_src c - 3) 6
           else Some False
      else Some False)"

definition set_entry :: "u32 \<Rightarrow> u32 \<Rightarrow> nat \<Rightarrow> qlz_state_compress \<Rightarrow> qlz_state_compress" where
  "set_entry hash fetch src st =
     st\<lparr>qc_hash := (qc_hash st)(hash := \<lparr>hc_cache = fetch, hc_offset = word_of_nat src\<rparr>)\<rparr>"

definition compress_item :: "u8 list \<Rightarrow> qlz_comp \<Rightarrow> qlz_comp option" where
  "compress_item source c = do {
     let hash = hash_func (k_fetch c);
     let entry = qc_hash (k_state c) hash;
     let cached = k_fetch c XOR hc_cache entry;
     let off = unat (hc_offset entry);
     let c = c\<lparr>k_state := set_entry hash (k_fetch c) (k_src c) (k_state c)\<rparr>;
     match \<leftarrow> usable source off cached c;
     if match then compress_match source off hash cached c else compress_literal source c }"

definition compress_step :: "u8 list \<Rightarrow> qlz_comp \<Rightarrow> qlz_comp option" where
  "compress_step source c =
     (if k_cword_val c AND 1 = 1
      then do { c \<leftarrow> next_cword c;
                fetch \<leftarrow> fast_read source (k_src c) 3;
                compress_item source (c\<lparr>k_fetch := fetch\<rparr>) }
      else compress_item source c)"

lemma extend_match_ge: "extend_match source off old_src remaining src = Some e \<Longrightarrow> src \<le> e"
proof (induction source off old_src remaining src rule: extend_match.induct)
  case (1 source off old_src remaining src)
  then show ?case
    by (subst (asm) extend_match.simps) (auto simp: Option.bind_eq_Some_conv Suc_le_eq split: if_splits dest: less_imp_le)
qed

lemma match_end_ge: "match_end source off p = Some e \<Longrightarrow> p + 4 \<le> e"
  by (auto simp: match_end_def Let_def Option.bind_eq_Some_conv
      split: if_splits dest!: extend_match_ge)

lemma compress_item_advances: "compress_item source c = Some c' \<Longrightarrow> k_src c < k_src c'"
  by (auto simp: compress_item_def compress_match_def compress_literal_def Let_def
      Option.bind_eq_Some_conv split: if_splits dest!: match_end_ge)

lemma compress_step_advances: "compress_step source c = Some c' \<Longrightarrow> k_src c < k_src c'"
  by (auto simp: compress_step_def next_cword_def Option.bind_eq_Some_conv split: if_splits
      dest!: compress_item_advances)

text \<open>The first loop; \<open>False\<close>: the function returns 0.\<close>

function compress_loop :: "u8 list \<Rightarrow> qlz_comp \<Rightarrow> (bool \<times> qlz_comp) option" where
  "compress_loop source c =
     (if int (k_src c) \<le> last_matchstart source
      then if k_cword_val c AND 1 = 1 \<and> ratio_too_low source c then Some (False, c)
           else do { c \<leftarrow> compress_step source c; compress_loop source c }
      else Some (True, c))"
  by pat_completeness auto
termination
  by (relation "measure (\<lambda>(source, c). length source - k_src c)")
    (auto simp: last_matchstart_def last_byte_def qlz_consts dest!: compress_step_advances)

declare compress_loop.simps [simp del]

text \<open>The second loop: the rest is stored byte by byte.\<close>

definition tail_step :: "u8 list \<Rightarrow> qlz_comp \<Rightarrow> qlz_comp option" where
  "tail_step source c = do {
     c \<leftarrow> (if k_cword_val c AND 1 = 1 then next_cword c else Some c);
     st \<leftarrow> (if int (k_src c) \<le> last_byte source - 3
            then do { fetch \<leftarrow> fast_read source (k_src c) 3;
                      Some (set_entry (hash_func fetch) fetch (k_src c) (k_state c)) }
            else Some (k_state c));
     b \<leftarrow> byte_at source (k_src c);
     out \<leftarrow> put_byte (k_out c) (k_dst c) b;
     Some (c\<lparr>k_state := st, k_out := out, k_src := k_src c + 1, k_dst := k_dst c + 1,
             k_cword_val := drop_bit 1 (k_cword_val c)\<rparr>) }"

lemma tail_step_advances: "tail_step source c = Some c' \<Longrightarrow> k_src c < k_src c'"
  by (auto simp: tail_step_def next_cword_def Option.bind_eq_Some_conv split: if_splits)

function tail_loop :: "u8 list \<Rightarrow> qlz_comp \<Rightarrow> qlz_comp option" where
  "tail_loop source c =
     (if int (k_src c) \<le> last_byte source
      then do { c \<leftarrow> tail_step source c; tail_loop source c }
      else Some c)"
  by pat_completeness auto
termination
  by (relation "measure (\<lambda>(source, c). length source - k_src c)")
    (auto simp: last_byte_def dest!: tail_step_advances)

declare tail_loop.simps [simp del]

text \<open>The last control word is shifted until its mark is the lowest bit; a word without a mark
  would be shifted for ever.\<close>

partial_function (option) shift_cword :: "u32 \<Rightarrow> u32 option" where
  "shift_cword w = (if w AND 1 \<noteq> 1 then shift_cword (drop_bit 1 w) else Some w)"

definition comp_start :: "u8 list \<Rightarrow> u32 \<Rightarrow> u8 list \<Rightarrow> qlz_state_compress \<Rightarrow> qlz_comp" where
  "comp_start source fetch destination st =
     \<lparr>k_src = 0, k_dst = CWORD_LEN, k_cword_ptr = 0, k_cword_val = push_bit 31 1, k_fetch = fetch,
      k_lits = 0, k_out = destination, k_state = st\<rparr>"

definition qlz_compress_core ::
  "u8 list \<Rightarrow> u8 list \<Rightarrow> qlz_state_compress \<Rightarrow> (nat \<times> u8 list \<times> qlz_state_compress) option" where
  "qlz_compress_core source destination st = do {
     fetch \<leftarrow> (if 0 \<le> last_matchstart source then fast_read source 0 3 else Some 0);
     (go, c) \<leftarrow> compress_loop source (comp_start source fetch destination st);
     if \<not> go then Some (0, k_out c, k_state c) else do {
       c \<leftarrow> tail_loop source c;
       w \<leftarrow> shift_cword (k_cword_val c);
       out \<leftarrow> close_cword (c\<lparr>k_cword_val := w\<rparr>);
       Some (if k_dst c < 9 then 9 else k_dst c, out, k_state c) } }"

definition write_header :: "nat \<Rightarrow> u8 \<Rightarrow> nat \<Rightarrow> nat \<Rightarrow> u8 list \<Rightarrow> u8 list option" where
  "write_header base compressed r sz destination = do {
     d \<leftarrow> (if base = 3
       then do { d \<leftarrow> put_byte destination 0 (0 OR compressed);
                 d \<leftarrow> put_byte d 1 (word_of_nat r);
                 put_byte d 2 (word_of_nat sz) }
       else do { d \<leftarrow> put_byte destination 0 (2 OR compressed);
                 d \<leftarrow> fast_write (word_of_nat r) d 1 4;
                 fast_write (word_of_nat sz) d 5 4 });
     b \<leftarrow> byte_at d 0;
     put_byte d 0 (((b OR push_bit 2 1) OR push_bit 6 1) OR push_bit 4 0) }"

definition qlz_compress ::
  "u8 list \<Rightarrow> u8 list \<Rightarrow> qlz_state_compress \<Rightarrow> (nat \<times> u8 list \<times> qlz_state_compress) option" where
  "qlz_compress source destination st =
     (let sz = length source; base = (if sz < 216 then 3 else 9)
      in if sz = 0 \<or> sz > 0xffffffff - 400 then Some (0, destination, st)
      else do {
        (n, out, st) \<leftarrow> qlz_compress_core source (drop base destination) (reset_table_compress st);
        (r, out, compressed) \<leftarrow> (if n = 0
          then do { out \<leftarrow> put_bytes out 0 source; Some (sz + base, out, 0) }
          else Some (base + n, out, 1));
        d \<leftarrow> write_header base compressed r sz (take base destination @ out);
        Some (r, d, st\<lparr>qc_stream_counter := 0\<rparr>) })"

section \<open>Decompression\<close>

record qlz_dec =
  d_src :: nat
  d_dst :: nat
  d_cword_val :: u32
  d_last_hashed :: int
  d_out :: "u8 list"
  d_state :: qlz_state_decompress

text \<open>Words are copied in steps of three bytes, at least one.\<close>

function memcpy_up :: "u8 list \<Rightarrow> nat \<Rightarrow> nat \<Rightarrow> nat \<Rightarrow> nat \<Rightarrow> u8 list option" where
  "memcpy_up m dst src n f = do {
     w \<leftarrow> fast_read m (src + f) 4;
     m \<leftarrow> fast_write w m (dst + f) 4;
     if f + 3 < n then memcpy_up m dst src n (f + 3) else Some m }"
  by pat_completeness auto
termination
  by (relation "measure (\<lambda>(_, _, _, n, f). n - f)") auto

declare memcpy_up.simps [simp del]

definition update_hash :: "u8 list \<Rightarrow> nat \<Rightarrow> qlz_state_decompress \<Rightarrow> qlz_state_decompress option" where
  "update_hash m s st = do {
     hash \<leftarrow> hashat m s;
     Some (st\<lparr>qd_hash := (qd_hash st)(hash := Some s), qd_hash_counter := (qd_hash_counter st)(hash := 1)\<rparr>) }"

function update_hash_upto ::
  "u8 list \<Rightarrow> int \<Rightarrow> int \<Rightarrow> qlz_state_decompress \<Rightarrow> (int \<times> qlz_state_decompress) option" where
  "update_hash_upto m lh mx st =
     (if lh < mx
      then do { st \<leftarrow> update_hash m (nat (lh + 1)) st; update_hash_upto m (lh + 1) mx st }
      else Some (lh, st))"
  by pat_completeness auto
termination
  by (relation "measure (\<lambda>(_, lh, mx, _). nat (mx - lh))") auto

declare update_hash_upto.simps [simp del]

definition bitlut :: "nat \<Rightarrow> nat" where
  "bitlut i = [4, 0, 1, 0, 2, 0, 1, 0, 3, 0, 1, 0, 2, 0, 1, 0] ! i"

definition read_cword :: "u8 list \<Rightarrow> qlz_dec \<Rightarrow> qlz_dec option" where
  "read_cword m d =
     (if d_cword_val d = 1
      then do { w \<leftarrow> fast_read m (d_src d) CWORD_LEN;
                Some (d\<lparr>d_cword_val := w, d_src := d_src d + CWORD_LEN\<rparr>) }
      else Some d)"

definition decompress_match :: "u8 list \<Rightarrow> u32 \<Rightarrow> qlz_dec \<Rightarrow> qlz_dec option" where
  "decompress_match m fetch d = do {
     offset2 \<leftarrow> qd_hash (d_state d) (drop_bit 4 fetch AND 0xfff);
     (matchlen, src) \<leftarrow> (if fetch AND 0xf \<noteq> 0
       then Some (unat ((fetch AND 0xf) + 2), d_src d + 2)
       else do { b \<leftarrow> byte_at m (d_src d + 2); Some (unat b, d_src d + 3) });
     out \<leftarrow> memcpy_up (d_out d) (d_dst d) offset2 matchlen 0;
     (lh, st) \<leftarrow> update_hash_upto out (d_last_hashed d) (int (d_dst d)) (d_state d);
     Some (d\<lparr>d_cword_val := drop_bit 1 (d_cword_val d), d_src := src, d_out := out,
             d_dst := d_dst d + matchlen, d_last_hashed := int (d_dst d + matchlen) - 1, d_state := st\<rparr>) }"

definition decompress_literals :: "u8 list \<Rightarrow> qlz_dec \<Rightarrow> qlz_dec option" where
  "decompress_literals m d = do {
     let n = bitlut (unat (d_cword_val d AND 0xf));
     w \<leftarrow> fast_read m (d_src d) 4;
     out \<leftarrow> fast_write w (d_out d) (d_dst d) 4;
     (lh, st) \<leftarrow> update_hash_upto out (d_last_hashed d) (int (d_dst d + n) - 3) (d_state d);
     Some (d\<lparr>d_cword_val := drop_bit n (d_cword_val d), d_src := d_src d + n, d_out := out,
             d_dst := d_dst d + n, d_last_hashed := lh, d_state := st\<rparr>) }"

function decompress_tail :: "u8 list \<Rightarrow> nat \<Rightarrow> qlz_dec \<Rightarrow> qlz_dec option" where
  "decompress_tail m sz d =
     (if int (d_dst d) \<le> int sz - 1
      then do {
        let d = (if d_cword_val d = 1
                 then d\<lparr>d_src := d_src d + CWORD_LEN, d_cword_val := push_bit 31 1\<rparr> else d);
        b \<leftarrow> byte_at m (d_src d);
        out \<leftarrow> put_byte (d_out d) (d_dst d) b;
        decompress_tail m sz (d\<lparr>d_out := out, d_dst := d_dst d + 1, d_src := d_src d + 1,
          d_cword_val := drop_bit 1 (d_cword_val d)\<rparr>) }
      else Some d)"
  by pat_completeness auto
termination
  by (relation "measure (\<lambda>(_, sz, d). sz - d_dst d)") (auto simp: Let_def)

declare decompress_tail.simps [simp del]

text \<open>One round of the loop: \<open>Inr\<close> goes on, \<open>Inl\<close> has returned.\<close>

definition decompress_step :: "u8 list \<Rightarrow> nat \<Rightarrow> qlz_dec \<Rightarrow> (qlz_dec + qlz_dec) option" where
  "decompress_step m sz d = do {
     d \<leftarrow> read_cword m d;
     fetch \<leftarrow> fast_read m (d_src d) 4;
     if d_cword_val d AND 1 = 1 then do { d \<leftarrow> decompress_match m fetch d; Some (Inr d) }
     else if int (d_dst d) < int sz - 1 - UNCONDITIONAL_MATCHLEN - UNCOMPRESSED_END
     then do { d \<leftarrow> decompress_literals m d; Some (Inr d) }
     else do {
       d \<leftarrow> decompress_tail m sz d;
       (lh, st) \<leftarrow> update_hash_upto (d_out d) (d_last_hashed d) (int sz - 1 - 3) (d_state d);
       Some (Inl (d\<lparr>d_last_hashed := lh, d_state := st\<rparr>)) } }"

lemma low_bits: "w AND (15 :: u32) = horner_sum of_bool 2 [bit w 0, bit w 1, bit w 2, bit w 3]"
proof -
  have "w AND 15 = take_bit 4 w" by (simp add: take_bit_eq_mask mask_eq_exp_minus_1)
  also have "\<dots> = horner_sum of_bool 2 (map (bit w) [0..<4])" by (simp add: horner_sum_bit_eq_take_bit)
  finally show ?thesis by (simp add: upt_rec numeral_2_eq_2 numeral_3_eq_3)
qed

text \<open>The table counts the literals that the low four bits of a control word announce.\<close>

lemma bitlut_spec:
  assumes "\<not> bit w 0" and "n = bitlut (unat (w AND (15 :: u32)))"
  shows "1 \<le> n" and "n \<le> 4" and "\<And>i. i < n \<Longrightarrow> \<not> bit w i"
proof -
  have *: "unat (w AND 15) = 2 * of_bool (bit w 1) + 4 * of_bool (bit w 2) + 8 * of_bool (bit w 3)"
    using assms(1) by (cases "bit w 1"; cases "bit w 2"; cases "bit w 3") (simp_all add: low_bits)
  have "n = (if bit w 1 then 1 else if bit w 2 then 2 else if bit w 3 then 3 else 4)"
    unfolding assms(2) * by (auto simp: bitlut_def)
  with assms(1) show "1 \<le> n" "n \<le> 4" "\<And>i. i < n \<Longrightarrow> \<not> bit w i"
    by (auto split: if_splits simp: less_Suc_eq numeral_eq_Suc)
qed

lemma and_1_bit: "w AND 1 = (1 :: u32) \<longleftrightarrow> bit w 0"
  by (simp add: and_one_eq odd_iff_mod_2_eq_one bit_0)

lemma decompress_step_advances:
  assumes "decompress_step m sz d = Some (Inr d')"
  shows "d_src d < d_src d'" and "d_src d < length m"
  using assms bitlut_spec(1)
  by (fastforce simp: decompress_step_def read_cword_def fast_read_def decompress_match_def CWORD_LEN_def
      decompress_literals_def Let_def Option.bind_eq_Some_conv and_1_bit split: if_splits)+

function decompress_loop :: "u8 list \<Rightarrow> nat \<Rightarrow> qlz_dec \<Rightarrow> qlz_dec option" where
  "decompress_loop m sz d = do {
     r \<leftarrow> decompress_step m sz d;
     case r of Inl d \<Rightarrow> Some d | Inr d \<Rightarrow> decompress_loop m sz d }"
  by pat_completeness auto
termination
  by (relation "measure (\<lambda>(m, _, d). length m - d_src d)") (auto dest: decompress_step_advances intro: diff_less_mono2)

declare decompress_loop.simps [simp del]

definition qlz_decompress_core ::
  "u8 list \<Rightarrow> u8 list \<Rightarrow> nat \<Rightarrow> qlz_state_decompress \<Rightarrow> (nat \<times> u8 list \<times> qlz_state_decompress) option" where
  "qlz_decompress_core source destination sz st = do {
     h \<leftarrow> qlz_size_header source;
     n \<leftarrow> qlz_size_compressed source;
     d \<leftarrow> decompress_loop source sz
       \<lparr>d_src = h, d_dst = 0, d_cword_val = 1, d_last_hashed = -1, d_out = destination, d_state = st\<rparr>;
     Some (sz, d_out d, d_state d) }"

definition qlz_decompress ::
  "u8 list \<Rightarrow> u8 list \<Rightarrow> qlz_state_decompress \<Rightarrow> (nat \<times> u8 list \<times> qlz_state_decompress) option" where
  "qlz_decompress source destination st = do {
     dsiz \<leftarrow> qlz_size_decompressed source;
     b \<leftarrow> byte_at source 0;
     (dsiz, out, st) \<leftarrow> (if b AND 1 = 1
       then qlz_decompress_core source destination dsiz (reset_table_decompress st)
       else do { h \<leftarrow> qlz_size_header source;
                 bs \<leftarrow> get_bytes source h dsiz;
                 out \<leftarrow> put_bytes destination 0 bs;
                 Some (dsiz, out, st) });
     Some (dsiz, out, reset_table_decompress (st\<lparr>qd_stream_counter := 0\<rparr>)) }"

end
