(* ===== verification/QuickLZFormat.thy ===== *)
theory QuickLZFormat
  imports QuickLZ
begin

text \<open>
  The format of a compressed text, apart from the programs that write and read it: items
  (a literal byte, or a copy of earlier bytes found by their hash), how 31 items and a control
  word are laid out, and when a list of items is a text.
\<close>

section \<open>Words and bytes\<close>

lemma fast_read_3 [simp]: "fast_read m a 3 = (if a + 4 \<le> length m then Some (w32 m a) else None)"
  by (simp add: fast_read_def)

lemma fast_read_4 [simp]: "fast_read m a 4 = (if a + 4 \<le> length m then Some (w32 m a) else None)"
  by (simp add: fast_read_def)

lemma hashat_eq: "hashat m a = (if a + 4 \<le> length m then Some (hash_func (w32 m a)) else None)"
  by (simp add: hashat_def)

lemma take_bit_word_of_nat: "take_bit n (word_of_nat x :: 'a::len word) = word_of_nat (x mod 2 ^ n)"
  by (simp add: take_bit_of_nat [symmetric] flip: take_bit_nat_def)

lemma dec_le_append: "dec_le (xs @ ys) = dec_le xs + 256 ^ length xs * dec_le ys"
  by (induction xs) (simp_all add: algebra_simps)

lemma dec_le_take: 
  assumes "k \<le> length xs"
  shows "dec_le xs mod 256 ^ k = dec_le (take k xs)"
proof -
  have "dec_le xs = dec_le (take k xs) + 256 ^ k * dec_le (drop k xs)"
    using dec_le_append [of "take k xs" "drop k xs"] assms by simp
  moreover have "dec_le (take k xs) < 256 ^ k"
    using dec_le_bound [of "take k xs"] assms by simp
  ultimately show ?thesis by simp
qed

lemma dec_le_inj: "dec_le xs = dec_le ys \<Longrightarrow> length xs = length ys \<Longrightarrow> xs = ys"
  by (metis enc_dec_le)

lemma take_enc_le_bytes: "k \<le> n \<Longrightarrow> take k (enc_le n x) = enc_le k x"
  by (induction n x arbitrary: k rule: enc_le.induct) (auto simp: take_Cons split: nat.splits)

text \<open>The low bytes of a word read are the bytes at its address.\<close>

lemma w32_low:
  assumes "a + 4 \<le> length m" and "k \<le> 4"
  shows "take_bit (8 * k) (w32 m a) = word_of_nat (dec_le (take k (drop a m)))"
proof -
  have "(2 :: nat) ^ (8 * k) = 256 ^ k" by (simp add: power_mult)
  moreover have "dec_le (take 4 (drop a m)) mod 256 ^ k = dec_le (take k (drop a m))"
    using assms by (subst dec_le_take) (simp_all add: min_absorb1)
  ultimately show ?thesis using assms(2) by (simp add: w32_def take_bit_word_of_nat)
qed

lemma dec_le_3_inj:
  assumes "word_of_nat (dec_le xs) = (word_of_nat (dec_le ys) :: u32)" "length xs = 3" "length ys = 3"
  shows "xs = ys"
proof -
  have "dec_le xs < 256 ^ 3" "dec_le ys < 256 ^ 3" using dec_le_bound assms by metis+
  then have "dec_le xs = dec_le ys"
    using assms(1) by (simp add: word_of_nat_eq_iff take_bit_nat_eq_self)
  then show ?thesis using assms by (auto intro: dec_le_inj)
qed

lemma w32_low_eq:
  assumes "a + 4 \<le> length m" "b + 4 \<le> length m'"
  shows "take_bit 24 (w32 m a) = take_bit 24 (w32 m' b) \<longleftrightarrow> take 3 (drop a m) = take 3 (drop b m')"
  using w32_low [OF assms(1), of 3] w32_low [OF assms(2), of 3] assms
  by (auto intro!: dec_le_3_inj)

lemma w32_eq_nth:
  assumes "w32 m a = w32 m b" "a + 4 \<le> length m" "b + 4 \<le> length m" "i < 4"
  shows "m ! (a + i) = m ! (b + i)"
proof -
  have *: "dec_le (take 4 (drop c m)) < 2 ^ 32" if "c + 4 \<le> length m" for c
    using dec_le_bound [of "take 4 (drop c m)"] that by (simp add: min_absorb2)
  have "dec_le (take 4 (drop a m)) = dec_le (take 4 (drop b m))"
    using assms(1) * [OF assms(2)] * [OF assms(3)]
    by (simp add: w32_def word_of_nat_eq_iff take_bit_nat_eq_self)
  then have "take 4 (drop a m) = take 4 (drop b m)" using assms by (auto intro!: dec_le_inj)
  then have "take 4 (drop a m) ! i = take 4 (drop b m) ! i" by simp
  then show ?thesis using assms by (simp add: add.commute)
qed

lemma take_3_nth:
  assumes "take 3 (drop a m) = take 3 (drop b m')" "a + 3 \<le> length m" "b + 3 \<le> length m'" "i < 3"
  shows "m ! (a + i) = m' ! (b + i)"
proof -
  have "take 3 (drop a m) ! i = take 3 (drop b m') ! i" using assms(1) by (rule arg_cong)
  then show ?thesis using assms(2-) by (simp add: add.commute)
qed

lemma and_low24: "w AND 0xffffff = take_bit 24 (w :: u32)"
  by (simp add: take_bit_eq_mask mask_eq_exp_minus_1)

lemma xor_0_iff: "v XOR w = 0 \<longleftrightarrow> v = (w :: u32)"
proof
  assume "v XOR w = 0"
  then have "(v XOR w) XOR w = 0 XOR w" by simp
  then show "v = w" by (simp add: xor.assoc)
qed simp

lemma xor_low24: "(v XOR w) AND 0xffffff = 0 \<longleftrightarrow> take_bit 24 v = take_bit 24 (w :: u32)"
  by (simp add: and_low24 take_bit_xor xor_0_iff)

text \<open>A hash is one of 4096 and depends on three bytes.\<close>

lemma bit_hash_func: "bit (hash_func w) i \<longleftrightarrow> i < 12 \<and> (bit w (12 + i) \<noteq> bit w i)"
proof -
  have "hash_func w = take_bit 12 (drop_bit 12 w XOR w)"
    by (simp add: hash_func_def take_bit_eq_mask mask_eq_exp_minus_1)
  then show ?thesis by (auto simp: bit_simps)
qed

lemma hash_func_low: "take_bit 24 v = take_bit 24 w \<Longrightarrow> hash_func v = hash_func w"
proof (rule bit_word_eqI)
  fix n
  assume "take_bit 24 v = take_bit 24 w"
  then have *: "n < 24 \<Longrightarrow> bit v n = bit w n" for n by (metis bit_take_bit_iff)
  show "bit (hash_func v) n = bit (hash_func w) n"
    using * [of n] * [of "12 + n"] by (auto simp: bit_hash_func)
qed

definition hash_of :: "u8 list \<Rightarrow> nat \<Rightarrow> u32" where
  "hash_of S q = hash_func (w32 S q)"

lemma hash_of_eq:
  "take 3 (drop a m) = take 3 (drop b m') \<Longrightarrow> a + 4 \<le> length m \<Longrightarrow> b + 4 \<le> length m' \<Longrightarrow>
   hash_of m a = hash_of m' b"
  unfolding hash_of_def by (rule hash_func_low) (simp add: w32_low_eq)

section \<open>Items\<close>

datatype item = Lit u8 | Copy u32 nat

fun is_copy :: "item \<Rightarrow> bool" where
  "is_copy (Lit _) = False"
| "is_copy (Copy _ _) = True"

fun item_len :: "item \<Rightarrow> nat" where
  "item_len (Lit _) = 1"
| "item_len (Copy _ n) = n"

definition copy_code :: "u32 \<Rightarrow> nat \<Rightarrow> u32" where
  "copy_code h n = (if n < 18 then word_of_nat n - 2 else push_bit 16 (word_of_nat n)) OR push_bit 4 h"

fun item_bytes :: "item \<Rightarrow> u8 list" where
  "item_bytes (Lit b) = [b]"
| "item_bytes (Copy h n) = enc_le (if n < 18 then 2 else 3) (unat (copy_code h n))"

definition ilen :: "item list \<Rightarrow> nat" where
  "ilen is = sum_list (map item_len is)"

definition ibytes :: "item list \<Rightarrow> u8 list" where
  "ibytes is = concat (map item_bytes is)"

lemma ilen_simps [simp]: "ilen [] = 0" "ilen (i # is) = item_len i + ilen is" "ilen (a @ b) = ilen a + ilen b"
  by (simp_all add: ilen_def)

lemma ibytes_simps [simp]:
  "ibytes [] = []" "ibytes (i # is) = item_bytes i @ ibytes is" "ibytes (a @ b) = ibytes a @ ibytes b"
  by (simp_all add: ibytes_def)

text \<open>The positions at which the items of a text start.\<close>

fun starts_from :: "nat \<Rightarrow> item list \<Rightarrow> nat set" where
  "starts_from p [] = {}"
| "starts_from p (i # is) = insert p (starts_from (p + item_len i) is)"

abbreviation "starts \<equiv> starts_from 0"

lemma starts_from_append: "starts_from p (a @ b) = starts_from p a \<union> starts_from (p + ilen a) b"
  by (induction a arbitrary: p) (simp_all add: add.assoc)

lemma starts_snoc [simp]: "starts (a @ [i]) = insert (ilen a) (starts a)"
  by (simp add: starts_from_append)

section \<open>The table of positions\<close>

text \<open>The last position of a set with a given hash: what both hash tables hold.\<close>

definition newest :: "u8 list \<Rightarrow> nat set \<Rightarrow> u32 \<Rightarrow> nat \<Rightarrow> bool" where
  "newest S P h q \<longleftrightarrow> q \<in> P \<and> hash_of S q = h \<and> (\<forall>q' \<in> P. hash_of S q' = h \<longrightarrow> q' \<le> q)"

lemma newest_insert_same:
  "(\<And>q. q \<in> P \<Longrightarrow> q < p) \<Longrightarrow> hash_of S p = h \<Longrightarrow> newest S (insert p P) h p"
  by (auto simp: newest_def dest: less_imp_le)

lemma newest_insert_other:
  "hash_of S p \<noteq> h \<Longrightarrow> newest S (insert p P) h q \<longleftrightarrow> newest S P h q"
  by (auto simp: newest_def)

lemma newest_unique: "newest S P h q \<Longrightarrow> newest S P h q' \<Longrightarrow> q = q'"
  by (auto simp: newest_def intro: le_antisym)

text \<open>The bytes at two positions agree for a length.\<close>

definition agree :: "u8 list \<Rightarrow> nat \<Rightarrow> nat \<Rightarrow> nat \<Rightarrow> bool" where
  "agree S q p n \<longleftrightarrow> (\<forall>i < n. S ! (q + i) = S ! (p + i))"

text \<open>When an item is right after others: a literal is the byte of the text, and a copy repeats
  the bytes at the last start with its hash that is at least three bytes back; copies leave the
  last four bytes to literals.\<close>

fun item_ok :: "u8 list \<Rightarrow> item list \<Rightarrow> item \<Rightarrow> bool" where
  "item_ok S pre (Lit b) \<longleftrightarrow> ilen pre < length S \<and> b = S ! ilen pre"
| "item_ok S pre (Copy h n) \<longleftrightarrow>
     3 \<le> n \<and> n \<le> 255 \<and> ilen pre + 11 \<le> length S \<and> ilen pre + n + 4 \<le> length S \<and> unat h < 4096 \<and>
     (\<exists>q. newest S {s \<in> starts pre. s + 3 \<le> ilen pre} h q \<and> agree S q (ilen pre) n)"

fun items_ok :: "u8 list \<Rightarrow> item list \<Rightarrow> item list \<Rightarrow> bool" where
  "items_ok S pre [] \<longleftrightarrow> True"
| "items_ok S pre (i # is) \<longleftrightarrow> item_ok S pre i \<and> items_ok S (pre @ [i]) is"

lemma items_ok_append: "items_ok S pre (a @ b) \<longleftrightarrow> items_ok S pre a \<and> items_ok S (pre @ a) b"
  by (induction a arbitrary: pre) simp_all

lemma item_ok_len: "item_ok S pre i \<Longrightarrow> 1 \<le> item_len i \<and> ilen pre + item_len i \<le> length S"
  by (cases i) auto

lemma starts_less: "items_ok S pre is \<Longrightarrow> s \<in> starts_from (ilen pre) is \<Longrightarrow> ilen pre \<le> s \<and> s < ilen pre + ilen is"
proof (induction "is" arbitrary: pre)
  case (Cons i "is")
  then show ?case using item_ok_len [of S pre i] Cons.IH [of "pre @ [i]"] by auto
qed simp

lemma items_bytes_ge:
  assumes "items_ok S pre is" "ilen pre + ilen is = length S"
  shows "min 4 (ilen is) \<le> length (ibytes is)"
  using assms
proof (induction "is" arbitrary: pre)
  case (Cons i "is")
  then have "min 4 (ilen is) \<le> length (ibytes is)" using Cons.IH [of "pre @ [i]"] by (simp add: add.assoc)
  with Cons.prems show ?case by (cases i) auto
qed simp

lemma items_bytes_le: "items_ok S pre is \<Longrightarrow> length (ibytes is) \<le> ilen is \<and> length is \<le> ilen is"
proof (induction "is" arbitrary: pre)
  case (Cons i "is")
  from Cons.IH [of "pre @ [i]"] Cons.prems show ?case by (cases i) auto
qed simp

section \<open>Groups\<close>

text \<open>31 items follow a control word with a bit for each, a copy's bit set; its highest bit ends it.\<close>

definition group_word :: "bool list \<Rightarrow> u32" where
  "group_word fs = horner_sum of_bool 2 (fs @ replicate (31 - length fs) False @ [True])"

function layout :: "item list \<Rightarrow> u8 list" where
  "layout is = (if is = [] then []
     else enc_le 4 (unat (group_word (map is_copy (take 31 is)))) @ ibytes (take 31 is) @ layout (drop 31 is))"
  by pat_completeness auto
termination
  by (relation "measure length") auto

declare layout.simps [simp del]

lemma layout_Nil [simp]: "layout [] = []"
  by (simp add: layout.simps)

lemma layout_short: "is \<noteq> [] \<Longrightarrow> length is \<le> 31 \<Longrightarrow>
  layout is = enc_le 4 (unat (group_word (map is_copy is))) @ ibytes is"
  by (subst layout.simps) simp

lemma layout_append: "31 dvd length a \<Longrightarrow> layout (a @ b) = layout a @ layout b"
proof (induction a rule: layout.induct)
  case (1 a)
  show ?case
  proof (cases "a = []")
    case False
    with 1(2) have "31 \<le> length a" by (simp add: dvd_imp_le)
    with 1 False show ?thesis
      by (subst (1 2) layout.simps) (simp add: dvd_diff_nat)
  qed simp
qed

lemma bit_group_word:
  "length fs \<le> 31 \<Longrightarrow> bit (group_word fs) i \<longleftrightarrow> i = 31 \<or> (i < length fs \<and> fs ! i)"
  by (auto simp: group_word_def bit_horner_sum_bit_word_iff nth_append)

text \<open>What is left of a control word: the flags of the group's remaining items, then nothing up to
  the mark at bit \<open>m\<close>.\<close>

definition flags_left :: "u32 \<Rightarrow> bool list \<Rightarrow> nat \<Rightarrow> bool" where
  "flags_left w fs m \<longleftrightarrow> m < 32 \<and> length fs \<le> m \<and> (\<forall>i. bit w i \<longleftrightarrow> i = m \<or> (i < length fs \<and> fs ! i))"

lemma flags_left_group: "length fs \<le> 31 \<Longrightarrow> flags_left (group_word fs) fs 31"
  by (simp add: flags_left_def bit_group_word)

lemma flags_left_0: "flags_left 1 [] 0"
  by (simp add: flags_left_def bit_1_iff)

lemma flags_left_top: "length fs \<le> 31 \<Longrightarrow> True \<notin> set fs \<Longrightarrow> flags_left (push_bit 31 1) fs 31"
proof -
  assume *: "length fs \<le> 31" "True \<notin> set fs"
  have "bit (push_bit 31 1 :: u32) i \<longleftrightarrow> i = 31" for i
    by (auto simp: bit_push_bit_iff bit_1_iff simp del: push_bit_of_1)
  with * show ?thesis by (auto simp: flags_left_def in_set_conv_nth)
qed

lemma flags_left_bit: "flags_left w fs m \<Longrightarrow> bit w i \<longleftrightarrow> i = m \<or> (i < length fs \<and> fs ! i)"
  unfolding flags_left_def by blast

lemma flags_left_length: "flags_left w fs m \<Longrightarrow> length fs \<le> m"
  unfolding flags_left_def by blast

lemma flags_left_1:
  assumes "flags_left w fs m"
  shows "w = 1 \<longleftrightarrow> m = 0"
proof
  assume "w = 1"
  moreover have "bit w m" using flags_left_bit [OF assms] by simp
  ultimately show "m = 0" by (simp add: bit_1_iff)
next
  assume "m = 0"
  moreover have "fs = []" using assms \<open>m = 0\<close> by (simp add: flags_left_def)
  ultimately have "bit w i \<longleftrightarrow> i = 0" for i using flags_left_bit [OF assms, of i] by simp
  then show "w = 1" by (intro bit_word_eqI) (simp add: bit_1_iff)
qed

lemma flags_left_bit0: "flags_left w (f # fs) m \<Longrightarrow> bit w 0 \<longleftrightarrow> f"
  using flags_left_bit [of w "f # fs" m 0] by (auto simp: flags_left_def)

lemma flags_left_drop:
  assumes "flags_left w fs m" "n \<le> m" "n \<le> length fs \<or> fs = []"
  shows "flags_left (drop_bit n w) (drop n fs) (m - n)"
proof -
  have "bit (drop_bit n w) i \<longleftrightarrow> i = m - n \<or> (i < length (drop n fs) \<and> drop n fs ! i)" for i
    using flags_left_bit [OF assms(1), of "n + i"] assms(2,3) by (auto simp: bit_drop_bit_eq)
  with assms show ?thesis by (auto simp: flags_left_def)
qed

section \<open>Reading a copy\<close>

lemma w32_enc:
  assumes "take k (drop a m) = enc_le k (unat w)" "a + 4 \<le> length m" "k \<le> 4" "i < 8 * k"
  shows "bit (w32 m a) i = bit (w :: u32) i"
proof -
  have *: "(256 :: nat) ^ k = 2 ^ (8 * k)" by (simp add: power_mult)
  have "take_bit (8 * k) (w32 m a) = word_of_nat (dec_le (enc_le k (unat w)))"
    using w32_low [OF assms(2,3)] assms(1) by simp
  also have "\<dots> = take_bit (8 * k) w"
    using assms(3) by (simp add: dec_enc_le * take_bit_word_of_nat [symmetric])
  finally show ?thesis using assms(4) by (metis bit_take_bit_iff)
qed

end
