(* ===== verification/QuickLZCompress.thy ===== *)
theory QuickLZCompress
  imports QuickLZFormat
begin

text \<open>
  What \<open>qlz_compress_core\<close> writes: a list of items that is right for the text, laid out in
  groups, in a buffer that is large enough; or nothing, when it gives up.
\<close>

section \<open>Finding a match\<close>

lemma agree_Suc: "agree S q p (Suc n) \<longleftrightarrow> agree S q p n \<and> S ! (q + n) = S ! (p + n)"
  by (auto simp: agree_def less_Suc_eq)

lemma agree_mono: "agree S q p n \<Longrightarrow> m \<le> n \<Longrightarrow> agree S q p m"
  by (simp add: agree_def)

lemma extend_match_ok:
  assumes "off < old" "agree S off old (src - old)" "old \<le> src" "src \<le> old + remaining" "old + remaining < length S"
  shows "\<exists>e. extend_match S off old remaining src = Some e \<and> agree S off old (e - old) \<and> src \<le> e \<and> e \<le> old + remaining"
  using assms
proof (induction S off old remaining src rule: extend_match.induct)
  case (1 S off old remaining src)
  have b: "byte_at S (off + (src - old)) = Some (S ! (off + (src - old)))" "byte_at S src = Some (S ! src)"
    using 1(2-) by (simp_all add: byte_at_def)
  show ?case
  proof (cases "S ! (off + (src - old)) = S ! src \<and> src - old < remaining")
    case True
    then have "agree S off old (Suc src - old)" using 1(2-) by (simp add: Suc_diff_le agree_Suc)
    with 1 True b obtain e where "extend_match S off old remaining (Suc src) = Some e"
      "agree S off old (e - old)" "Suc src \<le> e" "e \<le> old + remaining"
      by fastforce
    with True b show ?thesis by (subst extend_match.simps) auto
  next
    case False
    with b 1(2-) show ?thesis by (subst extend_match.simps) auto
  qed
qed

lemma match_end_ok:
  assumes "off < p" "agree S off p 4" "p + 11 \<le> length S"
  shows "\<exists>n. match_end S off p = Some (p + n) \<and> 4 \<le> n \<and> n \<le> 255 \<and> p + n + 4 \<le> length S \<and> agree S off p n"
proof -
  have b: "byte_at S (a + k) = Some (S ! (a + k))" if "a \<le> p" "k \<le> 5" for a k
    using that assms by (simp add: byte_at_def)
  define q where "q = nat (last_byte S - UNCOMPRESSED_END - int (p + 5 - 5) + 1)"
  define remaining where "remaining = (if q > 255 then 255 else q)"
  have q: "q = length S - 4 - p" using assms by (simp add: q_def last_byte_def qlz_consts)
  consider "S ! (off + 4) \<noteq> S ! (p + 4)" | "S ! (off + 4) = S ! (p + 4)" "S ! (off + 5) \<noteq> S ! (p + 5)"
    | "S ! (off + 4) = S ! (p + 4)" "S ! (off + 5) = S ! (p + 5)" by blast
  then show ?thesis
  proof cases
    case 1
    then show ?thesis using assms b [of off 4] b [of p 4] by (intro exI [of _ 4]) (simp add: match_end_def)
  next
    case 2
    then have "agree S off p 5" using assms agree_Suc [of S off p 4] by simp
    with 2 show ?thesis using assms b [of off 4] b [of p 4] b [of off 5] b [of p 5]
      by (intro exI [of _ 5]) (simp add: match_end_def)
  next
    case 3
    then have "agree S off p 6" using assms agree_Suc [of S off p 4] agree_Suc [of S off p 5] by simp
    moreover have r: "6 \<le> remaining" "remaining \<le> 255" "p + remaining + 4 \<le> length S"
      using assms q by (auto simp: remaining_def)
    ultimately obtain e where e: "extend_match S off p remaining (p + 6) = Some e" "agree S off p (e - p)"
        "p + 6 \<le> e" "e \<le> p + remaining"
      using extend_match_ok [of off p S "p + 6" remaining] assms by auto
    then have "match_end S off p = Some e"
      using 3 b [of off 4] b [of p 4] b [of off 5] b [of p 5] assms
      unfolding match_end_def Let_def q_def [symmetric] remaining_def [symmetric] by simp
    with e r show ?thesis by (intro exI [of _ "e - p"]) auto
  qed
qed

lemma same_total: "src + n < length S \<Longrightarrow> \<exists>r. same S src n = Some r"
  by (induction n) (auto simp: byte_at_def)

lemma same_True: "same S src n = Some True \<Longrightarrow> i \<le> n \<Longrightarrow> S ! (src + i) = S ! src"
  by (induction n) (auto simp: byte_at_def Option.bind_eq_Some_conv le_Suc_eq split: if_splits)

section \<open>The table\<close>

definition table_ok :: "u8 list \<Rightarrow> nat set \<Rightarrow> (u32 \<Rightarrow> qlz_hash_compress) \<Rightarrow> bool" where
  "table_ok S P t \<longleftrightarrow> (\<forall>h. hc_offset (t h) \<noteq> 0 \<longrightarrow>
     newest S P h (unat (hc_offset (t h))) \<and> unat (hc_offset (t h)) + 4 \<le> length S \<and>
     hc_cache (t h) = w32 S (unat (hc_offset (t h))))"

lemma table_ok_set:
  assumes "table_ok S P t" "p + 4 \<le> length S" "length S < 2 ^ 32" "\<And>q. q \<in> P \<Longrightarrow> q < p"
  shows "table_ok S (insert p P) (t(hash_of S p := \<lparr>hc_cache = w32 S p, hc_offset = word_of_nat p\<rparr>))"
proof -
  have "unat (word_of_nat p :: u32) = p" using assms by (simp add: unat_of_nat)
  with assms show ?thesis
    by (auto simp: table_ok_def newest_insert_other intro!: newest_insert_same)
qed

text \<open>A position the code accepts as a match is, up to a run of one byte, the one the decompressor
  will find under the same hash.\<close>

lemma newest_restrict: "newest S P h q \<Longrightarrow> q + 3 \<le> p \<Longrightarrow> newest S {s \<in> P. s + 3 \<le> p} h q"
  by (simp add: newest_def)

lemma agree_run:
  assumes "\<And>i. i \<le> 6 \<Longrightarrow> S ! (p - 3 + i) = b" "3 \<le> p" "agree S (p - 1) p n"
  shows "agree S (p - 3) p n"
proof -
  have run: "S ! (p + i) = b" if "i < n" for i
    using that
  proof (induction i)
    case 0
    show ?case using assms(1) [of 3] assms(2) by simp
  next
    case (Suc i)
    then have "S ! (p - 1 + Suc i) = S ! (p + Suc i)" using assms(3) unfolding agree_def by blast
    moreover have "p - 1 + Suc i = p + i" using assms(2) by simp
    ultimately show ?case using Suc by simp
  qed
  have "S ! (p - 3 + i) = b" if "i < n" for i
  proof (cases "i \<le> 6")
    case False
    then have "p - 3 + i = p + (i - 3)" using assms(2) by simp
    with run [of "i - 3"] that show ?thesis by simp
  qed (use assms(1) in simp)
  with run show ?thesis by (simp add: agree_def)
qed

lemma usable_ok:
  assumes t: "table_ok S P t" and e: "entry = t (hash_of S p)" and "off = unat (hc_offset entry)"
    and P: "\<And>q. q \<in> P \<Longrightarrow> q < p" and "p + 11 \<le> length S" and p: "k_src c = p"
    and lits: "\<And>i. i < unat (k_lits c) \<Longrightarrow> i < p \<and> p - 1 - i \<in> P"
    and u: "usable S off (w32 S p XOR hc_cache entry) c = Some True"
  shows "off < p" and "agree S off p 3"
    and "w32 S p XOR hc_cache entry = 0 \<Longrightarrow> agree S off p 4"
    and "agree S off p n \<Longrightarrow> \<exists>q. newest S {s \<in> P. s + 3 \<le> p} (hash_of S p) q \<and> agree S q p n"
proof -
  have o: "(w32 S p XOR hc_cache entry) AND 0xffffff = 0" "hc_offset entry \<noteq> 0"
    using u assms(3) by (auto simp: usable_def split: if_splits)
  then have n: "newest S P (hash_of S p) off" "off + 4 \<le> length S" "hc_cache entry = w32 S off"
    using t assms(3) by (auto simp: table_ok_def e)
  then show less: "off < p" using P by (auto simp: newest_def)
  have "take 3 (drop p S) = take 3 (drop off S)"
    using o(1) n assms(5) by (simp add: xor_low24 w32_low_eq)
  from take_3_nth [OF this] n assms(5) show "agree S off p 3" by (simp add: agree_def)
  show "w32 S p XOR hc_cache entry = 0 \<Longrightarrow> agree S off p 4"
    using n assms(5) w32_eq_nth [of S p off] by (simp add: agree_def xor_0_iff)
  show "\<exists>q. newest S {s \<in> P. s + 3 \<le> p} (hash_of S p) q \<and> agree S q p n" if a: "agree S off p n"
  proof (cases "off + 3 \<le> p")
    case True
    with n(1) a show ?thesis using newest_restrict by blast
  next
    case False
    with u o less have r: "p = off + 1" "3 \<le> k_lits c" "same S (p - 3) 6 = Some True" "3 < p"
      by (auto simp: usable_def MINOFFSET_def p split: if_splits)
    then have run: "S ! (p - 3 + i) = S ! (p - 3)" if "i \<le> 6" for i using same_True that by blast
    have "3 \<le> unat (k_lits c)" using r(2) by (simp add: word_le_nat_alt)
    then have "p - 3 \<in> P" using lits [of 2] by (simp add: numeral_3_eq_3 numeral_2_eq_2)
    moreover have "hash_of S (p - 3) = hash_of S off"
    proof (rule hash_of_eq)
      show "take 3 (drop (p - 3) S) = take 3 (drop off S)"
      proof (rule nth_equalityI)
        fix i
        assume "i < length (take 3 (drop (p - 3) S))"
        then have "i < 3" by simp
        moreover have "off + i = p - 3 + (i + 2)" using r by simp
        ultimately show "take 3 (drop (p - 3) S) ! i = take 3 (drop off S) ! i"
          using run [of i] run [of "i + 2"] assms(5) n(2) by (simp add: ac_simps del: add_2_eq_Suc' add_2_eq_Suc)
      qed (use assms(5) n(2) r in simp)
    qed (use assms(5) r n in auto)
    ultimately have "newest S {s \<in> P. s + 3 \<le> p} (hash_of S p) (p - 3)"
      using n(1) r by (auto simp: newest_def)
    moreover have "agree S (p - 3) p n" using agree_run [of S p "S ! (p - 3)" n] run r a by simp
    ultimately show ?thesis by blast
  qed
qed

lemma usable_total:
  assumes "k_src c + 4 \<le> length S"
  shows "\<exists>r. usable S off cached c = Some r"
  using same_total [of "k_src c - 3" 6 S] assms by (auto simp: usable_def)

section \<open>Control words\<close>

text \<open>While a group is written its control word has a mark at bit \<open>m\<close> and the flags above it.\<close>

definition marked :: "u32 \<Rightarrow> bool list \<Rightarrow> nat \<Rightarrow> bool" where
  "marked w fs m \<longleftrightarrow> m + length fs \<le> 31 \<and>
     (\<forall>i. bit w i \<longleftrightarrow> i = m \<or> (m < i \<and> i \<le> m + length fs \<and> fs ! (i - m - 1)))"

lemma bit_top: "bit (push_bit 31 1 :: u32) i \<longleftrightarrow> i = 31"
  by (auto simp: bit_push_bit_iff bit_1_iff simp del: push_bit_of_1)

lemma marked_bit: "marked w fs m \<Longrightarrow> bit w i \<longleftrightarrow> i = m \<or> (m < i \<and> i \<le> m + length fs \<and> fs ! (i - m - 1))"
  unfolding marked_def by blast

lemma marked_start: "marked (push_bit 31 1) [] 31"
  by (auto simp: marked_def bit_top simp del: push_bit_of_1)

lemma marked_bit0: "marked w fs m \<Longrightarrow> bit w 0 \<longleftrightarrow> m = 0"
  using marked_bit [of w fs m 0] by auto

lemma marked_push:
  assumes "marked w fs (Suc m)" "Suc m + length fs = 31" "w' = (if f then drop_bit 1 w OR push_bit 31 1 else drop_bit 1 w)"
  shows "marked w' (fs @ [f]) m"
proof -
  have d: "bit (drop_bit 1 w) i \<longleftrightarrow> i = m \<or> (m < i \<and> i \<le> m + length fs \<and> fs ! (i - m - 1))" for i
    using marked_bit [OF assms(1), of "Suc i"] by (simp add: bit_drop_bit_eq)
  have w: "bit w' i \<longleftrightarrow> bit (drop_bit 1 w) i \<or> (f \<and> i = 31)" for i
    using assms(3) by (auto simp: bit_or_iff bit_top simp del: push_bit_of_1)
  have fs: "(i \<le> m + Suc (length fs) \<and> (fs @ [f]) ! (i - m - 1)) \<longleftrightarrow>
      (i \<le> m + length fs \<and> fs ! (i - m - 1)) \<or> (f \<and> i = 31)" if "m < i" for i
    using that assms(2) by (cases "i = Suc (m + length fs)") (auto simp: nth_append)
  have "bit w' i \<longleftrightarrow> i = m \<or> (m < i \<and> i \<le> m + length (fs @ [f]) \<and> (fs @ [f]) ! (i - m - 1))" for i
    unfolding w d length_append_singleton using fs [of i] assms(2) by auto
  with assms(2) show ?thesis unfolding marked_def by simp
qed

lemma marked_shift:
  assumes "marked w fs (Suc m)"
  shows "marked (drop_bit 1 w) fs m"
proof -
  have "bit (drop_bit 1 w) i \<longleftrightarrow> i = m \<or> (m < i \<and> i \<le> m + length fs \<and> fs ! (i - m - 1))" for i
    using marked_bit [OF assms, of "Suc i"] by (simp add: bit_drop_bit_eq)
  with assms show ?thesis by (simp add: marked_def)
qed

lemma marked_close:
  assumes "marked w fs 0"
  shows "drop_bit 1 w OR push_bit 31 1 = group_word fs"
proof (rule bit_word_eqI)
  fix i
  have "bit (drop_bit 1 w) i \<longleftrightarrow> i < length fs \<and> fs ! i"
    using marked_bit [OF assms, of "Suc i"] by (simp add: bit_drop_bit_eq Suc_le_eq)
  moreover have "length fs \<le> 31" using assms by (simp add: marked_def)
  ultimately show "bit (drop_bit 1 w OR push_bit 31 1) i \<longleftrightarrow> bit (group_word fs) i"
    unfolding bit_or_iff bit_top bit_group_word [OF \<open>length fs \<le> 31\<close>] by blast
qed

lemma shift_cword_ok: "marked w fs m \<Longrightarrow> \<exists>w'. shift_cword w = Some w' \<and> marked w' fs 0"
proof (induction m arbitrary: w)
  case 0
  then show ?case by (subst shift_cword.simps) (simp add: and_1_bit marked_bit0)
next
  case (Suc m)
  then have "shift_cword w = shift_cword (drop_bit 1 w)"
    by (subst shift_cword.simps) (simp add: and_1_bit marked_bit0)
  with Suc marked_shift show ?case by metis
qed

end
