(* ===== verification/QuickLZWriter.thy ===== *)
theory QuickLZWriter
  imports QuickLZCompress
begin

text \<open>
  The loops of \<open>qlz_compress_core\<close>: the invariant of its local variables (the items written so
  far are right for the text, laid out in the buffer, and in the table), the space the output
  needs, and the result.
\<close>

section \<open>Writing into the buffer\<close>

lemma put_bytes_mid: "length bs \<le> length c \<Longrightarrow> put_bytes (a @ c) (length a) bs = Some (a @ bs @ drop (length bs) c)"
  by (simp add: put_bytes_def)

lemma put_byte_mid: "put_byte (a @ x # c) (length a) b = Some (a @ b # c)"
  by (simp add: put_byte_def)

lemma length_put_bytes: "put_bytes m a bs = Some m' \<Longrightarrow> length m' = length m"
  by (auto simp: put_bytes_def split: if_splits)

lemma length_item_bytes: "length (item_bytes (Copy h n)) = (if n < 18 then 2 else 3)"
  by simp

text \<open>The finished groups, a slot for the open group's control word, and its items.\<close>

definition laid_out :: "item list \<Rightarrow> item list \<Rightarrow> qlz_comp \<Rightarrow> bool" where
  "laid_out done cur c \<longleftrightarrow> 31 dvd length done \<and> length cur \<le> 31 \<and>
     marked (k_cword_val c) (map is_copy cur) (31 - length cur) \<and>
     k_cword_ptr c = length (layout done) \<and> k_dst c = length (layout done) + 4 + length (ibytes cur) \<and>
     (\<exists>slot rest. k_out c = layout done @ slot @ ibytes cur @ rest \<and> length slot = 4)"

lemma laid_out_start:
  assumes "4 \<le> length destination"
  shows "laid_out [] [] (comp_start S fetch destination st)"
proof -
  have "destination = take 4 destination @ drop 4 destination" by simp
  with assms show ?thesis
    unfolding laid_out_def comp_start_def CWORD_LEN_def
    by (intro conjI exI [of _ "take 4 destination"] exI [of _ "drop 4 destination"])
      (simp_all add: marked_start del: push_bit_of_1)
qed

text \<open>An item is added by writing its bytes, with or without bytes that do not count after them.\<close>

lemma laid_out_push:
  assumes "laid_out done cur c" "length cur < 31" "k_dst c + length bs \<le> length (k_out c)"
    and "take (length (item_bytes i)) bs = item_bytes i"
  shows "\<exists>out. put_bytes (k_out c) (k_dst c) bs = Some out \<and> length out = length (k_out c) \<and>
    (\<forall>c'. k_out c' = out \<longrightarrow> k_dst c' = k_dst c + length (item_bytes i) \<longrightarrow> k_cword_ptr c' = k_cword_ptr c \<longrightarrow>
      k_cword_val c' = (if is_copy i then drop_bit 1 (k_cword_val c) OR push_bit 31 1 else drop_bit 1 (k_cword_val c)) \<longrightarrow>
      laid_out done (cur @ [i]) c')"
proof -
  obtain slot rest where o: "k_out c = layout done @ slot @ ibytes cur @ rest" "length slot = 4"
    using assms(1) by (auto simp: laid_out_def)
  define pre where "pre = layout done @ slot @ ibytes cur"
  have d: "k_dst c = length pre" "k_out c = pre @ rest" using assms(1) o by (simp_all add: laid_out_def pre_def)
  then have "length bs \<le> length rest" using assms(3) by simp
  then have p: "put_bytes (k_out c) (k_dst c) bs = Some (pre @ bs @ drop (length bs) rest)"
    unfolding d by (rule put_bytes_mid)
  define out where "out = pre @ bs @ drop (length bs) rest"
  have "item_bytes i @ drop (length (item_bytes i)) bs @ zs = bs @ zs" for zs
    using assms(4) by (metis append_assoc append_take_drop_id)
  then have out: "out = layout done @ slot @ ibytes (cur @ [i]) @ (drop (length (item_bytes i)) bs @ drop (length bs) rest)"
    by (simp add: out_def pre_def)
  have "marked (k_cword_val c) (map is_copy cur) (Suc (31 - length (cur @ [i])))"
    using assms(1,2) by (simp add: laid_out_def Suc_diff_Suc [of "length cur" 31, simplified])
  then have m: "marked w' (map is_copy cur @ [is_copy i]) (31 - length (cur @ [i]))"
    if "w' = (if is_copy i then drop_bit 1 (k_cword_val c) OR push_bit 31 1 else drop_bit 1 (k_cword_val c))" for w'
    by (rule marked_push [OF _ _ that]) (use assms(2) in simp)
  have "laid_out done (cur @ [i]) c'"
    if "k_out c' = out" "k_dst c' = k_dst c + length (item_bytes i)" "k_cword_ptr c' = k_cword_ptr c"
      "k_cword_val c' = (if is_copy i then drop_bit 1 (k_cword_val c) OR push_bit 31 1 else drop_bit 1 (k_cword_val c))" for c'
    using m [OF that(4)] that(1-3) assms(1,2) o(2) out unfolding laid_out_def
    by (intro conjI exI [of _ slot] exI [of _ "drop (length (item_bytes i)) bs @ drop (length bs) rest"]) simp_all
  with p length_put_bytes [OF p] show ?thesis by (auto simp: out_def)
qed

lemma laid_out_full: "laid_out done cur c \<Longrightarrow> k_cword_val c AND 1 = 1 \<longleftrightarrow> length cur = 31"
  by (auto simp: laid_out_def and_1_bit marked_bit0)

lemma close_ok:
  assumes "laid_out done cur c" "marked w (map is_copy cur) 0" "cur \<noteq> []"
  shows "\<exists>rest. close_cword (c\<lparr>k_cword_val := w\<rparr>) = Some (layout (done @ cur) @ rest) \<and>
    length (layout (done @ cur)) = k_dst c \<and> length (layout (done @ cur) @ rest) = length (k_out c)"
proof -
  obtain slot rest where o: "k_out c = layout done @ slot @ ibytes cur @ rest" "length slot = 4"
    using assms(1) by (auto simp: laid_out_def)
  have l: "layout (done @ cur) = layout done @ enc_le 4 (unat (group_word (map is_copy cur))) @ ibytes cur"
    using assms by (simp add: laid_out_def layout_append layout_short)
  have "put_bytes (k_out c) (k_cword_ptr c) (enc_le 4 (unat (group_word (map is_copy cur)))) =
      Some (layout (done @ cur) @ rest)"
    using put_bytes_mid [of "enc_le 4 (unat (group_word (map is_copy cur)))" "slot @ ibytes cur @ rest" "layout done"]
      assms(1) o by (simp add: laid_out_def l)
  moreover have "close_cword (c\<lparr>k_cword_val := w\<rparr>) =
      put_bytes (k_out c) (k_cword_ptr c) (enc_le 4 (unat (group_word (map is_copy cur))))"
    using marked_close [OF assms(2)] by (simp add: close_cword_def fast_write_def CWORD_LEN_def)
  ultimately show ?thesis using assms(1) o l by (simp add: laid_out_def)
qed

lemma next_cword_ok:
  assumes "laid_out done cur c" "length cur = 31" "k_dst c + 4 \<le> length (k_out c)"
  shows "\<exists>out. next_cword c = Some (c\<lparr>k_out := out, k_cword_ptr := k_dst c, k_dst := k_dst c + 4, k_cword_val := push_bit 31 1\<rparr>) \<and>
    length out = length (k_out c) \<and>
    laid_out (done @ cur) [] (c\<lparr>k_out := out, k_cword_ptr := k_dst c, k_dst := k_dst c + 4, k_cword_val := push_bit 31 1\<rparr>)"
proof -
  have "marked (k_cword_val c) (map is_copy cur) 0" "cur \<noteq> []" using assms by (auto simp: laid_out_def)
  from close_ok [OF assms(1) this] obtain rest where r: "close_cword c = Some (layout (done @ cur) @ rest)"
    "length (layout (done @ cur)) = k_dst c" "length (layout (done @ cur) @ rest) = length (k_out c)" by auto
  then have "4 \<le> length rest" using assms(3) by simp
  then have "layout (done @ cur) @ rest = layout (done @ cur) @ take 4 rest @ ibytes [] @ drop 4 rest"
      "length (take 4 rest) = 4" by simp_all
  with r(2) assms(1,2) have "laid_out (done @ cur) [] (c\<lparr>k_out := layout (done @ cur) @ rest, k_cword_ptr := k_dst c,
      k_dst := k_dst c + 4, k_cword_val := push_bit 31 1\<rparr>)"
    unfolding laid_out_def
    by (intro conjI exI [of _ "take 4 rest"] exI [of _ "drop 4 rest"]) (simp_all add: marked_start del: push_bit_of_1)
  with r show ?thesis
    by (intro exI [of _ "layout (done @ cur) @ rest"]) (simp add: next_cword_def CWORD_LEN_def)
qed

text \<open>The output is at most four bytes per group longer than what it stands for.\<close>

lemma layout_le: "items_ok S pre is \<Longrightarrow> length (layout is) \<le> ilen is + 4 * ((length is + 30) div 31)"
proof (induction "is" arbitrary: pre rule: layout.induct)
  case (1 "is")
  show ?case
  proof (cases "is = []")
    case False
    have "items_ok S pre (take 31 is @ drop 31 is)" using 1(2) by simp
    then have s: "items_ok S pre (take 31 is)" "items_ok S (pre @ take 31 is) (drop 31 is)"
      unfolding items_ok_append by blast+
    have "ilen is = ilen (take 31 is) + ilen (drop 31 is)" by (metis append_take_drop_id ilen_simps(3))
    moreover have "length (ibytes (take 31 is)) \<le> ilen (take 31 is)" using items_bytes_le [OF s(1)] by blast
    moreover have "length (layout (drop 31 is)) \<le> ilen (drop 31 is) + 4 * ((length is - 31 + 30) div 31)"
      using 1(1) [OF False s(2)] by simp
    moreover have "(length is - 31 + 30) div 31 + 1 \<le> (length is + 30) div 31"
    proof (cases "length is < 31")
      case True
      then show ?thesis using False by (cases "length is") (auto simp: div_le_dividend Suc_le_eq intro!: div_greater_zero_iff [THEN iffD2])
    next
      case f: False
      then have "length is - 31 + 30 + 31 = length is + 30" by simp
      then show ?thesis by (metis div_add_self2 le_refl zero_neq_numeral)
    qed
    ultimately show ?thesis by (subst layout.simps) (simp add: False)
  qed simp
qed

section \<open>One item\<close>

definition comp_inv :: "u8 list \<Rightarrow> item list \<Rightarrow> item list \<Rightarrow> qlz_comp \<Rightarrow> bool" where
  "comp_inv S done cur c \<longleftrightarrow> laid_out done cur c \<and> items_ok S [] (done @ cur) \<and>
     k_src c = ilen (done @ cur) \<and> k_src c \<le> length S \<and> length S + 391 \<le> length (k_out c)"

definition search_inv :: "u8 list \<Rightarrow> item list \<Rightarrow> qlz_comp \<Rightarrow> bool" where
  "search_inv S is c \<longleftrightarrow> table_ok S (starts is) (qc_hash (k_state c)) \<and>
     (\<forall>i < unat (k_lits c). i < k_src c \<and> k_src c - 1 - i \<in> starts is) \<and>
     (k_src c + 11 \<le> length S \<longrightarrow> k_fetch c = w32 S (k_src c))"

lemma starts_below: "items_ok S [] is \<Longrightarrow> s \<in> starts is \<Longrightarrow> s < ilen is"
  using starts_less [of S "[]" "is" s] by simp

text \<open>Everything an item leaves behind, but for the fetched word and the count of literals.\<close>

lemma item_written:
  assumes "comp_inv S done cur c" "length cur < 31" "item_ok S (done @ cur) i"
    and "k_dst c + length bs \<le> length (k_out c)" "take (length (item_bytes i)) bs = item_bytes i"
  shows "\<exists>out. put_bytes (k_out c) (k_dst c) bs = Some out \<and>
    (\<forall>c'. k_out c' = out \<longrightarrow> k_dst c' = k_dst c + length (item_bytes i) \<longrightarrow> k_cword_ptr c' = k_cword_ptr c \<longrightarrow>
      k_cword_val c' = (if is_copy i then drop_bit 1 (k_cword_val c) OR push_bit 31 1 else drop_bit 1 (k_cword_val c)) \<longrightarrow>
      k_src c' = k_src c + item_len i \<longrightarrow> comp_inv S done (cur @ [i]) c')"
proof -
  from laid_out_push [OF _ assms(2,4,5)] assms(1) obtain out where
    "put_bytes (k_out c) (k_dst c) bs = Some out" "length out = length (k_out c)"
    "\<And>c'. k_out c' = out \<Longrightarrow> k_dst c' = k_dst c + length (item_bytes i) \<Longrightarrow> k_cword_ptr c' = k_cword_ptr c \<Longrightarrow>
      k_cword_val c' = (if is_copy i then drop_bit 1 (k_cword_val c) OR push_bit 31 1 else drop_bit 1 (k_cword_val c)) \<Longrightarrow>
      laid_out done (cur @ [i]) c'"
    unfolding comp_inv_def by blast
  moreover have "items_ok S [] (done @ cur @ [i])"
    using assms(1,3) items_ok_append [of S "[]" "done @ cur" "[i]"] by (simp add: comp_inv_def)
  moreover have "k_src c + item_len i \<le> length S" using item_ok_len [OF assms(3)] assms(1) by (simp add: comp_inv_def)
  ultimately show ?thesis using assms(1) by (simp add: comp_inv_def)
qed

lemma put_byte_bytes: "put_byte m a b = put_bytes m a [b]"
  by (auto simp: put_byte_def put_bytes_def upd_conv_take_nth_drop)

lemma write_match_bytes:
  "write_match h n out dst =
     map_option (\<lambda>out. (out, dst + length (item_bytes (Copy h n))))
       (put_bytes out dst (enc_le (if n < 18 then 2 else 4) (unat (copy_code h n))))"
  by (cases "put_bytes out dst (enc_le (if n < 18 then 2 else 4) (unat (copy_code h n)))")
    (auto simp: write_match_def fast_write_def copy_code_def split: if_splits)

lemma hash_of_bound: "unat (hash_of S p) < 4096"
proof -
  have "hash_of S p = take_bit 12 (hash_of S p)"
    by (rule bit_word_eqI) (auto simp: hash_of_def bit_hash_func bit_take_bit_iff)
  then have "unat (hash_of S p) = take_bit 12 (unat (hash_of S p))" by (metis unsigned_take_bit_eq)
  then show ?thesis using take_bit_nat_less_exp [of 12 "unat (hash_of S p)"] by simp
qed

lemma compress_literal_ok:
  assumes c: "comp_inv S done cur c" "length cur < 31" "k_src c + 11 \<le> length S" "k_dst c + 4 \<le> length (k_out c)"
    and t: "table_ok S (insert (k_src c) (starts (done @ cur))) (qc_hash (k_state c))"
    and l: "\<And>i. i < unat (k_lits c) \<Longrightarrow> i < k_src c \<and> k_src c - 1 - i \<in> starts (done @ cur)"
  shows "\<exists>c'. compress_literal S c = Some c' \<and> comp_inv S done (cur @ [Lit (S ! k_src c)]) c' \<and>
    search_inv S (done @ cur @ [Lit (S ! k_src c)]) c' \<and> k_dst c' = k_dst c + 1 \<and> k_src c' = k_src c + 1"
proof -
  have p: "k_src c = ilen (done @ cur)" using c(1) by (simp add: comp_inv_def)
  from item_written [OF c(1,2), of "Lit (S ! k_src c)" "[S ! k_src c]"] c(3,4) p obtain out where
    "put_byte (k_out c) (k_dst c) (S ! k_src c) = Some out"
    and out: "\<And>c'. k_out c' = out \<Longrightarrow> k_dst c' = k_dst c + 1 \<Longrightarrow> k_cword_ptr c' = k_cword_ptr c \<Longrightarrow>
      k_cword_val c' = drop_bit 1 (k_cword_val c) \<Longrightarrow> k_src c' = k_src c + 1 \<Longrightarrow>
      comp_inv S done (cur @ [Lit (S ! k_src c)]) c'"
    by (auto simp: put_byte_bytes)
  moreover define c' where "c' = c\<lparr>k_lits := k_lits c + 1, k_out := out, k_src := k_src c + 1, k_dst := k_dst c + 1,
      k_cword_val := drop_bit 1 (k_cword_val c), k_fetch := w32 S (k_src c + 1)\<rparr>"
  ultimately have "compress_literal S c = Some c'"
    using c(3) by (simp add: compress_literal_def byte_at_def)
  moreover have "comp_inv S done (cur @ [Lit (S ! k_src c)]) c'" by (rule out) (simp_all add: c'_def)
  moreover have "i < k_src c + 1 \<and> k_src c - i \<in> insert (k_src c) (starts (done @ cur))"
    if "i < unat (k_lits c + 1)" for i
  proof (cases i)
    case (Suc j)
    have "unat (k_lits c + 1) \<le> unat (k_lits c) + 1" by (simp add: unat_word_ariths)
    with l [of j] Suc that show ?thesis by auto
  qed simp
  moreover have "starts (done @ cur @ [Lit (S ! k_src c)]) = insert (k_src c) (starts (done @ cur))"
    using starts_snoc [of "done @ cur"] p by simp
  ultimately show ?thesis using t by (intro exI [of _ c']) (simp add: search_inv_def c'_def)
qed

lemma compress_match_ok:
  assumes c: "comp_inv S done cur c" "length cur < 31" "k_src c + 11 \<le> length S" "k_dst c + 4 \<le> length (k_out c)"
    and t: "table_ok S (insert (k_src c) (starts (done @ cur))) (qc_hash (k_state c))"
    and off: "off < k_src c" "agree S off (k_src c) 3" "cached = 0 \<Longrightarrow> agree S off (k_src c) 4"
    and q: "\<And>n. agree S off (k_src c) n \<Longrightarrow>
      \<exists>q. newest S {s \<in> starts (done @ cur). s + 3 \<le> k_src c} (hash_of S (k_src c)) q \<and> agree S q (k_src c) n"
  shows "\<exists>i c'. compress_match S off (hash_of S (k_src c)) cached c = Some c' \<and> comp_inv S done (cur @ [i]) c' \<and>
    search_inv S (done @ cur @ [i]) c' \<and> k_dst c' \<le> k_dst c + 3 \<and> k_dst c' + k_src c \<le> k_dst c + k_src c'"
proof -
  let ?h = "hash_of S (k_src c)" and ?p = "k_src c"
  have p: "?p = ilen (done @ cur)" using c(1) by (simp add: comp_inv_def)
  obtain n where n: "(if cached \<noteq> 0 then Some (?p + 3) else match_end S off ?p) = Some (?p + n)"
    "3 \<le> n" "n \<le> 255" "?p + n + 4 \<le> length S" "agree S off ?p n"
  proof (cases "cached = 0")
    case True
    with match_end_ok [OF off(1) off(3) c(3)] that show ?thesis by auto
  qed (use off(2) c(3) that in auto)
  have "item_ok S (done @ cur) (Copy ?h n)"
    using n(2-5) c(3) q [of n] hash_of_bound [of S ?p] p by auto
  moreover define bs where "bs = enc_le (if n < 18 then 2 else 4) (unat (copy_code ?h n))"
  moreover have "k_dst c + length bs \<le> length (k_out c)" "take (length (item_bytes (Copy ?h n))) bs = item_bytes (Copy ?h n)"
    using c(4) by (auto simp: bs_def take_enc_le_bytes)
  ultimately obtain out where w: "write_match ?h n (k_out c) (k_dst c) = Some (out, k_dst c + length (item_bytes (Copy ?h n)))"
    and out: "\<And>c'. k_out c' = out \<Longrightarrow> k_dst c' = k_dst c + length (item_bytes (Copy ?h n)) \<Longrightarrow> k_cword_ptr c' = k_cword_ptr c \<Longrightarrow>
      k_cword_val c' = drop_bit 1 (k_cword_val c) OR push_bit 31 1 \<Longrightarrow> k_src c' = ?p + n \<Longrightarrow>
      comp_inv S done (cur @ [Copy ?h n]) c'"
    using item_written [OF c(1,2), of "Copy ?h n" bs] unfolding write_match_bytes by auto
  define c' where "c' = c\<lparr>k_cword_val := drop_bit 1 (k_cword_val c) OR push_bit 31 1, k_out := out,
      k_dst := k_dst c + length (item_bytes (Copy ?h n)), k_src := ?p + n, k_fetch := w32 S (?p + n), k_lits := 0\<rparr>"
  have "compress_match S off ?h cached c = Some c'"
    using n w by (simp add: compress_match_def c'_def split del: if_split)
  moreover have "comp_inv S done (cur @ [Copy ?h n]) c'" by (rule out) (simp_all add: c'_def)
  moreover have "starts (done @ cur @ [Copy ?h n]) = insert ?p (starts (done @ cur))"
    using starts_snoc [of "done @ cur"] p by simp
  ultimately show ?thesis using t n(2)
    by (intro exI [of _ "Copy ?h n"] exI [of _ c']) (simp add: search_inv_def c'_def)
qed

lemma compress_item_ok:
  assumes c: "comp_inv S done cur c" "search_inv S (done @ cur) c" "length cur < 31"
    and "k_src c + 11 \<le> length S" "k_dst c + 4 \<le> length (k_out c)" "length S < 2 ^ 32"
  shows "\<exists>i c'. compress_item S c = Some c' \<and> comp_inv S done (cur @ [i]) c' \<and>
    search_inv S (done @ cur @ [i]) c' \<and> k_dst c' \<le> k_dst c + 3 \<and> k_dst c' + k_src c \<le> k_dst c + k_src c'"
proof -
  let ?p = "k_src c" and ?P = "starts (done @ cur)"
  define entry where "entry = qc_hash (k_state c) (hash_of S ?p)"
  define off where "off = unat (hc_offset entry)"
  define cached where "cached = w32 S ?p XOR hc_cache entry"
  define c1 where "c1 = c\<lparr>k_state := set_entry (hash_of S ?p) (w32 S ?p) ?p (k_state c)\<rparr>"
  have f: "k_fetch c = w32 S ?p" using c(2) assms(4) by (simp add: search_inv_def)
  have e: "compress_item S c = usable S off cached c1 \<bind>
      (\<lambda>m. if m then compress_match S off (hash_of S ?p) cached c1 else compress_literal S c1)"
    unfolding compress_item_def Let_def f hash_of_def [symmetric] entry_def [symmetric] off_def [symmetric]
      cached_def [symmetric] c1_def [symmetric] ..
  have P: "\<And>q. q \<in> ?P \<Longrightarrow> q < ?p" using c(1) starts_below [of S "done @ cur"] by (simp add: comp_inv_def)
  have c1: "k_src c1 = ?p" "k_dst c1 = k_dst c" "k_out c1 = k_out c" "k_lits c1 = k_lits c"
    "comp_inv S done cur c1" using c(1) by (simp_all add: c1_def comp_inv_def laid_out_def)
  have t0: "table_ok S ?P (qc_hash (k_state c))" using c(2) by (simp add: search_inv_def)
  have t1: "table_ok S (insert ?p ?P) (qc_hash (k_state c1))"
    using table_ok_set [OF t0, of ?p] P assms(4,6) by (simp add: c1_def set_entry_def)
  have l: "\<And>i. i < unat (k_lits c1) \<Longrightarrow> i < ?p \<and> ?p - 1 - i \<in> ?P" using c(2) c1(4) by (simp add: search_inv_def)
  obtain m where m: "usable S off cached c1 = Some m" using usable_total [of c1 S] assms(4) c1(1) by fastforce
  show ?thesis
  proof (cases m)
    case True
    have "usable S off (w32 S ?p XOR hc_cache entry) c1 = Some True" using m True by (simp add: cached_def)
    note u = usable_ok [OF t0 entry_def off_def P assms(4) c1(1) l this]
    have "\<exists>i c'. compress_match S off (hash_of S (k_src c1)) cached c1 = Some c' \<and> comp_inv S done (cur @ [i]) c' \<and>
        search_inv S (done @ cur @ [i]) c' \<and> k_dst c' \<le> k_dst c1 + 3 \<and> k_dst c' + k_src c1 \<le> k_dst c1 + k_src c'"
      by (rule compress_match_ok) (use c1 c(3) assms(4,5) t1 u in \<open>simp_all add: cached_def\<close>)
    with c1(1,2) e m True show ?thesis by simp
  next
    case False
    from compress_literal_ok [OF c1(5) c(3), unfolded c1, OF assms(4,5) t1 l [unfolded c1]] e m False c1
    show ?thesis by auto
  qed
qed

section \<open>The loops\<close>

text \<open>The output stays close to the input: past the middle the ratio test keeps it so, and up to
  there a group adds at most 4 bytes to 31, the open one 3 bytes an item.\<close>

definition room :: "u8 list \<Rightarrow> item list \<Rightarrow> qlz_comp \<Rightarrow> bool" where
  "room S cur c \<longleftrightarrow> k_dst c \<le> k_src c + 4 \<or> 62 * k_dst c \<le> 248 + 35 * length S + 186 * length cur"

lemma room_dst: "room S cur c \<Longrightarrow> k_src c \<le> length S \<Longrightarrow> length cur \<le> 31 \<Longrightarrow> k_dst c \<le> length S + 97"
  by (auto simp: room_def)

lemma room_next:
  assumes "comp_inv S done cur c" "length cur = 31" "\<not> ratio_too_low S c"
  shows "k_dst c \<le> k_src c \<or> 62 * k_dst c \<le> 35 * length S"
proof (cases "k_src c > length S div 2")
  case True
  with assms(3) have "k_dst c \<le> k_src c - k_src c div 32" by (simp add: ratio_too_low_def)
  also have "\<dots> \<le> k_src c" by (rule diff_le_self)
  finally show ?thesis ..
next
  case False
  have i: "items_ok S [] (done @ cur)" "31 dvd length (done @ cur)" "k_src c = ilen (done @ cur)"
    using assms(1,2) by (auto simp: comp_inv_def laid_out_def)
  have "length (layout (done @ cur)) = k_dst c"
  proof -
    have "cur \<noteq> []" using assms(2) by auto
    then show ?thesis
      using assms(1,2) layout_append [of "done" cur] layout_short [of cur] by (simp add: comp_inv_def laid_out_def)
  qed
  then have "k_dst c \<le> k_src c + 4 * ((length (done @ cur) + 30) div 31)"
    using layout_le [OF i(1)] i(3) by simp
  also have "(length (done @ cur) + 30) div 31 = length (done @ cur) div 31"
    using i(2) by (auto elim!: dvdE)
  finally have "31 * k_dst c \<le> 31 * k_src c + 4 * length (done @ cur)" using i(2) by (auto elim!: dvdE)
  moreover have "length (done @ cur) \<le> k_src c" using items_bytes_le [OF i(1)] i(3) by simp
  moreover have "2 * k_src c \<le> length S" using False by presburger
  ultimately show ?thesis by (intro disjI2) simp
qed

lemma compress_step_ok:
  assumes "comp_inv S done cur c" "search_inv S (done @ cur) c" "room S cur c"
    and p: "k_src c + 11 \<le> length S" "length S < 2 ^ 32"
    and "\<not> (k_cword_val c AND 1 = 1 \<and> ratio_too_low S c)"
  shows "\<exists>done' cur' c'. compress_step S c = Some c' \<and> comp_inv S done' cur' c' \<and>
    search_inv S (done' @ cur') c' \<and> room S cur' c' \<and> cur' \<noteq> []"
proof -
  have l: "laid_out done cur c" "length cur \<le> 31" "length S + 391 \<le> length (k_out c)" "k_src c \<le> length S"
    using assms(1) by (auto simp: comp_inv_def laid_out_def)
  have d: "k_dst c \<le> length S + 97" using room_dst [OF assms(3) l(4,2)] .
  show ?thesis
  proof (cases "length cur = 31")
    case True
    with assms(6) have r: "k_dst c \<le> k_src c \<or> 62 * k_dst c \<le> 35 * length S"
      using room_next [OF assms(1) True] laid_out_full [OF l(1)] by blast
    obtain out where n: "next_cword c = Some (c\<lparr>k_out := out, k_cword_ptr := k_dst c, k_dst := k_dst c + 4, k_cword_val := push_bit 31 1\<rparr>)"
      "length out = length (k_out c)"
      "laid_out (done @ cur) [] (c\<lparr>k_out := out, k_cword_ptr := k_dst c, k_dst := k_dst c + 4, k_cword_val := push_bit 31 1\<rparr>)"
      using next_cword_ok [OF l(1) True] d l(3) by auto
    define c1 where "c1 = c\<lparr>k_out := out, k_cword_ptr := k_dst c, k_dst := k_dst c + 4, k_cword_val := push_bit 31 1,
      k_fetch := w32 S (k_src c)\<rparr>"
    have "compress_step S c = compress_item S c1"
      using n(1) p(1) True laid_out_full [OF l(1)] by (simp add: compress_step_def c1_def)
    moreover have c1: "comp_inv S (done @ cur) [] c1" "search_inv S ((done @ cur) @ []) c1"
      using assms(1,2) n(2,3) by (simp_all add: comp_inv_def search_inv_def c1_def laid_out_def)
    from compress_item_ok [OF this _ _ _ p(2)] p(1) d l(3) n(2) obtain i c' where
      "compress_item S c1 = Some c'" "comp_inv S (done @ cur) ([] @ [i]) c'" "search_inv S ((done @ cur) @ [] @ [i]) c'"
      "k_dst c' \<le> k_dst c1 + 3" "k_dst c' + k_src c1 \<le> k_dst c1 + k_src c'"
      by (fastforce simp: c1_def)
    moreover from this(4,5) r have "room S [i] c'" by (auto simp: room_def c1_def)
    ultimately show ?thesis by (intro exI [of _ "done @ cur"] exI [of _ "[i]"] exI [of _ c']) simp
  next
    case False
    then have "compress_step S c = compress_item S c"
      using laid_out_full [OF l(1)] by (simp add: compress_step_def)
    moreover from compress_item_ok [OF assms(1,2) _ p(1) _ p(2)] False d l(2,3) obtain i c' where
      "compress_item S c = Some c'" "comp_inv S done (cur @ [i]) c'" "search_inv S (done @ cur @ [i]) c'"
      "k_dst c' \<le> k_dst c + 3" "k_dst c' + k_src c \<le> k_dst c + k_src c'" by force
    moreover from this(4,5) assms(3) have "room S (cur @ [i]) c'" by (auto simp: room_def)
    ultimately show ?thesis by (intro exI [of _ "done"] exI [of _ "cur @ [i]"] exI [of _ c']) simp
  qed
qed

lemma compress_loop_ok:
  assumes "comp_inv S done cur c" "search_inv S (done @ cur) c" "room S cur c" "length S < 2 ^ 32" "cur = [] \<longrightarrow> done = []"
  shows "\<exists>go done' cur' c'. compress_loop S c = Some (go, c') \<and> comp_inv S done' cur' c' \<and> room S cur' c' \<and>
    (cur' = [] \<longrightarrow> done' = []) \<and> (go \<longrightarrow> length S < k_src c' + 11) \<and>
    (\<not> go \<longrightarrow> 11 \<le> length S)"
  using assms
proof (induction S c arbitrary: "done" cur rule: compress_loop.induct)
  case (1 S c)
  have lm: "int (k_src c) \<le> last_matchstart S \<longleftrightarrow> k_src c + 11 \<le> length S"
    by (auto simp: last_matchstart_def last_byte_def qlz_consts)
  consider "k_src c + 11 > length S" | "k_src c + 11 \<le> length S" "k_cword_val c AND 1 = 1 \<and> ratio_too_low S c"
    | "k_src c + 11 \<le> length S" "\<not> (k_cword_val c AND 1 = 1 \<and> ratio_too_low S c)" by linarith
  then show ?case
  proof cases
    case 3
    then obtain done' cur' c' where s: "compress_step S c = Some c'" "comp_inv S done' cur' c'"
      "search_inv S (done' @ cur') c'" "room S cur' c'" "cur' \<noteq> []"
      using compress_step_ok [OF "1.prems"(1-3) _ "1.prems"(4)] by blast
    have "compress_loop S c = compress_loop S c'"
      using 3 s(1) lm by (subst compress_loop.simps) auto
    with "1.IH" [of c' done' cur'] 3 s "1.prems"(4) lm show ?thesis by simp
  qed (use "1.prems" lm in \<open>subst compress_loop.simps; fastforce\<close>)+
qed

lemma tail_step_ok:
  assumes "comp_inv S done cur c" "k_src c < length S" "k_dst c + 5 * (length S - k_src c) \<le> length S + 200"
  shows "\<exists>done' cur' c'. tail_step S c = Some c' \<and> comp_inv S done' cur' c' \<and> cur' \<noteq> [] \<and>
    k_src c' = k_src c + 1 \<and> k_dst c' + 5 * (length S - k_src c') \<le> length S + 200"
proof -
  have l: "laid_out done cur c" "length cur \<le> 31" "length S + 391 \<le> length (k_out c)"
    using assms(1) by (auto simp: comp_inv_def laid_out_def)
  obtain done1 cur1 c1 where c1: "(if k_cword_val c AND 1 = 1 then next_cword c else Some c) = Some c1"
    "comp_inv S done1 cur1 c1" "length cur1 < 31" "k_src c1 = k_src c" "k_dst c1 \<le> k_dst c + 4"
  proof (cases "length cur = 31")
    case True
    from next_cword_ok [OF l(1) True] assms l(3) obtain out where
      "next_cword c = Some (c\<lparr>k_out := out, k_cword_ptr := k_dst c, k_dst := k_dst c + 4, k_cword_val := push_bit 31 1\<rparr>)"
      "length out = length (k_out c)"
      "laid_out (done @ cur) [] (c\<lparr>k_out := out, k_cword_ptr := k_dst c, k_dst := k_dst c + 4, k_cword_val := push_bit 31 1\<rparr>)"
      by auto
    with True assms(1) laid_out_full [OF l(1)] show ?thesis
      by (intro that [of "c\<lparr>k_out := out, k_cword_ptr := k_dst c, k_dst := k_dst c + 4, k_cword_val := push_bit 31 1\<rparr>" "done @ cur" "[]"])
        (simp_all add: comp_inv_def del: push_bit_of_1)
  next
    case False
    with assms(1) laid_out_full [OF l(1)] l(2) show ?thesis by (intro that [of c "done" cur]) auto
  qed
  have o: "item_ok S (done1 @ cur1) (Lit (S ! k_src c))" "length S + 391 \<le> length (k_out c1)"
    using c1(2,4) assms(2) by (auto simp: comp_inv_def)
  obtain st where st: "(if int (k_src c1) \<le> last_byte S - 3
      then fast_read S (k_src c1) 3 \<bind> (\<lambda>fetch. Some (set_entry (hash_func fetch) fetch (k_src c1) (k_state c1)))
      else Some (k_state c1)) = Some st"
    by (cases "int (k_src c1) \<le> last_byte S - 3") (auto simp: last_byte_def)
  from item_written [OF c1(2,3) o(1), of "[S ! k_src c]"] c1(4,5) o(2) assms(2,3) obtain out where
    w: "put_byte (k_out c1) (k_dst c1) (S ! k_src c) = Some out"
    and out: "\<And>c'. k_out c' = out \<Longrightarrow> k_dst c' = k_dst c1 + 1 \<Longrightarrow> k_cword_ptr c' = k_cword_ptr c1 \<Longrightarrow>
      k_cword_val c' = drop_bit 1 (k_cword_val c1) \<Longrightarrow> k_src c' = k_src c1 + 1 \<Longrightarrow>
      comp_inv S done1 (cur1 @ [Lit (S ! k_src c)]) c'"
    by (auto simp: put_byte_bytes)
  define c' where "c' = c1\<lparr>k_state := st, k_out := out, k_src := k_src c1 + 1, k_dst := k_dst c1 + 1,
    k_cword_val := drop_bit 1 (k_cword_val c1)\<rparr>"
  have "tail_step S c = Some c'"
    unfolding tail_step_def c1(1) bind.bind_lunit st using w c1(4) assms(2) by (simp add: byte_at_def c'_def)
  moreover have "comp_inv S done1 (cur1 @ [Lit (S ! k_src c)]) c'" by (rule out) (simp_all add: c'_def)
  ultimately show ?thesis using c1(4,5) assms(2,3)
    by (intro exI [of _ done1] exI [of _ "cur1 @ [Lit (S ! k_src c)]"] exI [of _ c']) (simp add: c'_def)
qed

lemma tail_loop_ok:
  assumes "comp_inv S done cur c" "k_dst c + 5 * (length S - k_src c) \<le> length S + 200" "cur = [] \<longrightarrow> done = []"
  shows "\<exists>done' cur' c'. tail_loop S c = Some c' \<and> comp_inv S done' cur' c' \<and> (cur' = [] \<longrightarrow> done' = []) \<and>
    k_src c' = length S \<and> k_dst c' \<le> length S + 200"
  using assms
proof (induction S c arbitrary: "done" cur rule: tail_loop.induct)
  case (1 S c)
  have lb: "int (k_src c) \<le> last_byte S \<longleftrightarrow> k_src c < length S" by (auto simp: last_byte_def)
  show ?case
  proof (cases "k_src c < length S")
    case True
    from tail_step_ok [OF "1.prems"(1) True "1.prems"(2)] obtain done' cur' c' where
      s: "tail_step S c = Some c'" "comp_inv S done' cur' c'" "cur' \<noteq> []"
        "k_dst c' + 5 * (length S - k_src c') \<le> length S + 200" by blast
    have "tail_loop S c = tail_loop S c'" using True s(1) lb by (subst tail_loop.simps) simp
    with "1.IH" [of c' done' cur'] True s lb show ?thesis by simp
  next
    case False
    then have "k_src c = length S" using "1.prems"(1) by (simp add: comp_inv_def)
    with "1.prems" lb show ?thesis by (subst tail_loop.simps) auto
  qed
qed

section \<open>The result\<close>

lemma compress_core_ok:
  assumes "S \<noteq> []" "length S < 2 ^ 32" "length S + 391 \<le> length destination" "\<And>h. hc_offset (qc_hash st h) = 0"
  shows "\<exists>n out st'. qlz_compress_core S destination st = Some (n, out, st') \<and> length S + 391 \<le> length out \<and>
    (n = 0 \<and> 11 \<le> length S \<or> (\<exists>is. items_ok S [] is \<and> ilen is = length S \<and> n = max 9 (length (layout is)) \<and>
       take (length (layout is)) out = layout is \<and> length (layout is) \<le> length S + 200))"
proof -
  obtain fetch where f: "(if 0 \<le> last_matchstart S then fast_read S 0 3 else Some 0) = Some fetch"
    "11 \<le> length S \<longrightarrow> fetch = w32 S 0"
    by (cases "11 \<le> length S") (auto simp: last_matchstart_def last_byte_def qlz_consts)
  let ?c = "comp_start S fetch destination st"
  have "comp_inv S [] [] ?c" "search_inv S ([] @ []) ?c" "room S [] ?c"
    using assms f(2) laid_out_start [of destination S fetch st]
    by (auto simp: comp_inv_def search_inv_def room_def comp_start_def CWORD_LEN_def table_ok_def)
  from compress_loop_ok [OF this assms(2)] obtain go done1 cur1 c1 where
    l: "compress_loop S ?c = Some (go, c1)" "comp_inv S done1 cur1 c1" "room S cur1 c1" "cur1 = [] \<longrightarrow> done1 = []"
      "go \<longrightarrow> length S < k_src c1 + 11" "\<not> go \<longrightarrow> 11 \<le> length S" by auto
  have o: "length S + 391 \<le> length (k_out c1)" "k_src c1 \<le> length S" "length cur1 \<le> 31"
    using l(2) by (auto simp: comp_inv_def laid_out_def)
  show ?thesis
  proof (cases go)
    case False
    with f(1) l(1,6) o show ?thesis by (simp add: qlz_compress_core_def)
  next
    case True
    with l(5) room_dst [OF l(3) o(2,3)] have "k_dst c1 + 5 * (length S - k_src c1) \<le> length S + 200" by simp
    from tail_loop_ok [OF l(2) this l(4)] obtain done2 cur2 c2 where
      t: "tail_loop S c1 = Some c2" "comp_inv S done2 cur2 c2" "cur2 = [] \<longrightarrow> done2 = []" "k_src c2 = length S"
        "k_dst c2 \<le> length S + 200" by blast
    then have i: "laid_out done2 cur2 c2" "items_ok S [] (done2 @ cur2)" "ilen (done2 @ cur2) = length S" "cur2 \<noteq> []"
      using assms(1) by (auto simp: comp_inv_def)
    then obtain w where w: "shift_cword (k_cword_val c2) = Some w" "marked w (map is_copy cur2) 0"
      using shift_cword_ok unfolding laid_out_def by blast
    from close_ok [OF i(1) w(2) i(4)] obtain rest where
      c: "close_cword (c2\<lparr>k_cword_val := w\<rparr>) = Some (layout (done2 @ cur2) @ rest)"
        "length (layout (done2 @ cur2)) = k_dst c2" "length (layout (done2 @ cur2) @ rest) = length (k_out c2)" by blast
    have "qlz_compress_core S destination st =
        Some (if k_dst c2 < 9 then 9 else k_dst c2, layout (done2 @ cur2) @ rest, k_state c2)"
      using f(1) l(1) True t(1) w(1) c(1) by (simp add: qlz_compress_core_def)
    moreover have "length S + 391 \<le> length (layout (done2 @ cur2) @ rest)"
      using c(3) t(2) by (simp add: comp_inv_def)
    ultimately show ?thesis using i(2,3) c(2) t(5)
      by (auto intro!: exI [of _ "done2 @ cur2"])
  qed
qed

end
