(* ===== verification/QuickLZReader.thy ===== *)
theory QuickLZReader
  imports QuickLZFormat
begin

text \<open>
  What \<open>qlz_decompress_core\<close> makes of a layout of items that is right for a text: the text, with
  every access inside its memory, however its table and the destination were before.
\<close>

section \<open>Copying\<close>

definition holds :: "u8 list \<Rightarrow> u8 list \<Rightarrow> nat \<Rightarrow> bool" where
  "holds m S n \<longleftrightarrow> n \<le> length m \<and> n \<le> length S \<and> (\<forall>i < n. m ! i = S ! i)"

lemma take_4_nth: "a + 4 \<le> length m \<Longrightarrow> i < 4 \<Longrightarrow> enc_le 4 (unat (w32 m a)) ! i = m ! (a + i)"
proof -
  assume a: "a + 4 \<le> length m" "i < 4"
  have "dec_le (take 4 (drop a m)) < 2 ^ 32" using dec_le_bound [of "take 4 (drop a m)"] a by (simp add: min_absorb2)
  then have "unat (w32 m a) = dec_le (take 4 (drop a m))" by (simp add: w32_def unat_of_nat)
  then have "enc_le 4 (unat (w32 m a)) = take 4 (drop a m)"
    using enc_dec_le [of "take 4 (drop a m)"] a by (simp add: min_absorb2)
  then show ?thesis using a by simp
qed

lemma nth_put_bytes:
  "put_bytes m a bs = Some m' \<Longrightarrow> length m' = length m \<and>
   (\<forall>i < length m. m' ! i = (if a \<le> i \<and> i < a + length bs then bs ! (i - a) else m ! i))"
  by (auto simp: put_bytes_def nth_append split: if_splits)

text \<open>Copying a word from one place to another.\<close>

lemma copy_word:
  assumes "src + 4 \<le> length m" "dst + 4 \<le> length m'"
  shows "\<exists>m2. fast_write (w32 m src) m' dst 4 = Some m2 \<and> length m2 = length m' \<and>
    (\<forall>i < length m'. m2 ! i = (if dst \<le> i \<and> i < dst + 4 then m ! (src + (i - dst)) else m' ! i))"
proof -
  obtain m2 where m2: "put_bytes m' dst (enc_le 4 (unat (w32 m src))) = Some m2"
    using assms(2) by (auto simp: put_bytes_def)
  have "enc_le 4 (unat (w32 m src)) ! (i - dst) = m ! (src + (i - dst))" if "dst \<le> i" "i < dst + 4" for i
    using take_4_nth [OF assms(1), of "i - dst"] that by auto
  with nth_put_bytes [OF m2] m2 show ?thesis by (auto simp: fast_write_def)
qed

lemma memcpy_up_ok:
  assumes "holds m S (dst + f)" "src + 3 \<le> dst" "agree S src dst n" "f < n" "dst + n + 3 \<le> length m"
    "dst + n \<le> length S"
  shows "\<exists>m'. memcpy_up m dst src n f = Some m' \<and> length m' = length m \<and> holds m' S (dst + n)"
  using assms
proof (induction m dst src n f rule: memcpy_up.induct)
  case (1 m dst src n f)
  obtain m2 where m2: "fast_write (w32 m (src + f)) m (dst + f) 4 = Some m2" "length m2 = length m"
    "\<And>i. i < length m \<Longrightarrow> m2 ! i = (if dst + f \<le> i \<and> i < dst + f + 4 then m ! (src + f + (i - (dst + f))) else m ! i)"
    using copy_word [of "src + f" m "dst + f" m] "1.prems" by auto
  have "m2 ! i = S ! i" if "i < dst + n" "i < dst + f + 3" for i
  proof (cases "i < dst + f")
    case True
    with m2(3) [of i] that "1.prems" show ?thesis by (simp add: holds_def)
  next
    case False
    define k where "k = i - dst"
    have i: "i = dst + k" "k < n" "f \<le> k" "k < f + 3" using False that by (auto simp: k_def)
    then have "m2 ! i = m ! (src + k)" using m2(3) [of i] "1.prems" by simp
    also have "\<dots> = S ! (src + k)" using i "1.prems" by (simp add: holds_def)
    also have "\<dots> = S ! i" using i "1.prems"(3) by (simp add: agree_def)
    finally show ?thesis .
  qed
  then have h: "holds m2 S (min (dst + n) (dst + (f + 3)))" using "1.prems" m2(2) by (auto simp: holds_def)
  have "memcpy_up m dst src n f = (if f + 3 < n then memcpy_up m2 dst src n (f + 3) else Some m2)"
    using "1.prems" m2(1) by (subst memcpy_up.simps) simp
  with "1.IH" [OF _ m2(1)] "1.prems" m2(2) h show ?case by (auto simp: min_def split: if_splits)
qed

section \<open>Hashing\<close>

lemma update_hash_upto_ok:
  assumes "\<And>h q. newest S P h q \<Longrightarrow> qd_hash st h = Some q" "\<And>s. s \<in> P \<Longrightarrow> int s \<le> lh" "-1 \<le> lh"
    and "\<And>s. lh < int s \<Longrightarrow> int s \<le> mx \<Longrightarrow> s + 4 \<le> length m \<and> hash_of m s = hash_of S s"
  shows "\<exists>st'. update_hash_upto m lh mx st = Some (max lh mx, st') \<and>
    (\<forall>h q. newest S (P \<union> {s. lh < int s \<and> int s \<le> mx}) h q \<longrightarrow> qd_hash st' h = Some q)"
  using assms
proof (induction m lh mx st arbitrary: P rule: update_hash_upto.induct)
  case (1 m lh mx st)
  show ?case
  proof (cases "lh < mx")
    case True
    define s where "s = nat (lh + 1)"
    have s: "int s = lh + 1" "s + 4 \<le> length m" "hash_of m s = hash_of S s"
      using 1(4) 1(5) [of s] True by (simp_all add: s_def)
    define st1 where "st1 = st\<lparr>qd_hash := (qd_hash st)(hash_of S s := Some s),
      qd_hash_counter := (qd_hash_counter st)(hash_of S s := 1)\<rparr>"
    have u: "update_hash m s st = Some st1"
      using s by (simp add: update_hash_def hashat_eq st1_def hash_of_def)
    have below: "q < s" if "q \<in> P" for q using 1(3) [OF that] s(1) by simp
    have "qd_hash st1 h = Some q" if "newest S (insert s P) h q" for h q
    proof (cases "hash_of S s = h")
      case True
      then have "q = s" using newest_unique [OF that newest_insert_same [OF below]] by blast
      with True show ?thesis by (simp add: st1_def)
    next
      case False
      with that 1(2) show ?thesis by (simp add: st1_def newest_insert_other)
    qed
    moreover have "P \<union> {t. lh < int t \<and> int t \<le> mx} = insert s P \<union> {t. lh + 1 < int t \<and> int t \<le> mx}"
      using s(1) True by auto
    moreover have "int t \<le> lh + 1" if "t \<in> insert s P" for t using that 1(3) [of t] s(1) by auto
    ultimately show ?thesis
      using 1(1) [of st1 "insert s P"] True u 1(4,5) by (subst update_hash_upto.simps) (simp add: s_def max_def)
  next
    case False
    then have e: "P \<union> {s. lh < int s \<and> int s \<le> mx} = P" by auto
    have "update_hash_upto m lh mx st = Some (lh, st)" using False by (subst update_hash_upto.simps) simp
    with False 1(2) show ?thesis unfolding e by simp
  qed
qed

lemma holds_hash:
  assumes "holds m S n" "s + 3 \<le> n" "s + 4 \<le> length m" "s + 4 \<le> length S"
  shows "hash_of m s = hash_of S s"
proof (rule hash_of_eq)
  show "take 3 (drop s m) = take 3 (drop s S)"
    using assms by (intro nth_equalityI) (auto simp: holds_def)
qed (use assms in auto)

section \<open>Reading a copy\<close>

lemma small_hash:
  assumes "unat (h :: u32) < 4096"
  shows "bit h i \<Longrightarrow> i < 12"
proof -
  have "unat (take_bit 12 h) = unat h" using assms by (simp add: unsigned_take_bit_eq take_bit_nat_eq_self)
  then have "take_bit 12 h = h" by (rule unsigned_word_eqI)
  then show "bit h i \<Longrightarrow> i < 12" by (metis bit_take_bit_iff)
qed

lemma small_nat: "x < 2 ^ k \<Longrightarrow> bit (x :: nat) i \<Longrightarrow> i < k"
  by (metis bit_take_bit_iff take_bit_nat_eq_self)

lemma bit_copy_code:
  assumes "3 \<le> n" "n \<le> 255" "unat h < 4096" "i < 16"
  shows "bit (copy_code h n) i \<longleftrightarrow> (if i < 4 then n < 18 \<and> bit (n - 2) i else bit h (i - 4))"
proof -
  have w: "(word_of_nat n - 2 :: u32) = word_of_nat (n - 2)" using assms(1) by (simp add: of_nat_diff)
  have "\<not> bit (n - 2) i" if "n < 18" "4 \<le> i"
    using small_nat [of "n - 2" 4 i] that by fastforce
  then show ?thesis
    using assms(4) unfolding copy_code_def w
    by (auto simp: bit_or_iff bit_push_bit_iff bit_of_nat_iff)
qed

lemma copy_code_third:
  assumes "n \<le> 255" "\<not> n < 18" "unat h < 4096"
  shows "enc_le 3 (unat (copy_code h n)) ! 2 = word_of_nat n"
proof -
  have "drop_bit 16 (copy_code h n) = word_of_nat n"
  proof (rule bit_word_eqI)
    fix i
    have "\<not> bit h (12 + i)" using small_hash [OF assms(3), of "12 + i"] by auto
    moreover have "bit n i \<Longrightarrow> i < 8" using small_nat [of n 8 i] assms(1) by simp
    ultimately show "bit (drop_bit 16 (copy_code h n)) i \<longleftrightarrow> bit (word_of_nat n :: u32) i"
      using assms(2) by (auto simp: copy_code_def bit_drop_bit_eq bit_or_iff bit_push_bit_iff bit_of_nat_iff)
  qed
  then have "unat (drop_bit 16 (copy_code h n)) = unat (word_of_nat n :: u32)" by (rule arg_cong)
  then have "drop_bit 16 (take_bit 32 (unat (copy_code h n))) = n"
    unfolding unsigned_drop_bit_eq using assms(1) by (simp add: unat_of_nat)
  moreover have "take_bit 32 (unat (copy_code h n)) = unat (copy_code h n)"
    using unsigned_less [of "copy_code h n", where 'a = nat] by (simp add: take_bit_nat_eq_self)
  ultimately have "unat (copy_code h n) div 65536 = n" by (simp add: drop_bit_eq_div)
  moreover have "enc_le 3 x ! 2 = word_of_nat (x div 65536 mod 256)" for x
    by (simp add: numeral_3_eq_3 numeral_2_eq_2 div_mult2_eq [symmetric])
  ultimately show ?thesis using assms(1) by simp
qed

lemma read_copy:
  assumes "3 \<le> n" "n \<le> 255" "unat h < 4096" "src + 4 \<le> length m"
    and "take (length (item_bytes (Copy h n))) (drop src m) = item_bytes (Copy h n)"
  shows "drop_bit 4 (w32 m src) AND 0xfff = h"
    and "(if w32 m src AND 0xf \<noteq> 0 then Some (unat ((w32 m src AND 0xf) + 2), src + 2)
          else byte_at m (src + 2) \<bind> (\<lambda>b. Some (unat b, src + 3))) =
         Some (n, src + length (item_bytes (Copy h n)))"
proof -
  have "take 2 (drop src m) = enc_le 2 (unat (copy_code h n))"
    using arg_cong [OF assms(5), of "take 2"] by (simp add: take_enc_le_bytes min_def split: if_splits)
  from w32_enc [OF this assms(4)] have b: "bit (w32 m src) i \<longleftrightarrow> (if i < 4 then n < 18 \<and> bit (n - 2) i else bit h (i - 4))"
    if "i < 16" for i using that bit_copy_code [OF assms(1-3) that] by simp
  show "drop_bit 4 (w32 m src) AND 0xfff = h"
  proof (rule bit_word_eqI)
    fix i
    have "bit h i \<longleftrightarrow> i < 12 \<and> bit h i" using small_hash [OF assms(3)] by blast
    moreover have "drop_bit 4 (w32 m src) AND 0xfff = take_bit 12 (drop_bit 4 (w32 m src))"
      by (simp add: take_bit_eq_mask mask_eq_exp_minus_1)
    ultimately show "bit (drop_bit 4 (w32 m src) AND 0xfff) i \<longleftrightarrow> bit h i"
      using b [of "4 + i"] by (auto simp: bit_take_bit_iff bit_drop_bit_eq)
  qed
  have small: "i < 4" if "n < 18" "bit (n - 2) i" for i
    using small_nat [of "n - 2" 4 i] that by simp
  have low: "w32 m src AND 0xf = (if n < 18 then word_of_nat (n - 2) else 0)"
  proof (rule bit_word_eqI)
    fix i
    have "w32 m src AND 0xf = take_bit 4 (w32 m src)" by (simp add: take_bit_eq_mask mask_eq_exp_minus_1)
    then show "bit (w32 m src AND 0xf) i \<longleftrightarrow> bit (if n < 18 then word_of_nat (n - 2) else 0 :: u32) i"
      using b [of i] small [of i] by (auto simp: bit_take_bit_iff bit_of_nat_iff)
  qed
  show "(if w32 m src AND 0xf \<noteq> 0 then Some (unat ((w32 m src AND 0xf) + 2), src + 2)
          else byte_at m (src + 2) \<bind> (\<lambda>b. Some (unat b, src + 3))) =
         Some (n, src + length (item_bytes (Copy h n)))"
  proof (cases "n < 18")
    case True
    have "word_of_nat (n - 2) + 2 = (word_of_nat n :: u32)" using assms(1) by (simp add: of_nat_diff)
    moreover have "unat (word_of_nat (n - 2) :: u32) = n - 2" using True by (simp add: unat_of_nat)
    then have "word_of_nat (n - 2) \<noteq> (0 :: u32)" using assms(1) by (metis diff_is_0_eq not_less_eq_eq numeral_2_eq_2
        numeral_3_eq_3 unsigned_0)
    ultimately show ?thesis using low True by (simp add: unat_of_nat)
  next
    case False
    have "m ! (src + 2) = take 3 (drop src m) ! 2" using assms(4) by simp
    moreover have "take 3 (drop src m) = enc_le 3 (unat (copy_code h n))" using assms(5) False by simp
    ultimately have "m ! (src + 2) = word_of_nat n" using copy_code_third [OF assms(2) False assms(3)] by simp
    then have "unat (m ! (src + 2)) = n" using assms(2) by (simp add: unat_of_nat)
    with low False assms(4) show ?thesis by (simp add: byte_at_def)
  qed
qed

section \<open>The invariant\<close>

text \<open>Read so far: \<open>pre\<close>; still to read of the open group: \<open>grp\<close>; then \<open>later\<close>. \<open>last_hashed\<close> may
  be ahead of the positions the compressor can refer to, but only where nothing starts.\<close>

definition hashed_ok :: "u8 list \<Rightarrow> nat set \<Rightarrow> nat \<Rightarrow> int \<Rightarrow> qlz_state_decompress \<Rightarrow> bool" where
  "hashed_ok S P dst lh st \<longleftrightarrow> -1 \<le> lh \<and> lh < int dst \<and> (\<forall>s. lh < int s \<longrightarrow> s < dst \<longrightarrow> s \<in> P) \<and>
     (\<forall>s \<in> P. s < dst) \<and> (\<forall>s \<in> P. int s \<le> lh \<longleftrightarrow> s + 3 \<le> dst) \<and>
     (\<forall>h q. newest S {s \<in> P. s + 3 \<le> dst} h q \<longrightarrow> qd_hash st h = Some q)"

definition dec_inv :: "u8 list \<Rightarrow> u8 list \<Rightarrow> item list \<Rightarrow> item list \<Rightarrow> item list \<Rightarrow> nat \<Rightarrow> qlz_dec \<Rightarrow> bool" where
  "dec_inv S m pre grp later mk d \<longleftrightarrow>
     items_ok S [] (pre @ grp @ later) \<and> ilen (pre @ grp @ later) = length S \<and>
     d_dst d = ilen pre \<and> length S \<le> length (d_out d) \<and> holds (d_out d) S (d_dst d) \<and>
     d_src d \<le> length m \<and> (\<exists>pad. drop (d_src d) m = ibytes grp @ layout later @ pad) \<and>
     flags_left (d_cword_val d) (map is_copy grp) mk \<and> (later \<noteq> [] \<longrightarrow> length grp = mk) \<and>
     hashed_ok S (starts pre) (d_dst d) (d_last_hashed d) (d_state d)"

lemma hashed_okD:
  assumes "hashed_ok S P dst lh st"
  shows "-1 \<le> lh" "lh < int dst" "lh < int s \<Longrightarrow> s < dst \<Longrightarrow> s \<in> P" "s \<in> P \<Longrightarrow> s < dst"
    "s \<in> P \<Longrightarrow> int s \<le> lh \<longleftrightarrow> s + 3 \<le> dst" "newest S {s \<in> P. s + 3 \<le> dst} h q \<Longrightarrow> qd_hash st h = Some q"
  using assms unfolding hashed_ok_def by blast+

text \<open>The table is brought up to \<open>mx\<close> when everything up to there starts an item.\<close>

lemma hashed_ok_upto:
  assumes a: "hashed_ok S P dst lh st"
    and up: "\<And>s. lh < int s \<Longrightarrow> int s \<le> mx \<Longrightarrow> s + 4 \<le> length m \<and> hash_of m s = hash_of S s"
    and Q: "\<And>s. lh < int s \<and> int s \<le> mx \<Longrightarrow> s \<in> Q \<and> s + 3 \<le> dst'" "\<And>s. s \<in> P \<Longrightarrow> s \<in> Q"
      "\<And>s. s \<in> Q \<Longrightarrow> s + 3 \<le> dst' \<Longrightarrow> s \<in> P \<and> int s \<le> lh \<or> lh < int s \<and> int s \<le> mx" and d: "dst \<le> dst'"
  shows "\<exists>st'. update_hash_upto m lh mx st = Some (max lh mx, st') \<and>
    (\<forall>h q. newest S {s \<in> Q. s + 3 \<le> dst'} h q \<longrightarrow> qd_hash st' h = Some q)"
proof -
  let ?P = "{s \<in> P. s + 3 \<le> dst}"
  have e: "?P \<union> {s. lh < int s \<and> int s \<le> mx} = {s \<in> Q. s + 3 \<le> dst'}"
  proof (rule set_eqI)
    fix s
    show "s \<in> ?P \<union> {s. lh < int s \<and> int s \<le> mx} \<longleftrightarrow> s \<in> {s \<in> Q. s + 3 \<le> dst'}"
      using Q [of s] hashed_okD(5) [OF a, of s] d by auto
  qed
  have "\<And>s. s \<in> ?P \<Longrightarrow> int s \<le> lh" using hashed_okD(5) [OF a] by blast
  from update_hash_upto_ok [where P = ?P and mx = mx, OF hashed_okD(6) [OF a] this hashed_okD(1) [OF a] up]
  show ?thesis unfolding e by blast
qed

lemma hashed_ok_copy:
  assumes a: "hashed_ok S P dst lh st" and "3 \<le> n" "dst + n + 4 \<le> length S" "length S \<le> length m" "holds m S (dst + n)"
  shows "\<exists>st'. update_hash_upto m lh (int dst) st = Some (int dst, st') \<and>
    hashed_ok S (insert dst P) (dst + n) (int (dst + n) - 1) st'"
proof -
  have "\<exists>st'. update_hash_upto m lh (int dst) st = Some (max lh (int dst), st') \<and>
    (\<forall>h q. newest S {s \<in> insert dst P. s + 3 \<le> dst + n} h q \<longrightarrow> qd_hash st' h = Some q)"
  proof (rule hashed_ok_upto [OF a])
    fix s
    show "s + 4 \<le> length m \<and> hash_of m s = hash_of S s" if "lh < int s" "int s \<le> int dst"
      using that assms(2-4) holds_hash [OF assms(5), of s] by simp
    show "s \<in> insert dst P \<and> s + 3 \<le> dst + n" if "lh < int s \<and> int s \<le> int dst"
      using that assms(2) hashed_okD(3) [OF a, of s] by (cases "s = dst") auto
    show "s \<in> P \<and> int s \<le> lh \<or> lh < int s \<and> int s \<le> int dst" if "s \<in> insert dst P"
      using that hashed_okD(2) [OF a] hashed_okD(4) [OF a, of s] by auto
  qed auto
  moreover have "s \<in> insert dst P \<Longrightarrow> s + 3 \<le> dst + n \<and> s < dst + n" for s
    using hashed_okD(4) [OF a, of s] assms(2) by auto
  moreover have "int (dst + n) - 1 < int s \<Longrightarrow> \<not> s < dst + n" for s by simp
  ultimately show ?thesis
    using assms(2) hashed_okD(2) [OF a] unfolding hashed_ok_def by (simp add: max_def) fastforce
qed

lemma hashed_ok_literals:
  assumes a: "hashed_ok S P dst lh st" and "1 \<le> k" "dst + k + 1 \<le> length S" "length S \<le> length m" "holds m S (dst + k)"
  shows "\<exists>lh' st'. update_hash_upto m lh (int (dst + k) - 3) st = Some (lh', st') \<and>
    hashed_ok S (P \<union> {dst..<dst + k}) (dst + k) lh' st'"
proof -
  let ?Q = "P \<union> {dst..<dst + k}" and ?mx = "int (dst + k) - 3"
  have "\<exists>st'. update_hash_upto m lh ?mx st = Some (max lh ?mx, st') \<and>
    (\<forall>h q. newest S {s \<in> ?Q. s + 3 \<le> dst + k} h q \<longrightarrow> qd_hash st' h = Some q)"
  proof (rule hashed_ok_upto [OF a])
    fix s
    show "s + 4 \<le> length m \<and> hash_of m s = hash_of S s" if "lh < int s" "int s \<le> ?mx"
      using that assms(3,4) holds_hash [OF assms(5), of s] by simp
    show "s \<in> ?Q \<and> s + 3 \<le> dst + k" if "lh < int s \<and> int s \<le> ?mx"
      using that hashed_okD(3) [OF a, of s] by (cases "s < dst") auto
    show "s \<in> P \<and> int s \<le> lh \<or> lh < int s \<and> int s \<le> ?mx" if "s \<in> ?Q" "s + 3 \<le> dst + k"
      using that hashed_okD(2) [OF a] by (cases "lh < int s") auto
  qed auto
  then obtain st' where st: "update_hash_upto m lh ?mx st = Some (max lh ?mx, st')"
    "\<And>h q. newest S {s \<in> ?Q. s + 3 \<le> dst + k} h q \<Longrightarrow> qd_hash st' h = Some q" by blast
  have "hashed_ok S ?Q (dst + k) (max lh ?mx) st'"
    unfolding hashed_ok_def
  proof (intro conjI allI impI ballI)
    show "-1 \<le> max lh ?mx" "max lh ?mx < int (dst + k)" using hashed_okD(1,2) [OF a] by auto
    fix s
    show "s \<in> ?Q" if "max lh ?mx < int s" "s < dst + k"
      using that hashed_okD(3) [OF a, of s] by (cases "s < dst") auto
    show "s < dst + k" if "s \<in> ?Q" using that hashed_okD(4) [OF a, of s] assms(2) by auto
    show "int s \<le> max lh ?mx \<longleftrightarrow> s + 3 \<le> dst + k" if "s \<in> ?Q"
      using that hashed_okD(2) [OF a] hashed_okD(5) [OF a, of s] by (cases "s < dst") auto
  qed (rule st(2))
  with st(1) show ?thesis by blast
qed

section \<open>The steps\<close>

lemma ibytes_le_layout: "length (ibytes is) \<le> length (layout is)"
proof (induction "is" rule: layout.induct)
  case (1 "is")
  have "ibytes is = ibytes (take 31 is) @ ibytes (drop 31 is)" by (metis append_take_drop_id ibytes_simps(3))
  with 1 show ?case by (cases "is = []") (simp, subst layout.simps, simp)
qed

text \<open>There is always a whole word to read: the last four bytes are literals, and shorter texts
  are padded.\<close>

definition readable :: "u8 list \<Rightarrow> u8 list \<Rightarrow> item list \<Rightarrow> item list \<Rightarrow> qlz_dec \<Rightarrow> bool" where
  "readable S m pre grp d \<longleftrightarrow> ilen pre + 4 \<le> length S \<or> (pre = [] \<and> grp = [] \<and> d_src d + 9 \<le> length m)"

lemma read_cword_ok:
  assumes i: "dec_inv S m pre grp later mk d" "readable S m pre grp d" "ilen pre < length S"
  shows "\<exists>grp' later' mk' d'. read_cword m d = Some d' \<and> dec_inv S m pre grp' later' mk' d' \<and> grp' \<noteq> [] \<and>
    d_src d' + 4 \<le> length m"
proof -
  have it: "items_ok S pre (grp @ later)" "ilen pre + ilen (grp @ later) = length S"
    using i(1) items_ok_append [of S "[]" pre "grp @ later"] by (simp_all add: dec_inv_def)
  obtain pad where pad: "drop (d_src d) m = ibytes grp @ layout later @ pad" using i(1) by (auto simp: dec_inv_def)
  have le: "d_src d \<le> length m" using i(1) by (simp add: dec_inv_def)
  have "length m - d_src d = length (ibytes grp) + (length (layout later) + length pad)"
    using arg_cong [OF pad, of length] by simp
  with le have len: "length m = d_src d + length (ibytes grp) + length (layout later) + length pad" by simp
  have "min 4 (ilen (grp @ later)) \<le> length (ibytes grp) + length (layout later)"
    using items_bytes_ge [OF it] ibytes_le_layout [of later] by simp
  then have src: "d_src d + 4 \<le> length m" using len i(2) it(2) by (auto simp: readable_def)
  show ?thesis
  proof (cases "d_cword_val d = 1")
    case False
    then have "mk \<noteq> 0" using i(1) flags_left_1 by (auto simp: dec_inv_def)
    then have "grp \<noteq> []" using i(1,3) by (auto simp: dec_inv_def)
    with i(1) False src show ?thesis by (intro exI conjI) (simp_all add: read_cword_def)
  next
    case True
    have fl: "flags_left (d_cword_val d) (map is_copy grp) mk" using i(1) by (simp add: dec_inv_def)
    with True have "mk = 0" by (simp add: flags_left_1 [OF fl])
    then have "grp = []" using flags_left_length [OF fl] by simp
    moreover from this have "later \<noteq> []" using it(2) i(3) by auto
    ultimately have g: "grp = []" "later \<noteq> []" by simp_all
    let ?w = "group_word (map is_copy (take 31 later))"
    have l: "drop (d_src d) m = enc_le 4 (unat ?w) @ ibytes (take 31 later) @ layout (drop 31 later) @ pad"
      using pad g by (subst (asm) layout.simps) simp
    have w: "w32 m (d_src d) = ?w" by (simp add: w32_def l)
    define d' where "d' = d\<lparr>d_cword_val := ?w, d_src := d_src d + 4\<rparr>"
    have "read_cword m d = Some d'" using True src w by (simp add: read_cword_def CWORD_LEN_def d'_def)
    moreover have "drop (d_src d + 4) m = ibytes (take 31 later) @ layout (drop 31 later) @ pad"
      using arg_cong [OF l, of "drop 4"] by (simp add: add.commute)
    then have inv: "dec_inv S m pre (take 31 later) (drop 31 later) 31 d'"
      using i(1) g src by (auto simp: dec_inv_def d'_def flags_left_group intro!: flags_left_group)
    moreover have "d_src d' + 4 \<le> length m"
    proof -
      have "min 4 (ilen later) \<le> length (ibytes (take 31 later)) + length (layout (drop 31 later))"
      proof -
        have "ibytes later = ibytes (take 31 later) @ ibytes (drop 31 later)" by (metis append_take_drop_id ibytes_simps(3))
        then show ?thesis using items_bytes_ge [OF it] g ibytes_le_layout [of "drop 31 later"] by simp
      qed
      moreover have "length m = d_src d + 4 + length (ibytes (take 31 later)) + length (layout (drop 31 later)) + length pad"
        using arg_cong [OF l, of length] le by simp
      ultimately show ?thesis using i(2) it(2) g by (auto simp: readable_def d'_def)
    qed
    ultimately show ?thesis using g
      by (intro exI [of _ "take 31 later"] exI [of _ "drop 31 later"] exI [of _ 31] exI [of _ d']) simp
  qed
qed

lemma decompress_match_ok:
  assumes i: "dec_inv S m pre (Copy h n # grp) later mk d" "d_src d + 4 \<le> length m"
  shows "\<exists>d'. decompress_match m (w32 m (d_src d)) d = Some d' \<and>
    dec_inv S m (pre @ [Copy h n]) grp later (mk - 1) d' \<and> ilen (pre @ [Copy h n]) + 4 \<le> length S"
proof -
  let ?c = "Copy h n" and ?w = "w32 m (d_src d)"
  have ok: "item_ok S pre ?c" "items_ok S [] ((pre @ [?c]) @ grp @ later)"
    "ilen ((pre @ [?c]) @ grp @ later) = length S" and dst: "d_dst d = ilen pre"
    using i(1) items_ok_append [of S "[]" pre "?c # grp @ later"] by (simp_all add: dec_inv_def)
  then obtain q where q: "newest S {s \<in> starts pre. s + 3 \<le> ilen pre} h q" "agree S q (ilen pre) n"
    and n: "3 \<le> n" "n \<le> 255" "ilen pre + n + 4 \<le> length S" "unat h < 4096" by auto
  obtain pad where pad: "drop (d_src d) m = item_bytes ?c @ ibytes grp @ layout later @ pad"
    using i(1) by (auto simp: dec_inv_def)
  note rc = read_copy [OF n(1,2,4) i(2), unfolded pad append_eq_conv_conj, simplified]
  have lookup: "qd_hash (d_state d) (drop_bit 4 ?w AND 0xfff) = Some q"
    using i(1) q(1) read_copy(1) [OF n(1,2,4) i(2)] pad hashed_okD(6) by (fastforce simp: dec_inv_def)
  have h: "hashed_ok S (starts pre) (d_dst d) (d_last_hashed d) (d_state d)" "length S \<le> length (d_out d)"
    "holds (d_out d) S (d_dst d)" using i(1) unfolding dec_inv_def by blast+
  have "q + 3 \<le> d_dst d" using q(1) dst by (simp add: newest_def)
  from memcpy_up_ok [of "d_out d" S "d_dst d" 0 q n] this h(2,3) q(2) n dst obtain out where
    out: "memcpy_up (d_out d) (d_dst d) q n 0 = Some out" "length out = length (d_out d)" "holds out S (d_dst d + n)"
    by auto
  from hashed_ok_copy [OF h(1) n(1) _ _ out(3)] n(3) dst h(2) out(2) obtain st where
    st: "update_hash_upto out (d_last_hashed d) (int (d_dst d)) (d_state d) = Some (int (d_dst d), st)"
    "hashed_ok S (insert (d_dst d) (starts pre)) (d_dst d + n) (int (d_dst d + n) - 1) st" by auto
  define d' where "d' = d\<lparr>d_cword_val := drop_bit 1 (d_cword_val d), d_src := d_src d + length (item_bytes ?c), d_out := out,
    d_dst := d_dst d + n, d_last_hashed := int (d_dst d + n) - 1, d_state := st\<rparr>"
  have "decompress_match m ?w d = Some d'"
    using lookup read_copy(2) [OF n(1,2,4) i(2)] pad out(1) st(1)
    by (simp add: decompress_match_def d'_def del: item_bytes.simps)
  moreover have fl: "flags_left (drop_bit 1 (d_cword_val d)) (map is_copy grp) (mk - 1)"
  proof -
    have f: "flags_left (d_cword_val d) (map is_copy (?c # grp)) mk" using i(1) by (simp add: dec_inv_def)
    from flags_left_drop [OF f, of 1] flags_left_length [OF f] show ?thesis by simp
  qed
  moreover have "drop (d_src d + length (item_bytes ?c)) m = ibytes grp @ layout later @ pad"
    using arg_cong [OF pad, of "drop (length (item_bytes ?c))"] by (simp add: add.commute)
  moreover have "d_src d + length (item_bytes ?c) \<le> length m" using i(2) by simp
  moreover have "later \<noteq> [] \<longrightarrow> length grp = mk - 1" using i(1) by (auto simp: dec_inv_def)
  ultimately have "dec_inv S m (pre @ [?c]) grp later (mk - 1) d'"
    using ok(2,3) dst st(2) out(2,3) h(2) unfolding dec_inv_def d'_def by (simp del: item_bytes.simps)
  with \<open>decompress_match m ?w d = Some d'\<close> n(3) show ?thesis by auto
qed

text \<open>A run of literals.\<close>

lemma literal_run:
  assumes "items_ok S pre ls" "True \<notin> set (map is_copy ls)"
  shows "ilen ls = length ls" "length (ibytes ls) = length ls" "starts_from (ilen pre) ls = {ilen pre..<ilen pre + length ls}"
    "j < length ls \<Longrightarrow> ibytes ls ! j = S ! (ilen pre + j)"
proof (atomize(full), use assms in \<open>induction ls arbitrary: pre j\<close>)
  case (Cons l ls)
  then obtain b where l: "l = Lit b" by (cases l) auto
  with Cons.IH [of "pre @ [l]"] Cons.prems show ?case
    by (auto simp: nth_Cons split: nat.splits)
qed simp

lemma literals_ahead:
  assumes i: "dec_inv S m pre grp later mk d" and far: "d_dst d + 12 \<le> length S"
    and k: "k \<le> 4" "\<And>j. j < k \<Longrightarrow> \<not> bit (d_cword_val d) j"
  shows "items_ok S pre (take k grp)" "True \<notin> set (map is_copy (take k grp))" "k \<le> mk" "k \<le> length grp"
proof -
  have fl: "flags_left (d_cword_val d) (map is_copy grp) mk" using i by (simp add: dec_inv_def)
  have it: "items_ok S pre (grp @ later)" "ilen pre + ilen (grp @ later) = length S" and dst: "d_dst d = ilen pre"
    using i unfolding dec_inv_def by (metis append_Nil items_ok_append, simp, simp)
  show lits: "True \<notin> set (map is_copy (take k grp))"
  proof
    assume "True \<in> set (map is_copy (take k grp))"
    then obtain j where "j < k" "j < length grp" "is_copy (grp ! j)" by (auto simp: in_set_conv_nth)
    then have "bit (d_cword_val d) j" using flags_left_bit [OF fl, of j] by (metis length_map nth_map)
    with k(2) \<open>j < k\<close> show False by blast
  qed
  show mk: "k \<le> mk" using k(2) [of mk] flags_left_bit [OF fl, of mk] by (meson not_le)
  show ok: "items_ok S pre (take k grp)"
    using it(1) items_ok_append [of S pre "take k grp" "drop k grp @ later"]
    by (simp add: append.assoc [symmetric] del: append_assoc)
  show "k \<le> length grp"
  proof (rule ccontr)
    assume "\<not> k \<le> length grp"
    then have "later = []" "take k grp = grp" using i mk by (auto simp: dec_inv_def)
    with literal_run(1) [OF ok lits] it(2) far dst k(1) \<open>\<not> k \<le> length grp\<close> show False by simp
  qed
qed

lemma literals_written:
  assumes "holds b S dst" "length S \<le> length b" "dst + 12 \<le> length S" "src + 4 \<le> length m" "k \<le> 4"
    and "\<And>j. j < k \<Longrightarrow> m ! (src + j) = S ! (dst + j)"
  shows "\<exists>out. fast_write (w32 m src) b dst 4 = Some out \<and> length out = length b \<and> holds out S (dst + k)"
proof -
  obtain out where out: "fast_write (w32 m src) b dst 4 = Some out" "length out = length b"
    "\<And>a. a < length b \<Longrightarrow> out ! a = (if dst \<le> a \<and> a < dst + 4 then m ! (src + (a - dst)) else b ! a)"
    using copy_word [OF assms(4), of dst b] assms(2,3) by auto
  have "out ! a = S ! a" if "a < dst + k" for a
  proof (cases "a < dst")
    case True
    then show ?thesis using out(3) [of a] assms(1-3) by (simp add: holds_def)
  next
    case False
    then obtain j where "a = dst + j" by (metis le_Suc_ex not_less)
    then show ?thesis using out(3) [of a] assms(6) [of j] assms(2,3,5) that by simp
  qed
  then have "holds out S (dst + k)" using out(2) assms(2,3,5) by (simp add: holds_def)
  with out(1,2) show ?thesis by blast
qed

lemma decompress_literals_ok:
  assumes i: "dec_inv S m pre grp later mk d" "grp \<noteq> []" "\<not> is_copy (hd grp)" "d_src d + 4 \<le> length m" and far: "d_dst d + 12 \<le> length S"
  shows "\<exists>d' pre' grp' mk'. decompress_literals m d = Some d' \<and> dec_inv S m pre' grp' later mk' d' \<and> ilen pre' + 4 \<le> length S"
proof -
  have fl: "flags_left (d_cword_val d) (map is_copy grp) mk" using i(1) by (simp add: dec_inv_def)
  then have "\<not> bit (d_cword_val d) 0" using i(2,3) flags_left_bit0 [of "d_cword_val d" "is_copy (hd grp)" "map is_copy (tl grp)" mk] by (cases grp) auto
  define k where "k = bitlut (unat (d_cword_val d AND 0xf))"
  note k = bitlut_spec [OF \<open>\<not> bit (d_cword_val d) 0\<close> k_def]
  note lits = literals_ahead [OF i(1) far k(2,3)]
  note run = literal_run [OF lits(1,2)]
  have dst: "d_dst d = ilen pre" using i(1) by (simp add: dec_inv_def)
  have lk: "length (take k grp) = k" using lits(4) by simp
  obtain pad where pad: "drop (d_src d) m = ibytes grp @ layout later @ pad" using i(1) by (auto simp: dec_inv_def)
  have sp: "drop (d_src d) m = ibytes (take k grp) @ ibytes (drop k grp) @ layout later @ pad"
    unfolding pad by (metis append_assoc append_take_drop_id ibytes_simps(3))
  have h: "hashed_ok S (starts pre) (d_dst d) (d_last_hashed d) (d_state d)" "length S \<le> length (d_out d)"
    "holds (d_out d) S (d_dst d)" using i(1) unfolding dec_inv_def by blast+
  have lit: "m ! (d_src d + j) = S ! (d_dst d + j)" if "j < k" for j
  proof -
    have lit: "m ! (d_src d + j) = drop (d_src d) m ! j" using i(4) k(2) that by simp
    also have "\<dots> = ibytes (take k grp) ! j" unfolding sp using run(2) lk that by (simp add: nth_append)
    finally show ?thesis using run(4) [of j] lk that dst by (simp)
  qed
  from literals_written [OF h(3,2) far i(4) k(2) lit] obtain out where
    out: "fast_write (w32 m (d_src d)) (d_out d) (d_dst d) 4 = Some out" "length out = length (d_out d)"
      "holds out S (d_dst d + k)" by blast
  from hashed_ok_literals [OF h(1) k(1) _ _ out(3)] far k(2) h(2) out(2) obtain lh st where
    st: "update_hash_upto out (d_last_hashed d) (int (d_dst d + k) - 3) (d_state d) = Some (lh, st)"
      "hashed_ok S (starts pre \<union> {d_dst d..<d_dst d + k}) (d_dst d + k) lh st" by auto
  define d' where "d' = d\<lparr>d_cword_val := drop_bit k (d_cword_val d), d_src := d_src d + k, d_out := out,
    d_dst := d_dst d + k, d_last_hashed := lh, d_state := st\<rparr>"
  have "decompress_literals m d = Some d'"
    using i(4) out(1) st(1) by (simp add: decompress_literals_def Let_def k_def [symmetric] d'_def)
  moreover have "dec_inv S m (pre @ take k grp) (drop k grp) later (mk - k) d'"
    unfolding dec_inv_def
  proof (intro conjI)
    show "items_ok S [] ((pre @ take k grp) @ drop k grp @ later)" "ilen ((pre @ take k grp) @ drop k grp @ later) = length S"
      using i(1) unfolding dec_inv_def append_assoc append_take_drop_id by (simp_all add: append.assoc [symmetric] del: append_assoc)
    show "d_dst d' = ilen (pre @ take k grp)" using run(1) lk dst by (simp add: d'_def)
    show "length S \<le> length (d_out d')" "holds (d_out d') S (d_dst d')" "d_src d' \<le> length m"
      using h(2) out(2,3) i(4) k(2) by (simp_all add: d'_def)
    show "\<exists>pad. drop (d_src d') m = ibytes (drop k grp) @ layout later @ pad"
      using arg_cong [OF sp, of "drop k"] run(2) lk by (simp add: d'_def add.commute)
    show "flags_left (d_cword_val d') (map is_copy (drop k grp)) (mk - k)"
      using flags_left_drop [OF fl lits(3)] lits(4) by (simp add: d'_def drop_map)
    show "later \<noteq> [] \<longrightarrow> length (drop k grp) = mk - k" using i(1) by (auto simp: dec_inv_def)
    show "hashed_ok S (starts (pre @ take k grp)) (d_dst d') (d_last_hashed d') (d_state d')"
      using st(2) run(3) lk dst by (simp add: d'_def starts_from_append)
  qed
  moreover have "ilen (pre @ take k grp) + 4 \<le> length S" using run(1) lk far dst k(2) by (simp)
  ultimately show ?thesis by blast
qed

text \<open>From the first literal past the last start of a copy on, everything is a literal.\<close>

definition no_copies :: "item list \<Rightarrow> bool" where
  "no_copies is \<longleftrightarrow> True \<notin> set (map is_copy is)"

lemma late_items:
  "items_ok S pre is \<Longrightarrow> length S < ilen pre + 11 \<Longrightarrow> no_copies is"
proof (induction "is" arbitrary: pre)
  case (Cons i "is")
  then show ?case by (cases i) (auto simp: no_copies_def)
qed (simp add: no_copies_def)

text \<open>Where the loop over the last literals stands once it has passed a control word.\<close>

lemma tail_cword:
  fixes d defines "d1 \<equiv> (if d_cword_val d = 1 then d\<lparr>d_src := d_src d + CWORD_LEN, d_cword_val := push_bit 31 1\<rparr> else d)"
  assumes "drop (d_src d) m = ibytes grp @ layout later @ pad" "flags_left (d_cword_val d) (map is_copy grp) mk"
    and "grp @ later \<noteq> []" "no_copies (grp @ later)" "later \<noteq> [] \<longrightarrow> length grp = mk" "d_src d \<le> length m"
  shows "\<exists>l g later' mk'. grp @ later = (l # g) @ later' \<and> drop (d_src d1) m = ibytes (l # g) @ layout later' @ pad \<and>
    flags_left (d_cword_val d1) (map is_copy (l # g)) mk' \<and> (later' \<noteq> [] \<longrightarrow> length (l # g) = mk') \<and>
    d_src d1 \<le> length m \<and> d_dst d1 = d_dst d \<and> d_out d1 = d_out d \<and> d_last_hashed d1 = d_last_hashed d \<and>
    d_state d1 = d_state d"
proof (cases "d_cword_val d = 1")
  case True
  with assms(3) have "mk = 0" by (simp add: flags_left_1 [OF assms(3)])
  then have g: "grp = []" using flags_left_length [OF assms(3)] by simp
  with assms(4) have "later \<noteq> []" by simp
  then obtain l g where lg: "take 31 later = l # g" by (cases later) auto
  have "layout later = enc_le 4 (unat (group_word (map is_copy (take 31 later)))) @ ibytes (take 31 later) @ layout (drop 31 later)"
    using \<open>later \<noteq> []\<close> by (subst layout.simps) simp
  then have l4: "drop (d_src d) m = enc_le 4 (unat (group_word (map is_copy (take 31 later)))) @ ibytes (l # g) @ layout (drop 31 later) @ pad"
    using assms(2) g lg by simp
  have "True \<notin> set (map is_copy (take 31 later))"
    using assms(5) by (auto simp: no_copies_def dest: in_set_takeD)
  then have "flags_left (push_bit 31 1) (map is_copy (take 31 later)) 31" by (intro flags_left_top) auto
  moreover have "d_src d + 4 \<le> length m" using arg_cong [OF l4, of length] by simp
  moreover have "later = (l # g) @ drop 31 later" using lg by (metis append_take_drop_id)
  moreover have "drop (d_src d + 4) m = ibytes (l # g) @ layout (drop 31 later) @ pad"
    using arg_cong [OF l4, of "drop 4"] by (simp add: add.commute)
  moreover have "length (l # g) = 31" if "drop 31 later \<noteq> []" using that by (simp add: lg [symmetric])
  ultimately show ?thesis using True g lg
    by (intro exI [of _ l] exI [of _ g] exI [of _ "drop 31 later"] exI [of _ 31])
      (simp_all add: d1_def CWORD_LEN_def del: push_bit_of_1)
next
  case False
  then have "mk \<noteq> 0" by (simp add: flags_left_1 [OF assms(3)])
  with assms(4,6) have "grp \<noteq> []" by auto
  then obtain l g where "grp = l # g" by (cases grp) auto
  with False assms show ?thesis
    by (intro exI [of _ l] exI [of _ g] exI [of _ later] exI [of _ mk]) (simp_all add: d1_def)
qed

lemma decompress_tail_ok:
  assumes "items_ok S pre (grp @ later)" "ilen pre + ilen (grp @ later) = length S" "no_copies (grp @ later)"
    and "d_dst d = ilen pre" "length S \<le> length (d_out d)" "holds (d_out d) S (d_dst d)" "d_src d \<le> length m"
    and "\<exists>pad. drop (d_src d) m = ibytes grp @ layout later @ pad"
    and "flags_left (d_cword_val d) (map is_copy grp) mk" "later \<noteq> [] \<longrightarrow> length grp = mk"
  shows "\<exists>d'. decompress_tail m (length S) d = Some d' \<and> length (d_out d') = length (d_out d) \<and>
    holds (d_out d') S (length S) \<and> d_last_hashed d' = d_last_hashed d \<and> d_state d' = d_state d"
  using assms
proof (induction "ilen (grp @ later)" arbitrary: pre grp later mk d)
  case 0
  then show ?case by (subst decompress_tail.simps) simp
next
  case (Suc x)
  note prems = Suc.prems
  obtain pad where pad: "drop (d_src d) m = ibytes grp @ layout later @ pad" using prems(8) by blast
  have fl: "flags_left (d_cword_val d) (map is_copy grp) mk" by (rule prems(9))
  have ne: "grp @ later \<noteq> []" using Suc.hyps(2) by (metis ilen_simps(1) nat.distinct(1))
  define d1 where "d1 = (if d_cword_val d = 1
    then d\<lparr>d_src := d_src d + CWORD_LEN, d_cword_val := push_bit 31 1\<rparr> else d)"
  from tail_cword [OF pad fl ne prems(3,10,7), folded d1_def] obtain l g later' mk' where
    d1: "grp @ later = (l # g) @ later'" "drop (d_src d1) m = ibytes (l # g) @ layout later' @ pad"
    "flags_left (d_cword_val d1) (map is_copy (l # g)) mk'" "later' \<noteq> [] \<longrightarrow> length (l # g) = mk'"
    "d_src d1 \<le> length m" "d_dst d1 = d_dst d" "d_out d1 = d_out d" "d_last_hashed d1 = d_last_hashed d"
    "d_state d1 = d_state d" by blast
  obtain b where l: "l = Lit b" using prems(3) by (cases l) (auto simp: d1(1) no_copies_def)
  have okl: "items_ok S (pre @ [l]) (g @ later')" "item_ok S pre l" "ilen (pre @ [l]) + ilen (g @ later') = length S"
    using prems(1,2) unfolding d1(1) by simp_all
  have dl: "d_dst d < length S" "b = S ! d_dst d" using okl(2) l prems(4) by simp_all
  have src: "m ! d_src d1 = b" "d_src d1 < length m"
    using arg_cong [OF d1(2), of hd] arg_cong [OF d1(2), of length] l by (simp_all add: hd_drop_conv_nth)
  define d2 where "d2 = d1\<lparr>d_out := (d_out d1)[d_dst d1 := b], d_dst := d_dst d1 + 1, d_src := d_src d1 + 1,
    d_cword_val := drop_bit 1 (d_cword_val d1)\<rparr>"
  have "decompress_tail m (length S) d = decompress_tail m (length S) d2"
    using dl(1) src prems(5) d1(6,7)
    by (subst decompress_tail.simps) (simp add: d1_def [symmetric] byte_at_def put_byte_def d2_def)
  moreover have "\<exists>d'. decompress_tail m (length S) d2 = Some d' \<and> length (d_out d') = length (d_out d2) \<and>
    holds (d_out d') S (length S) \<and> d_last_hashed d' = d_last_hashed d2 \<and> d_state d' = d_state d2"
  proof (rule Suc.hyps(1) [of g later' "pre @ [l]" d2 "mk' - 1"])
    show "x = ilen (g @ later')" using Suc.hyps(2) l unfolding d1(1) by simp
    show "no_copies (g @ later')" using prems(3) unfolding d1(1) by (simp add: no_copies_def)
    show "d_dst d2 = ilen (pre @ [l])" using prems(4) d1(6) l by (simp add: d2_def)
    show "length S \<le> length (d_out d2)" "holds (d_out d2) S (d_dst d2)"
      using prems(5,6) dl d1(6,7) by (auto simp: d2_def holds_def nth_list_update)
    show "d_src d2 \<le> length m" using src by (simp add: d2_def)
    show "\<exists>pad. drop (d_src d2) m = ibytes g @ layout later' @ pad"
      using arg_cong [OF d1(2), of "drop 1"] l by (simp add: d2_def)
    show "flags_left (d_cword_val d2) (map is_copy g) (mk' - 1)"
      using flags_left_drop [OF d1(3), of 1] flags_left_length [OF d1(3)] by (simp add: d2_def)
    show "later' \<noteq> [] \<longrightarrow> length g = mk' - 1" using d1(4) by auto
  qed (use okl in simp_all)
  ultimately show ?case using d1(7-9) by (simp add: d2_def)
qed

section \<open>The result\<close>

lemma decompress_near:
  assumes r: "read_cword m d = Some d1" "dec_inv S m pre grp later mk d1" "grp \<noteq> []" "d_src d1 + 4 \<le> length m"
    and "\<not> bit (d_cword_val d1) 0" "\<not> is_copy (hd grp)" "\<not> d_dst d1 + 12 \<le> length S"
  shows "\<exists>d'. decompress_step m (length S) d = Some (Inl d') \<and> length S \<le> length (d_out d') \<and> holds (d_out d') S (length S)"
proof -
  have dst: "d_dst d1 = ilen pre" using r(2) by (simp add: dec_inv_def)
  have it: "items_ok S pre (grp @ later)" "ilen pre + ilen (grp @ later) = length S"
    using r(2) items_ok_append [of S "[]" pre "grp @ later"] by (simp_all add: dec_inv_def)
  obtain l g where lg: "grp = l # g" using r(3) by (cases grp) auto
  have "no_copies (grp @ later)"
    using late_items [of S "pre @ [l]" "g @ later"] it(1) assms(6,7) dst lg
    by (cases l) (auto simp: no_copies_def)
  from decompress_tail_ok [OF it this] r(2) obtain d2 where
    t: "decompress_tail m (length S) d1 = Some d2" "length (d_out d2) = length (d_out d1)" "holds (d_out d2) S (length S)"
      "d_last_hashed d2 = d_last_hashed d1" "d_state d2 = d_state d1"
    unfolding dec_inv_def by blast
  have h: "hashed_ok S (starts pre) (d_dst d1) (d_last_hashed d1) (d_state d1)" "length S \<le> length (d_out d1)"
    using r(2) unfolding dec_inv_def by blast+
  obtain st' where u: "update_hash_upto (d_out d2) (d_last_hashed d1) (int (length S) - 1 - 3) (d_state d1) =
      Some (max (d_last_hashed d1) (int (length S) - 1 - 3), st')"
    using update_hash_upto_ok [of S "{s \<in> starts pre. s + 3 \<le> d_dst d1}" "d_state d1" "d_last_hashed d1"
        "int (length S) - 1 - 3" "d_out d2"] hashed_okD [OF h(1)] h(2) t(2) holds_hash [OF t(3)] by auto
  have "decompress_step m (length S) d =
      Some (Inl (d2\<lparr>d_last_hashed := max (d_last_hashed d1) (int (length S) - 1 - 3), d_state := st'\<rparr>))"
    using r(1,4) t u assms(5,7) by (simp add: decompress_step_def and_1_bit qlz_consts)
  then show ?thesis using t h(2) by simp
qed

lemma decompress_loop_ok:
  assumes "dec_inv S m pre grp later mk d" "readable S m pre grp d" "ilen pre < length S"
  shows "\<exists>d'. decompress_loop m (length S) d = Some d' \<and> length S \<le> length (d_out d') \<and> holds (d_out d') S (length S)"
  using assms
proof (induction "length S - ilen pre" arbitrary: pre grp later mk d rule: less_induct)
  case less
  from read_cword_ok [OF less.prems] obtain grp1 later1 mk1 d1 where
    r: "read_cword m d = Some d1" "dec_inv S m pre grp1 later1 mk1 d1" "grp1 \<noteq> []" "d_src d1 + 4 \<le> length m" by blast
  have fl: "flags_left (d_cword_val d1) (map is_copy grp1) mk1" and dst: "d_dst d1 = ilen pre"
    using r(2) by (simp_all add: dec_inv_def)
  have b0: "bit (d_cword_val d1) 0 \<longleftrightarrow> is_copy (hd grp1)"
    using r(3) fl flags_left_bit0 [of "d_cword_val d1" "is_copy (hd grp1)" "map is_copy (tl grp1)" mk1] by (cases grp1) auto
  have go: ?case if "decompress_step m (length S) d = Some (Inr d')" "dec_inv S m pre' grp' later' mk' d'"
    "ilen pre' + 4 \<le> length S" "ilen pre < ilen pre'" for d' pre' grp' later' mk'
  proof -
    have "decompress_loop m (length S) d = decompress_loop m (length S) d'"
      using that(1) by (subst decompress_loop.simps) simp
    with less.hyps [OF _ that(2)] that(3,4) show ?thesis by (simp add: readable_def)
  qed
  show ?case
  proof (cases "is_copy (hd grp1)")
    case True
    with r(3) obtain h n g where g: "grp1 = Copy h n # g" by (cases grp1; cases "hd grp1") auto
    from decompress_match_ok [OF r(2) [unfolded g] r(4)] obtain d' where
      d': "decompress_match m (w32 m (d_src d1)) d1 = Some d'" "dec_inv S m (pre @ [Copy h n]) g later1 (mk1 - 1) d'"
        "ilen (pre @ [Copy h n]) + 4 \<le> length S" by blast
    have "0 < n" using r(2) g items_ok_append [of S "[]" pre "grp1 @ later1"] by (auto simp: dec_inv_def)
    moreover have "decompress_step m (length S) d = Some (Inr d')"
      using r(1,4) d'(1) b0 True by (simp add: decompress_step_def and_1_bit)
    ultimately show ?thesis using go [OF _ d'(2,3)] by simp
  next
    case False
    show ?thesis
    proof (cases "d_dst d1 + 12 \<le> length S")
      case True
      from decompress_literals_ok [OF r(2,3) False r(4) True] obtain d' pre' grp' mk' where
        d': "decompress_literals m d1 = Some d'" "dec_inv S m pre' grp' later1 mk' d'" "ilen pre' + 4 \<le> length S" by blast
      have "decompress_step m (length S) d = Some (Inr d')"
        using r(1,4) d'(1) b0 False True by (simp add: decompress_step_def and_1_bit qlz_consts)
      moreover have "d_dst d' > d_dst d1"
        using d'(1) bitlut_spec(1) [OF _ refl, of "d_cword_val d1"] b0 False
        by (auto simp: decompress_literals_def Let_def Option.bind_eq_Some_conv)
      ultimately show ?thesis using go [OF _ d'(2,3)] dst d'(2) by (simp add: dec_inv_def)
    next
      case near: False
      from decompress_near [OF r _ False near] b0 False show ?thesis by (subst decompress_loop.simps) auto
    qed
  qed
qed

end
