(* ===== verification/Helpers.thy ===== *)
theory Helpers
  imports LogTool QuickLZ
begin

text \<open>
  The small helpers of \<^verbatim>\<open>source/impl/util\<close> and \<^verbatim>\<open>source/impl/type.h\<close>: the thread pool
  \<open>io_context\<close>, time spans, hash combination, random ranges, UUIDs, character sets, and the
  macros that take integers apart. Clock readings, random numbers and conversions are
  arguments.
\<close>

unbundle bit_operations_syntax

section \<open>io_context\<close>

text \<open>A posted task is a number, with whether it was posted by \<open>catch_post\<close>. \<open>started\<close> keeps the
  tasks a thread took, in order; \<open>terminated\<close> says that an exception left a thread, which
  ends the process.\<close>

type_synonym io_task = "nat \<times> bool"

record io_pool =
  io_threads :: nat
  io_queue :: "io_task list"
  io_stopped :: bool
  started :: "io_task list"
  terminated :: bool

definition io_new :: io_pool where
  "io_new = \<lparr>io_threads = 0, io_queue = [], io_stopped = False, started = [], terminated = False\<rparr>"

definition io_run :: "nat \<Rightarrow> io_pool \<Rightarrow> io_pool" where
  "io_run n p = p\<lparr>io_threads := io_threads p + (if io_stopped p then 0 else n)\<rparr>"

text \<open>Stopping lets every thread end after the task it is in, and waits for them.\<close>

definition io_stop :: "io_pool \<Rightarrow> io_pool" where
  "io_stop p = (if io_stopped p then p else p\<lparr>io_stopped := True, io_threads := 0\<rparr>)"

text \<open>An empty function is \<open>None\<close>.\<close>

definition io_post :: "nat option \<Rightarrow> io_pool \<Rightarrow> io_pool" where
  "io_post f p = (case f of None \<Rightarrow> p | Some n \<Rightarrow> p\<lparr>io_queue := io_queue p @ [(n, False)]\<rparr>)"

definition io_catch_post :: "nat option \<Rightarrow> io_pool \<Rightarrow> io_pool" where
  "io_catch_post f p = (case f of None \<Rightarrow> p | Some n \<Rightarrow> p\<lparr>io_queue := io_queue p @ [(n, True)]\<rparr>)"

text \<open>A thread takes the first task; \<open>throws\<close> says whether the function throws, \<open>logs\<close> whether the
  log is set, without which the handler's own log statement throws.\<close>

definition io_take :: "bool \<Rightarrow> bool \<Rightarrow> io_pool \<Rightarrow> io_pool" where
  "io_take throws logs p =
     (if io_threads p = 0 \<or> terminated p then p
      else case io_queue p of
        [] \<Rightarrow> p
      | (n, caught) # ts \<Rightarrow>
          p\<lparr>io_queue := ts, started := started p @ [(n, caught)], terminated := throws \<and> \<not> (caught \<and> logs)\<rparr>)"

inductive io_reachable :: "io_task list \<Rightarrow> io_pool \<Rightarrow> bool" where
  io_init: "io_reachable [] io_new"
| io_run: "io_reachable ps p \<Longrightarrow> io_reachable ps (io_run n p)"
| io_stop: "io_reachable ps p \<Longrightarrow> io_reachable ps (io_stop p)"
| io_post: "io_reachable ps p \<Longrightarrow> io_reachable (ps @ [(n, False)]) (io_post (Some n) p)"
| io_catch_post: "io_reachable ps p \<Longrightarrow> io_reachable (ps @ [(n, True)]) (io_catch_post (Some n) p)"
| io_take: "io_reachable ps p \<Longrightarrow> caught_ok \<longrightarrow> \<not> throws \<or> logs \<Longrightarrow> io_reachable ps (io_take throws logs p)"

text \<open>Tasks are started in the order they were posted, each once; a stopped pool starts none; and
  while the log is set only a task posted by \<open>post\<close> can end the process.\<close>

lemma io_tasks_in_order:
  "io_reachable ps p \<Longrightarrow> started p @ io_queue p = ps \<and> (io_stopped p \<longrightarrow> io_threads p = 0)"
  by (induction rule: io_reachable.induct)
    (auto simp: io_new_def io_run_def io_stop_def io_post_def io_catch_post_def io_take_def split: list.splits)

lemma io_stopped_starts_none: "io_reachable ps p \<Longrightarrow> io_stopped p \<Longrightarrow> io_take throws logs p = p"
  using io_tasks_in_order [of ps p] by (simp add: io_take_def)

lemma io_terminates:
  "\<not> terminated p \<Longrightarrow> terminated (io_take throws True p) \<Longrightarrow> throws \<and> (\<exists>n. last (started (io_take throws True p)) = (n, False))"
  by (auto simp: io_take_def split: if_splits list.splits)

text \<open>A dispatched function runs at once when the caller is a thread of the pool, and is posted
  otherwise: the result gives what the caller runs, with whether exceptions are caught.\<close>

definition io_dispatch :: "bool \<Rightarrow> nat option \<Rightarrow> io_pool \<Rightarrow> io_task list \<times> io_pool" where
  "io_dispatch in_thread f p =
     (case f of
        None \<Rightarrow> ([], p)
      | Some n \<Rightarrow> if in_thread \<and> \<not> io_stopped p then ([(n, False)], p) else ([], io_post f p))"

definition io_catch_dispatch :: "bool \<Rightarrow> nat option \<Rightarrow> io_pool \<Rightarrow> io_task list \<times> io_pool" where
  "io_catch_dispatch in_thread f p =
     (case f of
        None \<Rightarrow> ([], p)
      | Some n \<Rightarrow> if in_thread \<and> \<not> io_stopped p then ([(n, True)], p) else ([], io_catch_post f p))"

text \<open>Either way a function that is there is run or queued, once.\<close>

lemma io_dispatch_once:
  "fst (io_dispatch in_thread f p) @ drop (length (io_queue p)) (io_queue (snd (io_dispatch in_thread f p))) =
     (case f of None \<Rightarrow> [] | Some n \<Rightarrow> [(n, False)])"
  "fst (io_catch_dispatch in_thread f p) @ drop (length (io_queue p)) (io_queue (snd (io_catch_dispatch in_thread f p))) =
     (case f of None \<Rightarrow> [] | Some n \<Rightarrow> [(n, True)])"
  by (auto simp: io_dispatch_def io_catch_dispatch_def io_post_def io_catch_post_def split: option.split)

section \<open>Time stamps\<close>

text \<open>The text of the clock in ISO format, \<open>None\<close> when reading or formatting throws.\<close>

definition timestamp_micro :: "string option \<Rightarrow> string option" where
  "timestamp_micro now = (case now of None \<Rightarrow> None | Some s \<Rightarrow> if s = [] then None else Some s)"

definition timestamp :: "string option \<Rightarrow> string option" where
  "timestamp now = (case now of None \<Rightarrow> None | Some s \<Rightarrow> if s = [] then None else Some s)"

section \<open>Time spans\<close>

record duration =
  td_start :: int
  td_end :: int

text \<open>The constructor calls \<open>start\<close>; \<open>_end\<close> is the clock's zero.\<close>

definition duration_start :: "int \<Rightarrow> duration \<Rightarrow> duration" where
  "duration_start now td = td\<lparr>td_start := now\<rparr>"

definition duration_end :: "int \<Rightarrow> duration \<Rightarrow> duration" where
  "duration_end now td = td\<lparr>td_end := now\<rparr>"

definition duration_new :: "int \<Rightarrow> duration" where
  "duration_new now = duration_start now \<lparr>td_start = 0, td_end = 0\<rparr>"

text \<open>\<open>duration_cast\<close> to a unit of so many nanoseconds rounds towards zero.\<close>

definition duration_cast :: "int \<Rightarrow> int \<Rightarrow> int" where
  "duration_cast unit d = (if d < 0 then - (- d div unit) else d div unit)"

definition duration_count :: "int \<Rightarrow> int \<Rightarrow> duration \<Rightarrow> u64 \<times> duration" where
  "duration_count unit now td =
     (let td1 = (if td_end td < td_start td then duration_end now td else td)
      in (word_of_int (duration_cast unit (td_end td1 - td_start td1)), td1))"

text \<open>The static functions divide by 1000 as often as the unit asks for.\<close>

definition since_seconds :: "u64 \<Rightarrow> u64 \<Rightarrow> u64" where
  "since_seconds now t = (if now \<le> t then 0 else (now - t) div 1000 div 1000 div 1000)"

definition since_milliseconds :: "u64 \<Rightarrow> u64 \<Rightarrow> u64" where
  "since_milliseconds now t = (if now \<le> t then 0 else (now - t) div 1000 div 1000)"

definition since_microseconds :: "u64 \<Rightarrow> u64 \<Rightarrow> u64" where
  "since_microseconds now t = (if now \<le> t then 0 else (now - t) div 1000)"

definition since_nanoseconds :: "u64 \<Rightarrow> u64 \<Rightarrow> u64" where
  "since_nanoseconds now t = (if now \<le> t then 0 else now - t)"

lemma unat_since:
  "unat (since_nanoseconds now t) = unat now - unat t"
  "unat (since_microseconds now t) = (unat now - unat t) div 1000"
  "unat (since_milliseconds now t) = (unat now - unat t) div 1000000"
  "unat (since_seconds now t) = (unat now - unat t) div 1000000000"
  by (simp_all add: since_nanoseconds_def since_microseconds_def since_milliseconds_def since_seconds_def
      word_le_nat_alt unat_sub unat_div div_mult2_eq [symmetric])

text \<open>A span that was not ended is ended by the first question, and later questions give the same
  answer; one that was ended gives its length, in whole units, at most a unit short.\<close>

lemma duration_count_freezes:
  assumes "0 < s" "s \<le> now"
  shows "duration_count unit later (snd (duration_count unit now (duration_new s))) =
    duration_count unit now (duration_new s)"
  using assms by (simp add: duration_count_def duration_new_def duration_start_def duration_end_def Let_def)

lemma duration_count_ended:
  assumes "0 < unit" "s \<le> e" "e - s < 2 ^ 63"
  shows "uint (fst (duration_count unit now (duration_end e (duration_start s td)))) = (e - s) div unit"
proof -
  have "(e - s) div unit \<le> e - s" using assms zdiv_mono2 [of "e - s" 1 unit] by simp
  then have "(e - s) div unit < 2 ^ 64" "0 \<le> (e - s) div unit"
    using assms by (simp_all add: pos_imp_zdiv_nonneg_iff)
  then show ?thesis
    using assms(2)
    by (simp add: duration_count_def duration_end_def duration_start_def duration_cast_def uint_word_of_int take_bit_eq_mod)
qed

section \<open>Hashes and random numbers\<close>

text \<open>\<open>hs\<close> is \<open>boost::hash\<close>.\<close>

definition hash_combine :: "('a \<Rightarrow> u64) \<Rightarrow> u64 \<Rightarrow> 'a \<Rightarrow> u64" where
  "hash_combine hs seed v = seed XOR (hs v + 0x9e3779b9 + push_bit 6 seed + drop_bit 2 seed)"

lemma hash_combine_inject: "hash_combine hs seed a = hash_combine hs seed b \<longleftrightarrow> hs a = hs b"
proof -
  have "seed XOR (seed XOR x) = x" for x :: u64 by (simp flip: xor.assoc)
  then have "seed XOR x = seed XOR y \<longleftrightarrow> x = y" for x y :: u64 by metis
  then show ?thesis by (simp add: hash_combine_def)
qed

text \<open>\<open>gen\<close> draws from a range, from the generator's state.\<close>

definition rand_range :: "('n::linorder \<Rightarrow> 'n \<Rightarrow> 'g \<Rightarrow> 'n \<times> 'g) \<Rightarrow> 'n \<Rightarrow> 'n \<Rightarrow> 'g \<Rightarrow> 'n \<times> 'g" where
  "rand_range gen low hi g = (if hi \<le> low then (low, g) else gen low hi g)"

definition random_seed :: "u64 \<Rightarrow> u64 \<Rightarrow> u64" where
  "random_seed now seed = (if seed = 0 then now else seed)"

lemma rand_range_within:
  assumes "\<And>g. low < hi \<Longrightarrow> low \<le> fst (gen low hi g) \<and> fst (gen low hi g) \<le> hi"
  shows "low \<le> fst (rand_range gen low hi g) \<and> fst (rand_range gen low hi g) \<le> max low hi"
  using assms [of g] by (auto simp: rand_range_def max_def)

section \<open>UUIDs and character sets\<close>

definition uuid_text_size :: nat where "uuid_text_size = 36"

text \<open>A generated UUID is nil or not; \<open>to_text\<close> is \<open>lexical_cast\<close>.\<close>

definition uuid_gen_text :: "('u \<Rightarrow> bool) \<Rightarrow> ('u \<Rightarrow> string) \<Rightarrow> 'u \<Rightarrow> string \<Rightarrow> bool \<times> string" where
  "uuid_gen_text is_nil to_text u r =
     (if is_nil u then (False, r) else (length (to_text u) = uuid_text_size, to_text u))"

definition uuid_gen :: "('u \<Rightarrow> bool) \<Rightarrow> 'u \<Rightarrow> bool \<times> 'u" where
  "uuid_gen is_nil u = (\<not> is_nil u, u)"

text \<open>\<open>hasher\<close> is \<open>boost::hash\<close> of a UUID; the two static functions draw from a generator of their
  own and check nothing.\<close>

definition uuid_gen_hash :: "('u \<Rightarrow> u64) \<Rightarrow> 'u \<Rightarrow> u64" where
  "uuid_gen_hash hasher u = hasher u"

definition gen_uuid :: "('u \<Rightarrow> string) \<Rightarrow> 'u \<Rightarrow> string" where
  "gen_uuid to_text u = to_text u"

definition gen_hash_uuid :: "('u \<Rightarrow> u64) \<Rightarrow> 'u \<Rightarrow> u64" where
  "gen_hash_uuid hasher u = hasher u"

section \<open>Compression\<close>

text \<open>The wrappers of QuickLZ: a buffer is allocated (\<open>mem\<close>; without memory the exception is caught
  and logged) and filled with zeros like the library's state, filled by the library and copied to
  the result. \<open>None\<close>: an access outside a buffer.\<close>

definition zero_compress :: qlz_state_compress where
  "zero_compress = \<lparr>qc_stream_counter = 0, qc_hash = (\<lambda>_. \<lparr>hc_cache = 0, hc_offset = 0\<rparr>), qc_hash_counter = (\<lambda>_. 0)\<rparr>"

definition zero_decompress :: qlz_state_decompress where
  "zero_decompress = \<lparr>qd_hash = (\<lambda>_. None), qd_hash_counter = (\<lambda>_. 0), qd_stream_counter = 0\<rparr>"

definition quicklz_compress :: "bool \<Rightarrow> u8 list \<Rightarrow> u8 list \<Rightarrow> (bool \<times> u8 list) option" where
  "quicklz_compress mem source dest =
     (if \<not> mem then Some (False, dest)
      else do {
        (c, p, st) \<leftarrow> qlz_compress source (replicate (length source + 400) 0) zero_compress;
        out \<leftarrow> get_bytes p 0 c;
        Some (True, out) })"

definition quicklz_decompress :: "bool \<Rightarrow> u8 list \<Rightarrow> u8 list \<Rightarrow> (bool \<times> u8 list) option" where
  "quicklz_decompress mem source dest = do {
     n \<leftarrow> qlz_size_decompressed source;
     if \<not> mem then Some (False, dest)
     else do {
       (d, p, st) \<leftarrow> qlz_decompress source (replicate (n + 1) 0) zero_decompress;
       out \<leftarrow> get_bytes p 0 d;
       Some (True, out) } }"

text \<open>The four conversions of \<open>locale.h\<close> take the data pointer of their argument; \<open>None\<close> is the
  empty result after an exception, which is logged.\<close>

definition to_utf :: "(string \<Rightarrow> 'r option) \<Rightarrow> string \<Rightarrow> 'r option" where
  "to_utf conv s = conv (c_string s)"

definition wide_to_utf :: "(u16 list \<Rightarrow> string option) \<Rightarrow> u16 list \<Rightarrow> string option" where
  "wide_to_utf conv s = conv (takeWhile (\<lambda>c. c \<noteq> 0) s)"

section \<open>Taking integers apart\<close>

definition make64 :: "u32 \<Rightarrow> u32 \<Rightarrow> u64" where "make64 h l = push_bit 32 (ucast h) OR ucast l"
definition makelong :: "u16 \<Rightarrow> u16 \<Rightarrow> u32" where "makelong h l = push_bit 16 (ucast h) OR ucast l"
definition makeshort :: "u8 \<Rightarrow> u8 \<Rightarrow> u16" where "makeshort h l = push_bit 8 (ucast h) OR ucast l"
definition lolong :: "u64 \<Rightarrow> u32" where "lolong l = ucast (l AND 0xffffffff)"
definition hilong :: "u64 \<Rightarrow> u32" where "hilong h = ucast (drop_bit 32 h AND 0xffffffff)"
definition loshort :: "u32 \<Rightarrow> u16" where "loshort l = ucast (l AND 0xffff)"
definition hishort :: "u32 \<Rightarrow> u16" where "hishort h = ucast (drop_bit 16 h AND 0xffff)"
definition lobyte :: "u16 \<Rightarrow> u8" where "lobyte l = ucast (l AND 0xff)"
definition hibyte :: "u16 \<Rightarrow> u8" where "hibyte h = ucast (drop_bit 8 h AND 0xff)"

lemmas split_defs = make64_def makelong_def makeshort_def lolong_def hilong_def loshort_def hishort_def
  lobyte_def hibyte_def

lemma mask_numerals:
  "(0xffffffff :: u64) = mask 32" "(0xffff :: u32) = mask 16" "(0xff :: u16) = mask 8"
  by (simp_all add: mask_eq_exp_minus_1)

lemma split_make:
  "hilong (make64 h l) = h" "lolong (make64 h l) = l" "hishort (makelong h' l') = h'"
  "loshort (makelong h' l') = l'" "hibyte (makeshort h'' l'') = h''" "lobyte (makeshort h'' l'') = l''"
  by (rule bit_word_eqI; auto simp: split_defs mask_numerals bit_simps dest: bit_imp_le_length)+

lemma make_split:
  "make64 (hilong w) (lolong w) = w" "makelong (hishort v) (loshort v) = v" "makeshort (hibyte u) (lobyte u) = u"
  by (rule bit_word_eqI; auto simp: split_defs mask_numerals bit_simps not_le dest: bit_imp_le_length)+

end
