(* ===== verification/QuickLZProps.thy ===== *)
theory QuickLZProps
  imports QuickLZWriter QuickLZReader Helpers
begin

text \<open>
  The library as a whole and its wrappers: a compressed text carries its sizes, fits its buffer
  and is restored; what becomes of texts the library does not take, and of input that no
  compressor wrote.
\<close>

section \<open>The header\<close>

definition header_bytes :: "u8 \<Rightarrow> nat \<Rightarrow> nat \<Rightarrow> u8 list" where
  "header_bytes f r n = (if n < 216 then [f OR 68, word_of_nat r, word_of_nat n]
     else [f OR 70] @ enc_le 4 (unat (word_of_nat r :: u32)) @ enc_le 4 (unat (word_of_nat n :: u32)))"

definition base_of :: "nat \<Rightarrow> nat" where
  "base_of n = (if n < 216 then 3 else 9)"

lemma length_qlz_header [simp]: "length (header_bytes f r n) = base_of n"
  by (simp add: header_bytes_def base_of_def)

lemma write_header_ok:
  assumes "length pre = base_of n" "f = 0 \<or> f = 1"
  shows "write_header (base_of n) f r n (pre @ out) = Some (header_bytes f r n @ out)"
proof (cases "n < 216")
  case True
  then obtain a b c where "pre = [a, b, c]"
    using assms(1) by (auto simp: base_of_def length_Suc_conv numeral_3_eq_3)
  with True assms(2) show ?thesis
    by (auto simp: write_header_def put_byte_def byte_at_def header_bytes_def base_of_def)
next
  case False
  define x where "x = enc_le 4 (unat (word_of_nat r :: u32))"
  define y where "y = enc_le 4 (unat (word_of_nat n :: u32))"
  have xy: "length x = 4" "length y = 4" by (simp_all add: x_def y_def)
  obtain a pre' where p: "pre = a # pre'" "length pre' = 8" using False assms(1) by (cases pre) (auto simp: base_of_def)
  define f' where "f' = 2 OR f"
  have 1: "put_bytes (f' # pre' @ out) 1 x = Some ([f'] @ x @ drop 4 pre' @ out)"
    using put_bytes_mid [of x "pre' @ out" "[f']"] xy p(2) by simp
  have 2: "put_bytes ([f'] @ x @ drop 4 pre' @ out) 5 y = Some (([f'] @ x) @ y @ out)"
    using put_bytes_mid [of y "drop 4 pre' @ out" "[f'] @ x"] xy p(2) by simp
  have "write_header (base_of n) f r n (pre @ out) = Some ((((f' OR push_bit 2 1) OR push_bit 6 1) OR push_bit 4 0) # x @ y @ out)"
    using False 1 2 p(1)
    by (simp add: write_header_def base_of_def put_byte_def byte_at_def fast_write_def x_def [symmetric]
        y_def [symmetric] f'_def [symmetric])
  moreover have "((f' OR push_bit 2 1) OR push_bit 6 1) OR push_bit 4 0 = f OR 70"
    using assms(2) by (auto simp: f'_def)
  ultimately show ?thesis using False by (simp add: header_bytes_def x_def y_def)
qed

lemma read_sizes:
  assumes c: "c = header_bytes f r n @ body" and f: "f = 0 \<or> f = 1" and "n < 2 ^ 32" "r < 2 ^ 32" "n < 216 \<longrightarrow> r < 256"
    and "6 \<le> length c"
  shows "byte_at c 0 = Some (if n < 216 then f OR 68 else f OR 70)" and "qlz_size_header c = Some (base_of n)"
    and "qlz_size_decompressed c = Some n" and "qlz_size_compressed c = Some r"
proof -
  show b: "byte_at c 0 = Some (if n < 216 then f OR 68 else f OR 70)"
    using c assms(6) by (auto simp: byte_at_def header_bytes_def)
  have n: "qlz_size_n c = Some (if n < 216 then 1 else 4)" using f by (auto simp: qlz_size_n_def b)
  then show "qlz_size_header c = Some (base_of n)" by (simp add: qlz_size_header_def base_of_def)
  have w1: "unat (w32 c a AND 0xff) = unat (c ! a)" if "a + 4 \<le> length c" for a
  proof -
    have "take 1 (drop a c) = [c ! a]" using that by (simp add: take_Suc_conv_app_nth [of 0] hd_drop_conv_nth)
    then have "take_bit 8 (w32 c a) = word_of_nat (unat (c ! a))" using w32_low [OF that, of 1] by simp
    moreover have "w32 c a AND 0xff = take_bit 8 (w32 c a)" by (simp add: take_bit_eq_mask mask_eq_exp_minus_1)
    ultimately show ?thesis using unat_byte_bound [of "c ! a"] by (simp add: unsigned_ucast_eq take_bit_nat_eq_self)
  qed
  have w4: "w32 c a AND 0xffffffff = word_of_nat x" if "take 4 (drop a c) = enc_le 4 (unat (word_of_nat x :: u32))" for a x
  proof -
    have "w32 c a AND 0xffffffff = take_bit 32 (w32 c a)" unfolding take_bit_eq_mask mask_eq_exp_minus_1 by simp
    also have "\<dots> = w32 c a" by (rule take_bit_word_eq_self) simp
    finally show ?thesis using that by (simp add: w32_def)
  qed
  have l: "9 \<le> length c" if "\<not> n < 216" using that c by (simp add: base_of_def)
  show "qlz_size_decompressed c = Some n"
  proof (cases "n < 216")
    case True
    then have "c ! 2 = word_of_nat n" using c by (simp add: header_bytes_def)
    with w1 [of 2] assms(6) True show ?thesis
      by (simp add: qlz_size_decompressed_def n fast_read_def unat_of_nat numeral_2_eq_2 [symmetric])
  next
    case False
    then have "take 4 (drop 5 c) = enc_le 4 (unat (word_of_nat n :: u32))" using c by (simp add: header_bytes_def)
    with w4 [of 5 n] False l assms(3) show ?thesis
      by (simp add: qlz_size_decompressed_def n unat_of_nat)
  qed
  show "qlz_size_compressed c = Some r"
  proof (cases "n < 216")
    case True
    then have "c ! 1 = word_of_nat r" using c by (simp add: header_bytes_def)
    with w1 [of 1] assms(5,6) True show ?thesis
      by (simp add: qlz_size_compressed_def n fast_read_def unat_of_nat)
  next
    case False
    then have "take 4 (drop 1 c) = enc_le 4 (unat (word_of_nat r :: u32))" using c by (simp add: header_bytes_def)
    with w4 [of 1 r] False l assms(4) show ?thesis
      by (simp add: qlz_size_compressed_def n unat_of_nat)
  qed
qed

section \<open>A compressed text\<close>

text \<open>Either the items of the text, padded to nine bytes, or the text itself.\<close>

definition text_body :: "u8 list \<Rightarrow> u8 \<Rightarrow> u8 list \<Rightarrow> bool" where
  "text_body S f body \<longleftrightarrow> 3 \<le> length body \<and> length body + 9 < 2 ^ 32 \<and> (length S < 216 \<longrightarrow> length body < 253) \<and>
     (f = 0 \<and> body = S \<or>
      f = 1 \<and> 9 \<le> length body \<and> (\<exists>is pad. body = layout is @ pad \<and> items_ok S [] is \<and> ilen is = length S))"

definition compressed_text :: "u8 list \<Rightarrow> u8 list \<Rightarrow> bool" where
  "compressed_text S c \<longleftrightarrow> (\<exists>f body. text_body S f body \<and>
     c = header_bytes f (base_of (length S) + length body) (length S) @ body)"

lemma qlz_compress_ok:
  assumes S: "S \<noteq> []" "length S \<le> 0xffffffff - 400" and "length dest = length S + 400"
  shows "\<exists>r d st'. qlz_compress S dest st = Some (r, d, st') \<and> r \<le> length S + 400 \<and> r \<le> length d \<and>
    compressed_text S (take r d)"
proof -
  let ?b = "base_of (length S)"
  have b: "?b \<le> 9" "3 \<le> ?b" "(if length S < 216 then 3 else 9) = ?b" by (simp_all add: base_of_def)
  have e: "hc_offset (qc_hash (reset_table_compress st) h) = 0" for h by (simp add: reset_table_compress_def)
  have "length S < 2 ^ 32" "length S + 391 \<le> length (drop ?b dest)" using S assms(3) b by simp_all
  from compress_core_ok [OF S(1) this e] obtain n out st' where
    c: "qlz_compress_core S (drop ?b dest) (reset_table_compress st) = Some (n, out, st')" "length S + 391 \<le> length out"
    and n: "n = 0 \<and> 11 \<le> length S \<or> (\<exists>is. items_ok S [] is \<and> ilen is = length S \<and> n = max 9 (length (layout is)) \<and>
       take (length (layout is)) out = layout is \<and> length (layout is) \<le> length S + 200)" by blast
  have pre: "length (take ?b dest) = ?b" using assms(3) b by simp
  have s: "\<not> (length S = 0 \<or> 0xffffffff - 400 < length S)" using S by simp
  have fin: ?thesis if "text_body S f (take k out)" "k \<le> length out" "f = 0 \<or> f = 1" "k \<le> length S + 391"
    "qlz_compress S dest st = Some (?b + k, header_bytes f (?b + k) (length S) @ out, st2)" for f k out st2
  proof -
    have "take (?b + k) (header_bytes f (?b + k) (length S) @ out) = header_bytes f (?b + k) (length S) @ take k out"
      by simp
    moreover have "length (take k out) = k" using that(2) by simp
    ultimately have "compressed_text S (take (?b + k) (header_bytes f (?b + k) (length S) @ out))"
      using that(1) unfolding compressed_text_def by metis
    with that(2,4,5) b(1) show ?thesis by auto
  qed
  show ?thesis
  proof (cases "n = 0")
    case True
    with n have N: "11 \<le> length S" by (auto simp: max_def split: if_splits)
    have p: "put_bytes out 0 S = Some (S @ drop (length S) out)" using put_bytes_mid [of S out "[]"] c(2) by simp
    have "qlz_compress S dest st = Some (?b + length S, header_bytes 0 (?b + length S) (length S) @ S @ drop (length S) out,
        st'\<lparr>qc_stream_counter := 0\<rparr>)"
      unfolding qlz_compress_def Let_def b(3)
      using s c(1) True p write_header_ok [OF pre, of 0 "?b + length S"] by (simp add: add.commute)
    then show ?thesis by (rule fin [rotated 4]) (use N S in \<open>simp_all add: text_body_def\<close>)
  next
    case False
    with n obtain "is" where i: "items_ok S [] is" "ilen is = length S" "n = max 9 (length (layout is))"
      "take (length (layout is)) out = layout is" "length (layout is) \<le> length S + 200" by auto
    have l: "n \<le> length out" using i(3,5) c(2) by simp
    have o: "take n out = layout is @ drop (length (layout is)) (take n out)"
      using i(3,4) by (metis append_take_drop_id max.cobounded2 take_take min.absorb1)
    have small: "n \<le> 243" if "length S < 216"
    proof -
      have "length is \<le> length S" using items_bytes_le [OF i(1)] i(2) by simp
      with that have "(length is + 30) div 31 \<le> 7" by simp
      then show ?thesis using layout_le [OF i(1)] i(2,3) that by simp
    qed
    have "qlz_compress S dest st = Some (?b + n, header_bytes 1 (?b + n) (length S) @ out, st'\<lparr>qc_stream_counter := 0\<rparr>)"
      unfolding qlz_compress_def Let_def b(3) using s c(1) False write_header_ok [OF pre, of 1 "?b + n"] by simp
    moreover have "text_body S 1 (take n out)"
      using i(1,2,3,5) l o small S(2) unfolding text_body_def by (auto simp: min_absorb2)
    moreover have "n \<le> length S + 391" using i(3,5) by simp
    ultimately show ?thesis using fin l by blast
  qed
qed

lemma compressed_text_sizes:
  assumes "text_body S f body" "length S < 2 ^ 32" and c: "c = header_bytes f (base_of (length S) + length body) (length S) @ body"
  shows "qlz_size_header c = Some (base_of (length S))" "qlz_size_decompressed c = Some (length S)"
    "qlz_size_compressed c = Some (length c)" "byte_at c 0 = Some (if length S < 216 then f OR 68 else f OR 70)"
proof -
  have "f = 0 \<or> f = 1" "base_of (length S) + length body < 2 ^ 32"
    "length S < 216 \<longrightarrow> base_of (length S) + length body < 256" "6 \<le> length c" "length c = base_of (length S) + length body"
    using assms(1) c by (auto simp: text_body_def base_of_def)
  with read_sizes [OF c _ assms(2)] show "qlz_size_header c = Some (base_of (length S))"
    "qlz_size_decompressed c = Some (length S)" "qlz_size_compressed c = Some (length c)"
    "byte_at c 0 = Some (if length S < 216 then f OR 68 else f OR 70)" by simp_all
qed

lemma qlz_decompress_ok:
  assumes "compressed_text S c" "S \<noteq> []" "length S < 2 ^ 32" "length S \<le> length dest"
  shows "\<exists>d st'. qlz_decompress c dest st = Some (length S, d, st') \<and> length S \<le> length d \<and> take (length S) d = S"
proof -
  let ?b = "base_of (length S)"
  from assms(1) obtain f body where t: "text_body S f body"
    and c: "c = header_bytes f (?b + length body) (length S) @ body" by (auto simp: compressed_text_def)
  note z = compressed_text_sizes [OF t assms(3) c]
  have drop: "drop ?b c = body" "length c = ?b + length body"
    using c by simp_all
  from t have "f = 0 \<or> f = 1" by (auto simp: text_body_def)
  then show ?thesis
  proof
    assume "f = 0"
    then have "get_bytes c ?b (length S) = Some S" using drop t by (simp add: get_bytes_def text_body_def)
    moreover have "put_bytes dest 0 S = Some (S @ drop (length S) dest)" using assms(4) by (simp add: put_bytes_def)
    ultimately show ?thesis using z assms(4) \<open>f = 0\<close> by (simp add: qlz_decompress_def)
  next
    assume "f = 1"
    then obtain "is" pad where i: "body = layout is @ pad" "9 \<le> length body" "items_ok S [] is" "ilen is = length S"
      using t by (auto simp: text_body_def)
    let ?d = "\<lparr>d_src = ?b, d_dst = 0, d_cword_val = 1, d_last_hashed = -1, d_out = dest, d_state = reset_table_decompress st\<rparr>"
    have "hashed_ok S {} 0 (-1) (reset_table_decompress st)" by (simp add: hashed_ok_def newest_def)
    then have "dec_inv S c [] [] is 0 ?d"
      using i drop assms(4) by (auto simp: dec_inv_def holds_def flags_left_0)
    moreover have "readable S c [] [] ?d" using i(2) drop by (simp add: readable_def)
    ultimately obtain d' where d': "decompress_loop c (length S) ?d = Some d'" "length S \<le> length (d_out d')"
      "holds (d_out d') S (length S)" using decompress_loop_ok assms(2) by fastforce
    then have "take (length S) (d_out d') = S" by (intro nth_equalityI) (simp_all add: holds_def)
    with d' z \<open>f = 1\<close> show ?thesis
      by (auto simp: qlz_decompress_def qlz_decompress_core_def)
  qed
qed

section \<open>The wrappers\<close>

lemma quicklz_compress_text:
  assumes "S \<noteq> []" "length S \<le> 0xffffffff - 400"
  shows "\<exists>c. quicklz_compress True S d = Some (True, c) \<and> compressed_text S c \<and> length c \<le> length S + 400"
proof -
  from qlz_compress_ok [OF assms, of "replicate (length S + 400) 0" zero_compress] obtain r p st where
    "qlz_compress S (replicate (length S + 400) 0) zero_compress = Some (r, p, st)" "r \<le> length S + 400" "r \<le> length p"
    "compressed_text S (take r p)" by auto
  then show ?thesis by (intro exI [of _ "take r p"]) (simp add: quicklz_compress_def get_bytes_def)
qed

lemma compressed_text_lengths:
  assumes "compressed_text S c" "length S < 2 ^ 32"
  shows "qlz_size_decompressed c = Some (length S)" "qlz_size_compressed c = Some (length c)"
proof -
  from assms(1) obtain f body where "text_body S f body"
    "c = header_bytes f (base_of (length S) + length body) (length S) @ body" unfolding compressed_text_def by blast
  from compressed_text_sizes [OF this(1) assms(2) this(2)]
  show "qlz_size_decompressed c = Some (length S)" "qlz_size_compressed c = Some (length c)" by blast+
qed

text \<open>C4. A compressed text is restored: whatever bytes a non-empty text of at most 4294966895 bytes
  has, compressing it succeeds, with every access inside the library's buffers, and
  decompressing the result gives the text back.\<close>

theorem quicklz_roundtrip:
  assumes "S \<noteq> []" and "length S \<le> 0xffffffff - 400"
  shows "\<exists>c. quicklz_compress True S d = Some (True, c) \<and> quicklz_decompress True c d' = Some (True, S)"
proof -
  from quicklz_compress_text [OF assms] obtain c where
    c: "quicklz_compress True S d = Some (True, c)" "compressed_text S c" by blast
  have n: "length S < 2 ^ 32" using assms(2) by simp
  from qlz_decompress_ok [OF c(2) assms(1) n, of "replicate (length S + 1) 0" zero_decompress] obtain p st where
    "qlz_decompress c (replicate (length S + 1) 0) zero_decompress = Some (length S, p, st)" "length S \<le> length p"
    "take (length S) p = S" by auto
  then have "quicklz_decompress True c d' = Some (True, S)"
    using compressed_text_lengths [OF c(2) n] by (simp add: quicklz_decompress_def get_bytes_def)
  with c(1) show ?thesis by blast
qed

theorem quicklz_roundtrip_witness:
  "\<exists>c. quicklz_compress True (replicate 1000 7 @ [1, 2, 3]) [] = Some (True, c) \<and>
    quicklz_decompress True c [] = Some (True, replicate 1000 7 @ [1, 2, 3])"
  by (rule quicklz_roundtrip) simp_all

text \<open>C17. A compressed text is at most 400 bytes longer than the text, and the sizes in its header,
  one byte or four bytes each, are its own length and the length of the text.\<close>

theorem quicklz_sizes:
  assumes "S \<noteq> []" and "length S \<le> 0xffffffff - 400" and "quicklz_compress True S d = Some (ok, c)"
  shows "ok \<and> length c \<le> length S + 400 \<and> qlz_size_compressed c = Some (length c) \<and>
    qlz_size_decompressed c = Some (length S)"
proof -
  from quicklz_compress_text [OF assms(1,2), of d] assms(3)
  have "ok" "compressed_text S c" "length c \<le> length S + 400" by auto
  moreover have "length S < 2 ^ 32" using assms(2) by simp
  ultimately show ?thesis using compressed_text_lengths by simp
qed

theorem quicklz_sizes_witness:
  "\<exists>c. quicklz_compress True [9] [] = Some (True, c) \<and> length c \<le> 401 \<and>
    qlz_size_compressed c = Some (length c) \<and> qlz_size_decompressed c = Some 1"
proof -
  obtain c where c: "quicklz_compress True [9] [] = Some (True, c)"
    using quicklz_compress_text [of "[9]" "[]"] by auto
  with quicklz_sizes [OF _ _ c] show ?thesis by simp
qed

text \<open>C34. The decompressor trusts its input: a text whose header says it is compressed and whose
  first item is a copy is read through a pointer that nothing has set, whatever follows.\<close>

theorem copy_first_faults:
  assumes "source \<noteq> []" and "hd source AND 1 = 1"
    and "bit (w32 source (if hd source AND 2 = 2 then 9 else 3)) 0"
  shows "quicklz_decompress True source d = None"
proof -
  have b: "byte_at source 0 = Some (hd source)" using assms(1) by (simp add: byte_at_def hd_conv_nth)
  define h where "h = (if hd source AND 2 = 2 then 9 else 3 :: nat)"
  have n: "qlz_size_header source = Some h"
    by (simp add: qlz_size_header_def qlz_size_n_def b h_def)
  have "decompress_step source sz \<lparr>d_src = h, d_dst = 0, d_cword_val = 1, d_last_hashed = -1, d_out = p, d_state = zero_decompress\<rparr> = None"
    for sz p
  proof (cases "h + 8 \<le> length source")
    case True
    with assms(3) show ?thesis
      by (simp add: decompress_step_def read_cword_def CWORD_LEN_def and_1_bit h_def [symmetric] decompress_match_def
          zero_decompress_def)
  next
    case False
    then show ?thesis by (simp add: decompress_step_def read_cword_def CWORD_LEN_def)
  qed
  then have "decompress_loop source sz \<lparr>d_src = h, d_dst = 0, d_cword_val = 1, d_last_hashed = -1, d_out = p, d_state = zero_decompress\<rparr> = None"
    for sz p by (subst decompress_loop.simps) simp
  then have "qlz_decompress_core source p sz zero_decompress = None" for p sz
    by (cases "qlz_size_compressed source") (simp_all add: qlz_decompress_core_def n)
  then show ?thesis
    by (cases "qlz_size_decompressed source")
      (simp_all add: quicklz_decompress_def qlz_decompress_def b assms(2) reset_table_decompress_def)
qed

theorem copy_first_faults_witness:
  "quicklz_decompress True [69, 20, 5, 1, 0, 0, 128, 17, 0, 0, 0, 0, 0, 0] [] = None"
  by (rule copy_first_faults) (simp_all add: w32_def bit_0)

text \<open>An empty text is compressed to nothing, successfully, and the result's header is then read
  outside the result; so is a text too long for the library, of which nothing remains.\<close>

lemma quicklz_empty:
  "quicklz_compress True [] d = Some (True, [])" "quicklz_decompress True [] d = None"
  by (simp_all add: quicklz_compress_def qlz_compress_def get_bytes_def quicklz_decompress_def
      qlz_size_decompressed_def qlz_size_n_def byte_at_def)

lemma quicklz_too_long: "0xffffffff - 400 < length S \<Longrightarrow> quicklz_compress True S d = Some (True, [])"
  by (simp add: quicklz_compress_def qlz_compress_def get_bytes_def)

end
