(* ===== verification/Downlink.thy ===== *)
theory Downlink
  imports Link
begin

text \<open>
  The other direction of \<open>Link\<close>: the stream from a server's connection to a client's. The server
  may have several writes in flight; each gives its bytes to the stream in pieces of any length,
  and pieces of different writes come in any order. What the server receives and what the client
  sends is open. The relation has a parameter that says whether the handler uses \<open>fast_send\<close>:
  without it what the server queued arrives in order; with it a packet can arrive that nobody
  sent. \<open>dl_routed\<close> records the packets the client's connection passes to its owner.
\<close>

section \<open>The joined machines\<close>

record downlink =
  dl_server :: session
  dl_given :: "nat list"
  dl_pipe :: "u8 list"
  dl_client :: csession
  dl_routed :: "inbound list"

fun write_packet :: "write_op \<Rightarrow> outbound" where
  "write_packet (Write_queued p) = p"
| "write_packet (Write_fast p) = p"

fun completes_write :: "event \<Rightarrow> bool" where
  "completes_write (Ev_write ec p) = True"
| "completes_write (Ev_fast_write p) = True"
| "completes_write e = False"

text \<open>Calls that send through the queue only, and bodies that fit a packet.\<close>

fun queued_api :: "api \<Rightarrow> bool" where
  "queued_api (Api_send mem i b n) = (b \<noteq> None \<and> 0 < n \<and> n \<le> raw_size_c)"
| "queued_api (Api_fast_send i b n) = False"
| "queued_api a = True"

fun queued_event :: "event \<Rightarrow> bool" where
  "queued_event (Ev_api a) = queued_api a"
| "queued_event (Ev_task calls) = list_all queued_api calls"
| "queued_event (Ev_header mem ec bs h) = list_all queued_api (snd h)"
| "queued_event (Ev_body mem ec bs h) = list_all queued_api (snd h)"
| "queued_event e = True"

fun routes :: "owner_call list \<Rightarrow> inbound list" where
  "routes [] = []"
| "routes (Route_packet p # cs) = p # routes cs"
| "routes (_ # cs) = routes cs"

definition new_writes :: "nat list \<Rightarrow> session \<Rightarrow> nat list" where
  "new_writes gs s = gs @ replicate (length (writes s) - length gs) 0"

definition downlink_start ::
  "bool \<Rightarrow> (nat \<Rightarrow> bool) \<Rightarrow> bool \<Rightarrow> (nat \<Rightarrow> bool \<times> bool) \<Rightarrow> string \<Rightarrow> u16 \<Rightarrow> downlink" where
  "downlink_start cmem cmems mem mems ip port =
     \<lparr>dl_server = start mem ip port (session_new mems), dl_given = [], dl_pipe = [],
      dl_client = fst (c_connect cmem None
        (fst (snd (c_on_connect (\<lambda>_. True) ip port (bound_csession cmems))))),
      dl_routed = []\<rparr>"

inductive downlink_step :: "bool \<Rightarrow> downlink \<Rightarrow> downlink \<Rightarrow> bool" for fast where
  ds_server: "sess_step (dl_server l) e s \<Longrightarrow> \<not> completes_write e \<Longrightarrow> fast \<or> queued_event e \<Longrightarrow>
    downlink_step fast l (l\<lparr>dl_server := s, dl_given := new_writes (dl_given l) s\<rparr>)"
| ds_transmit: "i < length (writes (dl_server l)) \<Longrightarrow> w = wire (write_packet (writes (dl_server l) ! i)) \<Longrightarrow>
    k \<le> length w - dl_given l ! i \<Longrightarrow>
    downlink_step fast l (l\<lparr>dl_pipe := dl_pipe l @ take k (drop (dl_given l ! i) w),
      dl_given := (dl_given l)[i := dl_given l ! i + k]\<rparr>)"
| ds_write: "writes (dl_server l) = xs @ Write_queued p # ys \<Longrightarrow> fault (dl_server l) = None \<Longrightarrow>
    ec = None \<longrightarrow> dl_given l ! length xs = length (wire p) \<Longrightarrow>
    s = write_done ec ((dl_server l)\<lparr>writes := xs @ ys\<rparr>) \<Longrightarrow>
    downlink_step fast l (l\<lparr>dl_server := s,
      dl_given := new_writes (take (length xs) (dl_given l) @ drop (Suc (length xs)) (dl_given l)) s\<rparr>)"
| ds_fast_write: "writes (dl_server l) = xs @ Write_fast p # ys \<Longrightarrow> fault (dl_server l) = None \<Longrightarrow>
    downlink_step fast l (l\<lparr>dl_server := (dl_server l)\<lparr>writes := xs @ ys\<rparr>,
      dl_given := take (length xs) (dl_given l) @ drop (Suc (length xs)) (dl_given l)\<rparr>)"
| ds_connected: "c_connect_half (dl_client l) \<Longrightarrow>
    downlink_step fast l (l\<lparr>dl_client := fst (c_connect_finish (dl_client l))\<rparr>)"
| ds_client_send: "c_on_send b (Some out) (dl_client l) = (ok, c) \<Longrightarrow>
    downlink_step fast l (l\<lparr>dl_client := c\<rparr>)"
| ds_client_close: "downlink_step fast l (l\<lparr>dl_client := fst (c_on_close False (dl_client l))\<rparr>)"
| ds_client_task: "c_strand (dl_client l) = t # ts \<Longrightarrow>
    downlink_step fast l (l\<lparr>dl_client := fst (c_run_task t ((dl_client l)\<lparr>c_strand := ts\<rparr>))\<rparr>)"
| ds_client_write: "c_writes (dl_client l) = p # ps \<Longrightarrow>
    downlink_step fast l (l\<lparr>dl_client := fst (c_write_done ec ((dl_client l)\<lparr>c_writes := ps\<rparr>))\<rparr>)"
| ds_header: "c_reads (dl_client l) = Read_header # rs \<Longrightarrow> dl_pipe l = bs @ rest \<Longrightarrow>
    length bs \<le> header_size_c \<Longrightarrow> ec = None \<longrightarrow> length bs = header_size_c \<Longrightarrow>
    c_header mem ec bs ((dl_client l)\<lparr>c_reads := rs\<rparr>) = (c, calls) \<Longrightarrow>
    downlink_step fast l (l\<lparr>dl_client := c, dl_pipe := rest, dl_routed := dl_routed l @ routes calls\<rparr>)"
| ds_body: "c_reads (dl_client l) = Read_body n # rs \<Longrightarrow> dl_pipe l = bs @ rest \<Longrightarrow>
    length bs \<le> n \<Longrightarrow> ec = None \<longrightarrow> length bs = n \<Longrightarrow>
    c_body mem ec bs ((dl_client l)\<lparr>c_reads := rs\<rparr>) = (c, calls) \<Longrightarrow>
    downlink_step fast l (l\<lparr>dl_client := c, dl_pipe := rest, dl_routed := dl_routed l @ routes calls\<rparr>)"

inductive downlink_reachable :: "bool \<Rightarrow> downlink \<Rightarrow> bool" for fast where
  dr_start: "downlink_reachable fast (downlink_start cmem cmems mem mems ip port)"
| dr_step: "downlink_reachable fast l \<Longrightarrow> downlink_step fast l l' \<Longrightarrow> downlink_reachable fast l'"

section \<open>What the server gives to the stream\<close>

definition message_of :: "outbound \<Rightarrow> u16 \<times> u8 list" where
  "message_of p = (hdr_id (out_header p), drop 16 (wire p))"

definition sendable :: "outbound \<Rightarrow> bool" where
  "sendable p \<longleftrightarrow> packet_for (message_of p) p"

fun task_ok :: "task \<Rightarrow> bool" where
  "task_ok (Task_send p) = sendable p"
| "task_ok (Task_fast_send p) = False"
| "task_ok t = True"

lemma sendable_encode:
  assumes "0 < n" "n \<le> 65519" "encode o1 i (Some src) n = Some p"
  shows "sendable p"
proof -
  note w = wire_encode [OF assms]
  have "message_of p = (i, slice src 0 n)" by (simp add: message_of_def w(1,2))
  with assms show ?thesis by (auto simp: sendable_def packet_for_def)
qed

text \<open>\<open>base\<close> is what had been queued before. At most one write is in flight, \<open>k\<close> of its bytes
  given; the bytes given are those of the packets before it, and these.\<close>

definition gives :: "outbound list \<Rightarrow> u8 list \<Rightarrow> nat \<Rightarrow> session \<Rightarrow> bool" where
  "gives base stream k s \<longleftrightarrow> list_all task_ok (strand s) \<and> list_all sendable (queued_obs (trace s)) \<and>
     prefix base (queued_obs (trace s)) \<and> prefix stream (concat (map wire (queued_obs (trace s)))) \<and>
     (writes s = [] \<and> k = 0 \<and>
        (is_connected s \<longrightarrow> outbound_q s = [] \<and> stream = concat (map wire (queued_obs (trace s)))) \<or>
      (\<exists>p q done. writes s = [Write_queued p] \<and> outbound_q s = p # q \<and> queued_obs (trace s) = done @ p # q \<and>
        k \<le> length (wire p) \<and> stream = concat (map wire done) @ take k (wire p)))"

text \<open>Operations that neither queue nor write.\<close>

definition same_writer :: "session \<Rightarrow> session \<Rightarrow> bool" where
  "same_writer s t \<longleftrightarrow> writes t = writes s \<and> outbound_q t = outbound_q s \<and> queued_obs (trace t) = queued_obs (trace s) \<and>
     (is_connected t \<longrightarrow> is_connected s) \<and> (list_all task_ok (strand s) \<longrightarrow> list_all task_ok (strand t))"

lemma gives_same: "gives base stream k s \<Longrightarrow> same_writer s t \<Longrightarrow> gives base stream k t"
  by (auto simp: gives_def same_writer_def)

lemma same_writer_refl [simp]: "same_writer s s"
  by (simp add: same_writer_def)

lemma same_writer_trans: "same_writer s t \<Longrightarrow> same_writer t u \<Longrightarrow> same_writer s u"
  by (simp add: same_writer_def)

lemma same_writer_updates [simp]:
  "same_writer s (on_close b s)" "same_writer s (close_task s)"
  "same_writer s (emit Obs_enter s)" "same_writer s (emit Obs_leave s)" "same_writer s (emit (Obs_route q) s)"
  "same_writer s (raise_fault f s)" "same_writer s (snd (session_alloc_outbound mem s))"
  "same_writer s (session_dealloc_inbound ib s)" "same_writer s (run_dealloc s)"
  "same_writer s (snd (set_compid c s))" "same_writer s (set_keep_alive_flag s)" "same_writer s (init_keep_alive_flag s)"
  "same_writer s (s\<lparr>reads := rs\<rparr>)" "same_writer s (s\<lparr>cur_inbound := q2\<rparr>)"
  by (auto simp: same_writer_def on_close_def close_task_def session_alloc_outbound_def session_dealloc_inbound_def
      run_dealloc_def set_compid_def set_keep_alive_flag_def init_keep_alive_flag_def Let_def
      split: list.split prod.split)

lemma gives_send_task:
  assumes "gives base stream k s" "sendable p"
  shows "gives base stream k (send_task p s)"
proof -
  have q: "queued_obs (trace (send_task p s)) = queued_obs (trace s) @ [p]" "strand (send_task p s) = strand s"
    "is_connected (send_task p s) = is_connected s" "outbound_q (send_task p s) = outbound_q s @ [p]"
    "writes (send_task p s) = (if outbound_q s = [] \<and> is_connected s then writes s @ [Write_queued p] else writes s)"
    by (auto simp: send_task_def async_write_front_def Let_def neq_Nil_conv split: list.split)
  from assms show ?thesis unfolding gives_def q by (auto simp: prefix_append)
qed

lemma gives_on_send: "gives base stream k s \<Longrightarrow> sendable p \<Longrightarrow> gives base stream k (snd (on_send b (Some p) s))"
  by (auto simp: on_send_def gives_send_task) (auto simp: gives_def)

lemma gives_api:
  assumes "gives base stream k s" "queued_api a"
  shows "gives base stream k (api_call b a s)"
proof (cases a)
  case (Api_send mem i body n)
  with assms(2) obtain src where body: "body = Some src" "0 < n" "n \<le> 65519" by auto
  have "gives base stream k (snd (send b mem i body n s))"
  proof (cases "session_alloc_outbound mem s")
    case (Pair q s1)
    then have "gives base stream k s1"
      using gives_same [OF assms(1) same_writer_updates(7) [of s mem]] by simp
    with Pair assms(1) body sendable_encode [OF body(2,3)] gives_on_send show ?thesis
      by (auto simp: send_def encode_Some Let_def split: option.split)
  qed
  with Api_send show ?thesis by simp
qed (use assms in \<open>auto intro: gives_same\<close>)

lemma gives_calls: "gives base stream k s \<Longrightarrow> list_all queued_api calls \<Longrightarrow> gives base stream k (handler_calls calls s)"
  unfolding handler_calls_def by (induction calls arbitrary: s) (simp_all add: gives_api)

lemma gives_task:
  assumes "gives base stream k s" "strand s = t # ts" "list_all queued_api calls"
  shows "gives base stream k (run_task calls t (s\<lparr>strand := ts\<rparr>))"
proof -
  have t: "task_ok t" and g: "gives base stream k (s\<lparr>strand := ts\<rparr>)"
    using assms(1,2) by (auto simp: gives_def)
  show ?thesis
    using t by (cases t) (simp_all add: assms(3) g gives_calls gives_same gives_send_task gives_same [OF g])
qed

lemma gives_deliver:
  assumes "gives base stream k s" "session_inv s" "list_all queued_api (snd h)"
  shows "gives base stream k (deliver h r s)"
proof (cases r)
  case None
  with assms(1) show ?thesis by (simp add: deliver_def)
next
  case (Some p)
  have "gives base stream k (emit (Obs_route p) s)" using assms(1) by (rule gives_same) simp
  with assms(3) have g: "gives base stream k (handler_calls (snd h) (emit (Obs_route p) s))" by (simp add: gives_calls)
  have "gives base stream k (session_dealloc_inbound p (if ok then t else on_close True t))"
    if "gives base stream k t" for ok t
    by (rule gives_same [OF that]) (auto intro: same_writer_trans [OF same_writer_updates(1) same_writer_updates(8)])
  with g show ?thesis
    unfolding Some deliver_Some [OF assms(2)] Let_def by (auto intro: gives_same split: option.split)
qed

lemma same_writer_fields [simp]:
  "same_writer s (t\<lparr>reads := rs\<rparr>) = same_writer s t" "same_writer s (t\<lparr>cur_inbound := q2\<rparr>) = same_writer s t"
  "same_writer s (t\<lparr>keep_alive_flag := ka\<rparr>) = same_writer s t" "same_writer s (t\<lparr>inbound_pool := ip\<rparr>) = same_writer s t"
  "same_writer s (async_read_header t) = same_writer s t" "same_writer s (async_read_body n t) = same_writer s t"
  "same_writer s (set_keep_alive_flag t) = same_writer s t"
  by (simp_all add: same_writer_def async_read_header_def async_read_body_def set_keep_alive_flag_def Let_def raise_fault_def)

lemma same_writer_close: "same_writer s t \<Longrightarrow> same_writer s (on_close b t)"
  by (rule same_writer_trans [OF _ same_writer_updates(1)])

lemma same_writer_alloc: "session_alloc_inbound mem t = (q, u) \<Longrightarrow> same_writer s u = same_writer s t"
  by (auto simp: session_alloc_inbound_def split: prod.splits)

lemma same_writer_next_header: "same_writer s t \<Longrightarrow> same_writer s (fst (next_header mem p t))"
  by (cases "session_alloc_inbound mem (t\<lparr>cur_inbound := None\<rparr>)")
    (simp add: next_header_def Let_def same_writer_alloc same_writer_close split: option.split)

lemma same_writer_read_header: "same_writer s t \<Longrightarrow> same_writer s (fst (read_header mem ec n t))"
  by (simp add: read_header_def Let_def same_writer_close same_writer_next_header split: option.split)

lemma same_writer_read_body: "same_writer s t \<Longrightarrow> same_writer s (fst (read_body mem ec n t))"
  by (simp add: read_body_def same_writer_close same_writer_next_header split: option.split)

lemma gives_finish_header:
  assumes "gives base stream k s" "reader_busy s" "list_all queued_api (snd h)"
  shows "gives base stream k (finish_header mem ec bs h s)"
proof -
  let ?s = "s\<lparr>cur_inbound := map_option (\<lambda>p. fill_header p bs) (cur_inbound s)\<rparr>"
  have "gives base stream k (fst (read_header mem ec (length bs) ?s))"
    by (rule gives_same [OF assms(1)]) (simp add: same_writer_read_header)
  moreover have "session_inv (fst (read_header mem ec (length bs) ?s))"
    using assms(2) by (simp add: session_inv_read_header)
  ultimately show ?thesis using assms(3)
    by (simp add: finish_header_def Let_def prod.case_eq_if gives_deliver)
qed

lemma gives_finish_body:
  assumes "gives base stream k s" "reader_busy s" "list_all queued_api (snd h)"
  shows "gives base stream k (finish_body mem ec bs h s)"
proof -
  let ?s = "s\<lparr>cur_inbound := map_option (\<lambda>p. fill_body p bs) (cur_inbound s)\<rparr>"
  have "gives base stream k (fst (read_body mem ec (length bs) ?s))"
    by (rule gives_same [OF assms(1)]) (simp add: same_writer_read_body)
  moreover have "session_inv (fst (read_body mem ec (length bs) ?s))"
    using assms(2) by (simp add: session_inv_read_body)
  ultimately show ?thesis using assms(3)
    by (simp add: finish_body_def Let_def prod.case_eq_if gives_deliver)
qed

lemma gives_step:
  assumes "sess_step s e t" "\<not> completes_write e" "queued_event e" "gives base stream k s" "session_inv s"
  shows "gives base stream k t"
  using assms(1)
proof (cases rule: sess_step.cases)
  case (step_header rs bs ec mem h)
  then have "reader_busy (s\<lparr>reads := rs\<rparr>)" using assms(5) by (auto simp: reader_busy_def session_ok_defs)
  moreover have "gives base stream k (s\<lparr>reads := rs\<rparr>)" using assms(4) by (rule gives_same) simp
  ultimately show ?thesis using step_header assms(3) by (simp add: gives_finish_header)
next
  case (step_body n rs bs ec mem h)
  then have "reader_busy (s\<lparr>reads := rs\<rparr>)" using assms(5) by (auto simp: reader_busy_def session_ok_defs)
  moreover have "gives base stream k (s\<lparr>reads := rs\<rparr>)" using assms(4) by (rule gives_same) simp
  ultimately show ?thesis using step_body assms(3) by (simp add: gives_finish_body)
next
  case step_dealloc
  then show ?thesis using assms(4) by (auto intro: gives_same)
qed (use assms(2-4) in \<open>simp_all add: gives_api gives_task\<close>)

lemma gives_transmit:
  assumes "gives base stream k s" "writes s = [w]" "j \<le> length (wire (write_packet w)) - k"
  shows "gives base (stream @ take j (drop k (wire (write_packet w)))) (k + j) s"
proof -
  from assms(1,2) obtain p q don where l: "w = Write_queued p" "outbound_q s = p # q" "queued_obs (trace s) = don @ p # q"
    "k \<le> length (wire p)" "stream = concat (map wire don) @ take k (wire p)" by (auto simp: gives_def)
  have e: "stream @ take j (drop k (wire p)) = concat (map wire don) @ take (k + j) (wire p)"
    using l(5) by (simp add: take_add)
  moreover have "prefix (take (k + j) (wire p)) (wire p @ xs)" for xs
    by (simp add: prefix_prefix take_is_prefix)
  ultimately show ?thesis using assms l by (auto simp: gives_def)
qed

lemma gives_write_done:
  assumes "gives base stream k s" "writes s = [Write_queued p]" "ec = None \<longrightarrow> k = length (wire p)"
  shows "gives base stream 0 (write_done ec (s\<lparr>writes := []\<rparr>))"
proof -
  from assms(1,2) obtain q don where l: "outbound_q s = p # q" "queued_obs (trace s) = don @ p # q"
    "stream = concat (map wire don) @ take k (wire p)" "list_all task_ok (strand s)"
    "list_all sendable (queued_obs (trace s))" "prefix base (queued_obs (trace s))"
    "prefix stream (concat (map wire (queued_obs (trace s))))" by (auto simp: gives_def)
  let ?d = "write_done ec (s\<lparr>writes := []\<rparr>)"
  have d: "outbound_q ?d = q" "queued_obs (trace ?d) = queued_obs (trace s)"
    "list_all task_ok (strand ?d)" "is_connected ?d = (ec = None \<and> is_connected s)"
    "writes ?d = (if ec = None \<and> q \<noteq> [] \<and> is_connected s then [Write_queued (hd q)] else [])"
    using l(1,4) by (auto simp: write_done_def on_close_def close_task_def async_write_front_def Let_def split: list.split)
  show ?thesis
  proof (cases "writes ?d = []")
    case True
    with d l show ?thesis using assms(3) by (auto simp: gives_def split: if_splits)
  next
    case False
    then have e: "ec = None" "q \<noteq> []" using d(5) by (auto split: if_splits)
    then obtain p' q' where "q = p' # q'" by (cases q) auto
    with d l e assms(3) False show ?thesis
      unfolding gives_def d by (auto split: if_splits intro!: exI [of _ "don @ [p]"])
  qed
qed

section \<open>What the client takes from the stream\<close>

text \<open>The client has routed the first \<open>r\<close> bodies and, unless it has stopped reading, has
  consumed the first \<open>r\<close> packets, or these and the next header.\<close>

definition takes :: "(u16 \<times> u8 list) list \<Rightarrow> outbound list \<Rightarrow> u8 list \<Rightarrow> inbound list \<Rightarrow> csession \<Rightarrow> bool" where
  "takes msgs outs consumed rs c \<longleftrightarrow> c_inbound_q c = [] \<and> B_route \<in> c_bound c \<and>
     (\<exists>r \<le> length outs. map content rs = take r msgs \<and>
       (c_reads c = [] \<or>
        c_reads c = [Read_header] \<and> c_inbound c \<noteq> None \<and> consumed = concat (map wire (take r outs)) \<or>
        r < length outs \<and> consumed = concat (map wire (take r outs)) @ take 16 (wire (outs ! r)) \<and>
          (\<exists>p q. q = decide (fill_header p (take 16 (wire (outs ! r)))) \<and> c_inbound c = Some q \<and>
             c_reads c = [Read_body (unat (in_body_size q))])))"

definition client_view :: "csession \<Rightarrow> read_op list \<times> inbound option \<times> inbound list \<times> binding set" where
  "client_view c = (c_reads c, c_inbound c, c_inbound_q c, c_bound c)"

lemma takes_frame: "client_view d = client_view c \<Longrightarrow> takes msgs outs consumed rs d = takes msgs outs consumed rs c"
  by (simp add: takes_def client_view_def)

lemma takes_stopped:
  "takes msgs outs consumed rs c \<Longrightarrow> client_view d = ([], q, [], c_bound c) \<Longrightarrow> takes msgs outs consumed' rs d"
  by (auto simp: takes_def client_view_def)

lemma takes_more:
  assumes "takes (map f outs) outs consumed rs c" "prefix outs outs'"
  shows "takes (map f outs') outs' consumed rs c"
proof -
  obtain new where new: "outs' = outs @ new" using assms(2) by (auto simp: prefix_def)
  obtain r where r: "r \<le> length outs" "map content rs = take r (map f outs)"
    "c_reads c = [] \<or> c_reads c = [Read_header] \<and> c_inbound c \<noteq> None \<and> consumed = concat (map wire (take r outs)) \<or>
      r < length outs \<and> consumed = concat (map wire (take r outs)) @ take 16 (wire (outs ! r)) \<and>
        (\<exists>p q. q = decide (fill_header p (take 16 (wire (outs ! r)))) \<and> c_inbound c = Some q \<and>
           c_reads c = [Read_body (unat (in_body_size q))])"
    using assms(1) unfolding takes_def by blast
  show ?thesis
    unfolding takes_def new using assms(1) r
    by (intro conjI exI [of _ r]) (auto simp: takes_def nth_append)
qed

lemma client_view_updates [simp]:
  "client_view (fst (c_on_close b c)) = client_view c" "client_view (fst (c_close_task c)) = client_view c"
  "client_view (c_async_write_front c) = client_view c" "client_view (fst (c_connect_finish c)) = client_view c"
  "client_view (c\<lparr>c_strand := ts\<rparr>) = client_view c" "client_view (c\<lparr>c_writes := ps\<rparr>) = client_view c"
  "client_view (c\<lparr>c_outbound_q := q\<rparr>) = client_view c"
  by (auto simp: client_view_def c_on_close_def c_close_task_def c_async_write_front_def c_connect_finish_def Let_def
      split: list.split)

lemma client_view_closed: "c_on_close b c = (d, calls) \<Longrightarrow> client_view d = client_view c"
  using client_view_updates(1) [of b c] by simp

lemma client_view_send_task [simp]: "client_view (c_send_task p c) = client_view c"
  by (simp add: c_send_task_def Let_def)

lemma client_view_on_send: "c_on_send b out c = (ok, d) \<Longrightarrow> client_view d = client_view c"
  by (auto simp: c_on_send_def split: option.splits if_splits)

lemma client_view_task: "client_view (fst (c_run_task t c)) = client_view c"
  by (cases t) simp_all

lemma client_view_write_done: "client_view (fst (c_write_done ec c)) = client_view c"
  by (simp add: c_write_done_def Let_def prod.case_eq_if split: list.split)

lemma routes_append [simp]: "routes (xs @ ys) = routes xs @ routes ys"
  by (induction xs rule: routes.induct) auto

lemma routes_on_close: "c_on_close b c = (d, calls) \<Longrightarrow> routes calls = []"
  by (auto simp: c_on_close_def c_close_task_def closing_def disconnected_def Let_def split: if_splits)

text \<open>A read of the client that completes, by its kind and its outcome.\<close>

lemma c_read_failed:
  assumes "c_inbound_q c = []"
  shows "\<exists>q. client_view (fst (c_header mem (Some e) bs (c\<lparr>c_reads := []\<rparr>))) = ([], q, [], c_bound c) \<and>
      routes (snd (c_header mem (Some e) bs (c\<lparr>c_reads := []\<rparr>))) = []"
    and "\<exists>q. client_view (fst (c_body mem (Some e) bs (c\<lparr>c_reads := []\<rparr>))) = ([], q, [], c_bound c) \<and>
      routes (snd (c_body mem (Some e) bs (c\<lparr>c_reads := []\<rparr>))) = []"
proof -
  let ?s = "\<lambda>p. c\<lparr>c_reads := [], c_inbound := p\<rparr>"
  have v: "client_view (?s p) = ([], p, [], c_bound c)" for p using assms by (simp add: client_view_def)
  have r: "routes (snd (c_on_close True (?s p))) = []" for p by (metis prod.collapse routes_on_close)
  have h: "c_header mem (Some e) bs (c\<lparr>c_reads := []\<rparr>) = c_on_close True (?s (map_option (\<lambda>p. fill_header p bs) (c_inbound c)))"
    "c_body mem (Some e) bs (c\<lparr>c_reads := []\<rparr>) = c_on_close True (?s (map_option (\<lambda>p. fill_body p bs) (c_inbound c)))"
    by (simp_all add: c_header_def c_body_def c_read_header_def c_read_body_def c_closed_def c_route_read_def
        prod.case_eq_if split: option.split)
  show "\<exists>q. client_view (fst (c_header mem (Some e) bs (c\<lparr>c_reads := []\<rparr>))) = ([], q, [], c_bound c) \<and>
      routes (snd (c_header mem (Some e) bs (c\<lparr>c_reads := []\<rparr>))) = []"
    "\<exists>q. client_view (fst (c_body mem (Some e) bs (c\<lparr>c_reads := []\<rparr>))) = ([], q, [], c_bound c) \<and>
      routes (snd (c_body mem (Some e) bs (c\<lparr>c_reads := []\<rparr>))) = []"
    unfolding h by (simp_all add: v r)
qed

lemma c_header_completes:
  assumes "c_inbound c = Some ib" "c_inbound_q c = []" "length hb = header_size_c"
    and "0 < unat (in_body_size (decide (fill_header ib hb)))"
  shows "\<exists>rs. client_view (fst (c_header mem None hb (c\<lparr>c_reads := []\<rparr>))) =
      (rs, Some (decide (fill_header ib hb)), [], c_bound c) \<and>
    (rs = [] \<and> \<not> c_connected c \<or> rs = [Read_body (unat (in_body_size (decide (fill_header ib hb))))]) \<and>
    c_connected (fst (c_header mem None hb (c\<lparr>c_reads := []\<rparr>))) = c_connected c \<and>
    routes (snd (c_header mem None hb (c\<lparr>c_reads := []\<rparr>))) = []"
  using assms by (simp add: c_header_def c_read_header_def c_route_read_def c_async_read_body_def client_view_def Let_def)

lemma c_next_header_view:
  assumes "c_reads c = []" "c_inbound_q c = []"
  shows "\<exists>d calls q rs. c_next_header mem p c = (d, calls, Some p) \<and> client_view d = (rs, q, [], c_bound c) \<and>
    (rs = [] \<and> \<not> (mem \<and> c_connected c) \<or> rs = [Read_header] \<and> q \<noteq> None) \<and> routes calls = []"
proof (cases "c_alloc_inbound mem (c_inbound_pool c)")
  case (Pair q ps)
  show ?thesis
  proof (cases q)
    case None
    let ?s = "c\<lparr>c_inbound := None, c_inbound_pool := ps\<rparr>"
    have "client_view (fst (c_on_close True ?s)) = ([], None, [], c_bound c)"
      using assms by (simp add: client_view_def [of ?s])
    moreover have "routes (snd (c_on_close True ?s)) = []" by (metis prod.collapse routes_on_close)
    moreover have "\<not> mem" using Pair None by (auto simp: c_alloc_inbound_def split: list.splits)
    ultimately show ?thesis using Pair None by (simp add: c_next_header_def Let_def prod.case_eq_if)
  next
    case (Some i)
    with Pair assms show ?thesis
      by (simp add: c_next_header_def c_async_read_header_def client_view_def Let_def)
  qed
qed

lemma c_body_completes:
  assumes "c_inbound c = Some ib" "c_inbound_q c = []" "B_route \<in> c_bound c"
    and "length body = unat (in_body_size ib)"
  shows "\<exists>rs q. client_view (fst (c_body mem None body (c\<lparr>c_reads := []\<rparr>))) = (rs, q, [], c_bound c) \<and>
    (rs = [] \<and> \<not> (mem \<and> c_connected c) \<or> rs = [Read_header] \<and> q \<noteq> None) \<and>
    routes (snd (c_body mem None body (c\<lparr>c_reads := []\<rparr>))) = [fill_body ib body]"
proof -
  let ?p = "fill_body ib body" and ?s = "c\<lparr>c_reads := [], c_inbound := Some (fill_body ib body)\<rparr>"
  have "c_reads ?s = []" "c_inbound_q ?s = []" using assms(2) by simp_all
  from c_next_header_view [OF this, of mem ?p] obtain d calls q rs where n:
    "c_next_header mem ?p ?s = (d, calls, Some ?p)" "client_view d = (rs, q, [], c_bound c)"
    "rs = [] \<and> \<not> (mem \<and> c_connected c) \<or> rs = [Read_header] \<and> q \<noteq> None" "routes calls = []" by auto
  have "c_body mem None body (c\<lparr>c_reads := []\<rparr>) = c_route_read (d, calls, Some ?p)"
    using assms(1,4) n(1) by (simp add: c_body_def c_read_body_def body_decode_id)
  moreover have "c_inbound_q d = []" "B_route \<in> c_bound d" using n(2) assms(3) by (simp_all add: client_view_def)
  ultimately show ?thesis
    using n by (simp add: c_route_read_def c_route_def Let_def packet_route_def client_view_def)
qed

lemma takes_header:
  assumes "takes msgs outs consumed rs c" "list_all2 packet_for msgs outs" "c_reads c = Read_header # us"
    and "prefix (consumed @ bs @ rest) (concat (map wire outs))" "ec = None \<longrightarrow> length bs = header_size_c"
  shows "takes msgs outs (consumed @ bs) (rs @ routes (snd (c_header mem ec bs (c\<lparr>c_reads := us\<rparr>))))
    (fst (c_header mem ec bs (c\<lparr>c_reads := us\<rparr>)))"
proof -
  obtain r ib where r: "us = []" "c_inbound_q c = []" "B_route \<in> c_bound c" "map content rs = take r msgs"
    "c_inbound c = Some ib" "consumed = concat (map wire (take r outs))"
    using assms(1,3) by (auto simp: takes_def)
  show ?thesis
  proof (cases ec)
    case None
    then have bs: "length bs = 16" using assms(5) by simp
    note n = header_arrives [OF assms(2) bs assms(4) [unfolded r(6)]]
    note w = packet_for_wire [OF n(2)]
    have "0 < unat (in_body_size (decide (fill_header ib bs)))"
      using w(3,4) unfolding n(3) by simp
    from c_header_completes [OF r(5,2) _ this] bs n(1,3) r None show ?thesis
      by (auto simp: takes_def client_view_def intro!: exI [of _ r])
  next
    case (Some e)
    with c_read_failed(1) [OF r(2), of mem e bs] takes_stopped [OF assms(1)] r(1) show ?thesis by auto
  qed
qed

lemma takes_body:
  assumes "takes msgs outs consumed rs c" "list_all2 packet_for msgs outs" "c_reads c = Read_body n # us"
    and "prefix (consumed @ bs @ rest) (concat (map wire outs))" "ec = None \<longrightarrow> length bs = n"
  shows "takes msgs outs (consumed @ bs) (rs @ routes (snd (c_body mem ec bs (c\<lparr>c_reads := us\<rparr>))))
    (fst (c_body mem ec bs (c\<lparr>c_reads := us\<rparr>)))"
proof -
  obtain r p where r: "us = []" "c_inbound_q c = []" "B_route \<in> c_bound c" "map content rs = take r msgs"
    "r < length outs" "consumed = concat (map wire (take r outs)) @ take 16 (wire (outs ! r))"
    "c_inbound c = Some (decide (fill_header p (take 16 (wire (outs ! r)))))"
    "n = unat (in_body_size (decide (fill_header p (take 16 (wire (outs ! r))))))"
    using assms(1,3) by (auto simp: takes_def)
  show ?thesis
  proof (cases ec)
    case None
    have pf: "packet_for (msgs ! r) (outs ! r)" and lm: "r < length msgs"
      using assms(2) r(5) by (simp_all add: list_all2_conv_all_nth)
    note w = packet_for_wire [OF pf]
    have len: "length bs = length (snd (msgs ! r))" "length bs = n" using assms(5) None r(8) w(4) by simp_all
    have "prefix (concat (map wire (take r outs)) @ take 16 (wire (outs ! r)) @ bs @ rest) (concat (map wire outs))"
      using assms(4) unfolding r(6) by simp
    note b = body_arrives [OF assms(2) r(5) len(1) this]
    have "map content (rs @ [fill_body (decide (fill_header p (take 16 (wire (outs ! r))))) bs]) = take (Suc r) msgs"
      using r(4) w(5) lm b(1) by (simp add: take_Suc_conv_app_nth)
    with c_body_completes [OF r(7,2,3) len(2) [unfolded r(8)], of mem] b(2) r None show ?thesis
      by (auto simp: takes_def client_view_def intro!: exI [of _ "Suc r"])
  next
    case (Some e)
    with c_read_failed(2) [OF r(2), of mem e bs] takes_stopped [OF assms(1)] r(1) show ?thesis by auto
  qed
qed

section \<open>The joined invariant\<close>

definition down_inv :: "downlink \<Rightarrow> bool" where
  "down_inv l \<longleftrightarrow> session_inv (dl_server l) \<and>
     (\<exists>consumed k. gives [] (consumed @ dl_pipe l) k (dl_server l) \<and>
        (dl_given l = [k] \<or> dl_given l = [] \<and> k = 0 \<and> writes (dl_server l) = []) \<and>
        takes (map message_of (queued_obs (trace (dl_server l)))) (queued_obs (trace (dl_server l)))
          consumed (dl_routed l) (dl_client l))"

lemma gives_base: "gives [] stream k s \<Longrightarrow> gives (queued_obs (trace s)) stream k s"
  by (simp add: gives_def)

lemma gives_queued: "gives base stream k s \<Longrightarrow> prefix base (queued_obs (trace s)) \<and> gives [] stream k s"
  by (simp add: gives_def)

lemma gives_packets: "gives base stream k s \<Longrightarrow>
    list_all2 packet_for (map message_of (queued_obs (trace s))) (queued_obs (trace s))"
  by (simp add: gives_def sendable_def list.rel_map list.rel_refl_strong list_all_iff list_all2_same)

lemma new_writes_gives:
  assumes "gives base stream k t" "gs = [k] \<or> gs = [] \<and> k = 0"
  shows "new_writes gs t = [k] \<or> new_writes gs t = [] \<and> k = 0 \<and> writes t = []"
  using assms by (auto simp: gives_def new_writes_def)

text \<open>The server takes a step that neither loses nor reorders what it queued.\<close>

lemma down_inv_server:
  assumes "session_inv s" "gives (queued_obs (trace (dl_server l))) (consumed @ dl_pipe l) k s"
    and "gs = [k] \<or> gs = [] \<and> k = 0"
    and "takes (map message_of (queued_obs (trace (dl_server l)))) (queued_obs (trace (dl_server l)))
      consumed (dl_routed l) (dl_client l)"
  shows "down_inv (l\<lparr>dl_server := s, dl_given := new_writes gs s\<rparr>)"
proof -
  have "takes (map message_of (queued_obs (trace s))) (queued_obs (trace s)) consumed (dl_routed l) (dl_client l)"
    using takes_more [OF assms(4)] gives_queued [OF assms(2)] by simp
  with assms(1) gives_queued [OF assms(2)] new_writes_gives [OF assms(2,3)] show ?thesis
    unfolding down_inv_def by (intro conjI exI [of _ consumed] exI [of _ k]) simp_all
qed

lemma down_inv_start: "down_inv (downlink_start cmem cmems mem mems ip port)"
proof -
  let ?l = "downlink_start cmem cmems mem mems ip port"
  have s: "writes (dl_server ?l) = []" "outbound_q (dl_server ?l) = []" "trace (dl_server ?l) = []"
    "list_all task_ok (strand (dl_server ?l))"
    by (auto simp: downlink_start_def start_def session_new_def session_alloc_inbound_def
        async_read_header_def on_close_def Let_def split: option.split prod.split)
  have "takes [] [] [] [] (dl_client ?l)"
    by (auto simp: takes_def downlink_start_def c_connect_def c_on_connect_def c_on_close_def
        bound_csession_def bind_owner_def csession_new_def c_async_read_header_def Let_def
        split: option.split prod.split)
  moreover have "session_inv (dl_server ?l)" by (simp add: downlink_start_def session_inv_start)
  moreover have "dl_pipe ?l = []" "dl_given ?l = []" "dl_routed ?l = []" by (simp_all add: downlink_start_def)
  ultimately show ?thesis
    unfolding down_inv_def using s by (intro conjI exI [of _ "[]"] exI [of _ 0]) (simp_all add: gives_def)
qed

lemma down_inv_step:
  assumes "downlink_step False l l'" "down_inv l"
  shows "down_inv l'"
proof -
  obtain consumed k where i: "session_inv (dl_server l)" "gives [] (consumed @ dl_pipe l) k (dl_server l)"
    "dl_given l = [k] \<or> dl_given l = [] \<and> k = 0 \<and> writes (dl_server l) = []"
    "takes (map message_of (queued_obs (trace (dl_server l)))) (queued_obs (trace (dl_server l)))
      consumed (dl_routed l) (dl_client l)"
    using assms(2) unfolding down_inv_def by blast
  have pre: "prefix (consumed @ dl_pipe l) (concat (map wire (queued_obs (trace (dl_server l)))))"
    and one: "\<And>xs w ys. writes (dl_server l) = xs @ w # ys \<Longrightarrow> xs = [] \<and> ys = [] \<and> (\<exists>p. w = Write_queued p)"
    using i(2) by (auto simp: gives_def append_eq_Cons_conv)
  note b = gives_base [OF i(2)] and pf = gives_packets [OF i(2)]
  have client: "down_inv (l\<lparr>dl_client := c\<rparr>)" if "client_view c = client_view (dl_client l)" for c
    unfolding down_inv_def using i takes_frame [OF that]
    by (intro conjI exI [of _ consumed] exI [of _ k]) simp_all
  from assms(1) show ?thesis
  proof (cases rule: downlink_step.cases)
    case (ds_server e s)
    then show ?thesis
      using down_inv_server [OF session_inv_step gives_step [OF _ _ _ b], of _ e s] i by auto
  next
    case (ds_transmit n w j)
    then have n: "n = 0" "dl_given l = [k]" "writes (dl_server l) = [writes (dl_server l) ! 0]"
      using i(2,3) by (auto simp: gives_def)
    from gives_transmit [OF i(2) n(3)] ds_transmit n(1,2) i show ?thesis
      unfolding down_inv_def by (intro conjI exI [of _ consumed] exI [of _ "k + j"]) simp_all
  next
    case (ds_write xs p ys ec s)
    then have w: "xs = []" "ys = []" "writes (dl_server l) = [Write_queued p]" "dl_given l = [k]"
      using one i(3) by auto
    have "sess_step (dl_server l) (Ev_write ec p) s"
      using sess_step.step_write [of "dl_server l" "[]" p "[]" ec] ds_write w by simp
    from down_inv_server [OF session_inv_step [OF this i(1)], of l consumed 0 "[]"]
      gives_write_done [OF b w(3), of ec] ds_write w i(4) show ?thesis by simp
  next
    case (ds_fast_write xs p ys)
    with one show ?thesis by blast
  next
    case (ds_client_send b out ok c)
    with client client_view_on_send show ?thesis by blast
  next
    case (ds_client_task t ts)
    with client show ?thesis by (simp add: client_view_task)
  next
    case (ds_client_write p ps ec)
    with client show ?thesis by (simp add: client_view_write_done)
  next
    case (ds_header rs bs rest ec mem c calls)
    then have "prefix (consumed @ bs @ rest) (concat (map wire (queued_obs (trace (dl_server l)))))"
      using pre by simp
    from takes_header [OF i(4) pf ds_header(2) this ds_header(5), of mem] ds_header i show ?thesis
      unfolding down_inv_def by (intro conjI exI [of _ "consumed @ bs"] exI [of _ k]) simp_all
  next
    case (ds_body n rs bs rest ec mem c calls)
    then have "prefix (consumed @ bs @ rest) (concat (map wire (queued_obs (trace (dl_server l)))))"
      using pre by simp
    from takes_body [OF i(4) pf ds_body(2) this ds_body(5), of mem] ds_body i show ?thesis
      unfolding down_inv_def by (intro conjI exI [of _ "consumed @ bs"] exI [of _ k]) simp_all
  qed (simp_all add: client)
qed

lemma downlink_inv: "downlink_reachable False l \<Longrightarrow> down_inv l"
  by (induction rule: downlink_reachable.induct) (auto intro: down_inv_start down_inv_step)

section \<open>End to end\<close>

text \<open>The server has nothing left to write and the client, between two packets, has read the
  stream empty.\<close>

definition down_drained :: "downlink \<Rightarrow> bool" where
  "down_drained l \<longleftrightarrow> is_connected (dl_server l) \<and> outbound_q (dl_server l) = [] \<and> dl_pipe l = [] \<and>
     c_reads (dl_client l) = [Read_header]"

lemma down_routed:
  assumes "down_inv l"
  shows "prefix (map content (dl_routed l)) (map message_of (queued_obs (trace (dl_server l)))) \<and>
    (down_drained l \<longrightarrow> map content (dl_routed l) = map message_of (queued_obs (trace (dl_server l))))"
proof -
  let ?outs = "queued_obs (trace (dl_server l))"
  obtain consumed k where i: "gives [] (consumed @ dl_pipe l) k (dl_server l)"
    "takes (map message_of ?outs) ?outs consumed (dl_routed l) (dl_client l)"
    using assms unfolding down_inv_def by blast
  obtain r where r: "r \<le> length ?outs" "map content (dl_routed l) = take r (map message_of ?outs)"
    "c_reads (dl_client l) = [] \<or> c_reads (dl_client l) = [Read_header] \<and> consumed = concat (map wire (take r ?outs)) \<or>
      (\<exists>n. c_reads (dl_client l) = [Read_body n])"
    using i(2) unfolding takes_def by blast
  have "r = length ?outs" if d: "down_drained l"
  proof -
    have "consumed = concat (map wire ?outs)" using i(1) d by (auto simp: gives_def down_drained_def)
    moreover have "concat (map wire ?outs) = concat (map wire (take r ?outs)) @ concat (map wire (drop r ?outs))"
      by (metis append_take_drop_id concat_append map_append)
    ultimately have "concat (map wire (drop r ?outs)) = []"
      using r(3) d unfolding down_drained_def by simp
    then have "drop r ?outs = []"
      using packets_nonempty [OF gives_packets [OF i(1)]] in_set_dropD [of _ r ?outs] by (cases "drop r ?outs") auto
    then show ?thesis using r(1) by simp
  qed
  with r(2) show ?thesis by (simp add: take_is_prefix)
qed

end
