(* ===== verification/DownlinkProps.thy ===== *)
theory DownlinkProps
  imports Downlink
begin

text \<open>
  What the stream from a server's connection to a client's guarantees, and what a \<open>fast_send\<close>
  takes away. The concrete runs share their first half, in which the server queues a packet and
  the client has read its header.
\<close>

section \<open>Half a packet read\<close>

lemma demo_wire:
  "packet_for (1000, replicate 8 0) demo_packet" "message_of demo_packet = (1000, replicate 8 0)"
  "hdr_id (out_header demo_packet) = 1000" "length (wire demo_packet) = 24"
proof -
  have s: "slice zero_buffer 0 8 = replicate 8 0" by (simp add: slice_def zero_buffer_def numeral_eq_Suc)
  have w: "wire demo_packet = header_bytes (out_header demo_packet) @ replicate 8 0"
    "out_header demo_packet = (out_header (outbound_init outbound_new))\<lparr>hdr_id := 1000, hdr_size := 24\<rparr>"
    using wire_encode [OF _ _ encode_demo] by (simp_all add: s)
  show "packet_for (1000, replicate 8 0) demo_packet"
    unfolding packet_for_def using encode_demo s
    by (intro exI [of _ "outbound_init outbound_new"] exI [of _ zero_buffer] exI [of _ 8]) simp
  show "message_of demo_packet = (1000, replicate 8 0)" "hdr_id (out_header demo_packet) = 1000"
    "length (wire demo_packet) = 24"
    by (simp_all add: message_of_def w)
qed

text \<open>The states the client goes through: connected, then waiting for the body of the packet.\<close>

definition half_read :: "downlink \<Rightarrow> bool" where
  "half_read l \<longleftrightarrow> dl_given l = [16] \<and> dl_pipe l = [] \<and> dl_routed l = [] \<and> c_inbound_q (dl_client l) = [] \<and>
     B_route \<in> c_bound (dl_client l) \<and> c_reads (dl_client l) = [Read_body 8] \<and> c_connected (dl_client l) \<and>
     (\<exists>p. c_inbound (dl_client l) = Some (decide (fill_header p (take 16 (wire demo_packet)))))"

lemma demo_client:
  fixes c defines "c \<equiv> dl_client (downlink_start True (\<lambda>_. True) True (\<lambda>_. (True, True)) ''10.0.0.1'' 4000)"
  shows "c_connect_half c" "c_reads c = [Read_header]" "c_inbound_q c = []" "B_route \<in> c_bound c"
    "\<exists>p. c_inbound c = Some p"
  by (simp_all add: c_def downlink_start_def c_connect_def c_on_connect_def c_async_read_header_def Let_def
      bound_csession_def bind_owner_def csession_new_def c_alloc_inbound_def numeral_eq_Suc)

lemma server_steps:
  assumes "downlink_reachable fast l" "sess_step (dl_server l) e s" "\<not> completes_write e" "fast \<or> queued_event e"
  shows "downlink_reachable fast (l\<lparr>dl_server := s, dl_given := new_writes (dl_given l) s\<rparr>)"
  by (rule dr_step [OF assms(1) ds_server [of l, OF assms(2-4)]])

lemma demo_down_connected:
  "\<exists>l. downlink_reachable fast l \<and> dl_server l = demo_session \<and> dl_given l = [] \<and> dl_pipe l = [] \<and> dl_routed l = [] \<and>
     c_reads (dl_client l) = [Read_header] \<and> c_inbound_q (dl_client l) = [] \<and> B_route \<in> c_bound (dl_client l) \<and>
     c_connected (dl_client l) \<and> (\<exists>p. c_inbound (dl_client l) = Some p)"
proof -
  let ?l = "downlink_start True (\<lambda>_. True) True (\<lambda>_. (True, True)) ''10.0.0.1'' 4000"
  have "downlink_reachable fast (?l\<lparr>dl_client := fst (c_connect_finish (dl_client ?l))\<rparr>)"
    using dr_step [OF dr_start ds_connected [OF demo_client(1)]] .
  moreover have "dl_server ?l = demo_session" "dl_given ?l = []" "dl_pipe ?l = []" "dl_routed ?l = []"
    by (simp_all add: downlink_start_def demo_session_def)
  ultimately show ?thesis
    using demo_client by (intro exI [of _ "?l\<lparr>dl_client := fst (c_connect_finish (dl_client ?l))\<rparr>"])
      (simp add: c_connect_finish_def)
qed

lemma demo_down_sending:
  "\<exists>l. downlink_reachable fast l \<and> dl_server l = demo_sending \<and> dl_given l = [0] \<and> dl_pipe l = [] \<and> dl_routed l = [] \<and>
     c_reads (dl_client l) = [Read_header] \<and> c_inbound_q (dl_client l) = [] \<and> B_route \<in> c_bound (dl_client l) \<and>
     c_connected (dl_client l) \<and> (\<exists>p. c_inbound (dl_client l) = Some p)"
proof -
  obtain l where l: "downlink_reachable fast l" "dl_server l = demo_session" "dl_given l = []" "dl_pipe l = []" "dl_routed l = []"
    "c_reads (dl_client l) = [Read_header]" "c_inbound_q (dl_client l) = []" "B_route \<in> c_bound (dl_client l)"
    "c_connected (dl_client l)" "\<exists>p. c_inbound (dl_client l) = Some p"
    using demo_down_connected by blast
  let ?s0 = "emit Obs_enter (demo_session\<lparr>strand := []\<rparr>)"
  obtain s where s: "sess_step demo_session (Ev_task []) ?s0"
    "sess_step ?s0 (Ev_api (Api_send True 1000 (Some zero_buffer) 8)) s"
    "sess_step s (Ev_task []) demo_sending" "writes s = []" using demo_sending_path by blast
  have "downlink_reachable fast (l\<lparr>dl_server := ?s0, dl_given := []\<rparr>)"
    using server_steps [OF l(1), of "Ev_task []" ?s0] s(1) l(2,3) by (simp add: new_writes_def demo_session_fields)
  from server_steps [OF this, of "Ev_api (Api_send True 1000 (Some zero_buffer) 8)" s] s(2,4)
  have "downlink_reachable fast (l\<lparr>dl_server := s, dl_given := []\<rparr>)" by (simp add: new_writes_def)
  from server_steps [OF this, of "Ev_task []" demo_sending] s(3)
  have "downlink_reachable fast (l\<lparr>dl_server := demo_sending, dl_given := [0]\<rparr>)"
    by (simp add: new_writes_def demo_sending_fields)
  then show ?thesis
    using l by (intro exI [of _ "l\<lparr>dl_server := demo_sending, dl_given := [0]\<rparr>"]) simp
qed

lemma half_read_reachable: "\<exists>l. downlink_reachable fast l \<and> dl_server l = demo_sending \<and> half_read l"
proof -
  obtain l p where l: "downlink_reachable fast l" "dl_server l = demo_sending" "dl_given l = [0]" "dl_pipe l = []" "dl_routed l = []"
    "c_reads (dl_client l) = [Read_header]" "c_inbound_q (dl_client l) = []" "B_route \<in> c_bound (dl_client l)"
    "c_connected (dl_client l)" "c_inbound (dl_client l) = Some p"
    using demo_down_sending by blast
  let ?h = "take 16 (wire demo_packet)" and ?c = "dl_client l"
  let ?r = "c_header True None ?h (?c\<lparr>c_reads := []\<rparr>)"
  have t: "downlink_reachable fast (l\<lparr>dl_pipe := ?h, dl_given := [16]\<rparr>)"
    using dr_step [OF l(1) ds_transmit [of 0 l "wire demo_packet" 16]] l(2-4) demo_wire(4)
    by (simp add: demo_sending_fields)
  note w = packet_for_wire [OF demo_wire(1)]
  have n: "unat (in_body_size (decide (fill_header q ?h))) = 8" for q using w(4) by simp
  have "length ?h = header_size_c" "0 < unat (in_body_size (decide (fill_header p ?h)))" using w(2) n by simp_all
  from c_header_completes [OF l(10,7) this, of True] have c:
    "client_view (fst ?r) = ([Read_body 8], Some (decide (fill_header p ?h)), [], c_bound ?c)" "c_connected (fst ?r)"
    "routes (snd ?r) = []"
    using l(9) n by auto
  let ?t = "l\<lparr>dl_given := [16], dl_client := fst ?r, dl_pipe := [], dl_routed := []\<rparr>"
  have "downlink_step fast (l\<lparr>dl_pipe := ?h, dl_given := [16]\<rparr>)
      (l\<lparr>dl_pipe := ?h, dl_given := [16]\<rparr>\<lparr>dl_client := fst ?r, dl_pipe := [], dl_routed := dl_routed l @ routes (snd ?r)\<rparr>)"
    using ds_header [of "l\<lparr>dl_pipe := ?h, dl_given := [16]\<rparr>" "[]" ?h "[]" None True "fst ?r" "snd ?r"] l(6) w(2) by simp
  from dr_step [OF t this] have "downlink_reachable fast ?t" using c(3) l(5) by simp
  moreover have "half_read ?t" using c(1,2) l(5,8) by (auto simp: half_read_def client_view_def)
  moreover have "dl_server ?t = demo_sending" using l(2) by simp
  ultimately show ?thesis by blast
qed

text \<open>The client finishes with any eight bytes.\<close>

lemma half_read_finish:
  assumes "downlink_reachable fast l" "half_read l" "dl_pipe l' = bs @ rest" "length bs = 8"
    and "downlink_reachable fast l'" "dl_client l' = dl_client l" "dl_routed l' = dl_routed l"
  shows "\<exists>c rs. downlink_reachable fast (l'\<lparr>dl_client := c, dl_pipe := rest, dl_routed := rs\<rparr>) \<and>
    map content rs = [(1000, bs)] \<and> c_reads c = [Read_header]"
proof -
  obtain p where p: "c_inbound (dl_client l) = Some (decide (fill_header p (take 16 (wire demo_packet))))"
    using assms(2) by (auto simp: half_read_def)
  let ?i = "decide (fill_header p (take 16 (wire demo_packet)))"
  let ?r = "c_body True None bs (dl_client l\<lparr>c_reads := []\<rparr>)"
  note w = packet_for_wire [OF demo_wire(1)]
  have n: "unat (in_body_size ?i) = 8" using w(4) by simp
  then have routed: "routes (snd ?r) = [fill_body ?i bs]" "c_reads (fst ?r) = [Read_header]"
    using c_body_completes [OF p, of bs True] assms(2,4) by (auto simp: half_read_def client_view_def)
  have "hdr_id (header_ptr ?i) = 1000" using w(5) [of p] by (simp add: content_def)
  then have "content (fill_body ?i bs) = (1000, bs)"
    using n assms(4) by (simp add: content_def slice_fill_body)
  moreover have "downlink_step fast l' (l'\<lparr>dl_client := fst ?r, dl_pipe := rest, dl_routed := dl_routed l' @ routes (snd ?r)\<rparr>)"
    using assms(2-4,6) by (intro ds_body [where n = 8 and rs = "[]" and ec = None]) (auto simp: half_read_def)
  from dr_step [OF assms(5) this]
  have "downlink_reachable fast (l'\<lparr>dl_client := fst ?r, dl_pipe := rest, dl_routed := [fill_body ?i bs]\<rparr>)"
    using assms(2,7) by (simp add: routed(1) half_read_def)
  ultimately show ?thesis using routed(2) by fastforce
qed

section \<open>With the queue, and with \<open>fast_send\<close>\<close>

text \<open>C3. From the server to the client: as long as its handler sends only through the queue,
  in every reachable state of a server's and a client's connection joined by a byte stream the
  packets the client has routed are, in order and with their ids and bodies, the first of those
  the server queued, and all of them once the server, still connected, has nothing left to write and the client,
  between two packets, has read the stream empty.\<close>

theorem downlink_in_order:
  assumes "downlink_reachable False l"
  shows "prefix (map content (dl_routed l)) (map message_of (queued_obs (trace (dl_server l)))) \<and>
    (down_drained l \<longrightarrow> map content (dl_routed l) = map message_of (queued_obs (trace (dl_server l))))"
  by (rule down_routed [OF downlink_inv [OF assms]])

theorem downlink_in_order_witness:
  "\<exists>l. downlink_reachable False l \<and> down_drained l \<and> map content (dl_routed l) = [(1000, replicate 8 0)] \<and>
     map message_of (queued_obs (trace (dl_server l))) = [(1000, replicate 8 0)]"
proof -
  obtain l where l: "downlink_reachable False l" "dl_server l = demo_sending" "half_read l"
    using half_read_reachable by blast
  note w = packet_for_wire [OF demo_wire(1)]
  have d: "take 8 (drop 16 (wire demo_packet)) = replicate 8 0"
    using demo_wire(2) by (simp add: message_of_def)
  let ?l = "l\<lparr>dl_pipe := replicate 8 0, dl_given := [24]\<rparr>"
  have r: "downlink_reachable False ?l"
    using dr_step [OF l(1) ds_transmit [of 0 l "wire demo_packet" 8]] l(2,3) demo_wire(4) d
    by (simp add: demo_sending_fields half_read_def)
  obtain c rs where c: "downlink_reachable False (?l\<lparr>dl_client := c, dl_pipe := [], dl_routed := rs\<rparr>)"
    "map content rs = [(1000, replicate 8 0)]" "c_reads c = [Read_header]"
    using half_read_finish [OF l(1,3) _ _ r, of "replicate 8 0" "[]"] by auto
  let ?l1 = "?l\<lparr>dl_client := c, dl_pipe := [], dl_routed := rs\<rparr>" and ?s = "write_done None (demo_sending\<lparr>writes := []\<rparr>)"
  have s: "is_connected ?s" "outbound_q ?s = []"
    by (simp_all add: write_done_def demo_sending_fields)
  have r2: "downlink_reachable False (?l1\<lparr>dl_server := ?s, dl_given := new_writes [] ?s\<rparr>)" (is "downlink_reachable _ ?l2")
    using dr_step [OF c(1) ds_write [of ?l1 "[]" demo_packet "[]" None ?s]] l(2) demo_wire(4)
    by (simp add: demo_sending_fields)
  have "down_drained ?l2" using s c(3) by (simp add: down_drained_def)
  with downlink_in_order [OF r2] r2 c(2) show ?thesis by force
qed

text \<open>C33. With a \<open>fast_send\<close> a client can receive what nobody sent: while a queued packet is
  being written a fast one is given to the socket too, and the client takes the fast one's first
  bytes for the rest of the queued one.\<close>

theorem fast_send_corrupts:
  "\<exists>l p q i m. downlink_reachable True l \<and> is_connected (dl_server l) \<and> fault (dl_server l) = None \<and>
     queued_obs (trace (dl_server l)) = [p] \<and> writes (dl_server l) = [Write_queued p, Write_fast q] \<and>
     map content (dl_routed l) = [(i, m)] \<and> (i, m) \<noteq> message_of p \<and> (i, m) \<noteq> message_of q"
proof -
  obtain l where l: "downlink_reachable True l" "dl_server l = demo_sending" "half_read l"
    using half_read_reachable by blast
  obtain out where out: "encode outbound_new 1001 (Some zero_buffer) 10 = Some out"
    by (simp add: encode_Some Let_def)
  obtain s t where s: "sess_step demo_sending (Ev_api (Api_fast_send 1001 (Some zero_buffer) 10)) s"
    "writes s = [Write_queued demo_packet]" "sess_step s (Ev_task []) t" "is_connected t" "fault t = None"
    "writes t = [Write_queued demo_packet, Write_fast out]" "queued_obs (trace t) = [demo_packet]"
    using demo_fast_path [OF out] by blast
  from server_steps [OF l(1) s(1) [folded l(2)]] l(3) s(2)
  have "downlink_reachable True (l\<lparr>dl_server := s, dl_given := [16]\<rparr>)"
    by (simp add: new_writes_def half_read_def)
  from server_steps [OF this, of "Ev_task []" t] s(3,6)
  have l2: "downlink_reachable True (l\<lparr>dl_server := t, dl_given := [16, 0]\<rparr>)" (is "downlink_reachable _ ?l2")
    by (simp add: new_writes_def)
  note w = wire_encode [OF _ _ out]
  let ?b = "take 8 (wire out)"
  have lw: "length (wire out) = 26" using w(1) by simp
  have r: "downlink_reachable True (?l2\<lparr>dl_pipe := ?b, dl_given := [16, 8]\<rparr>)"
    using dr_step [OF l2 ds_transmit [of 1 ?l2 "wire out" 8]] s(6) l(3) lw
    by (simp add: half_read_def)
  obtain c rs where c: "downlink_reachable True (?l2\<lparr>dl_pipe := ?b, dl_given := [16, 8]\<rparr>
      \<lparr>dl_client := c, dl_pipe := [], dl_routed := rs\<rparr>)" "map content rs = [(1000, ?b)]"
    using half_read_finish [OF l(1,3) _ _ r, of ?b "[]"] lw by auto
  have "enc_le 4 n = word_of_nat (n mod 256) # enc_le 3 (n div 256)" for n
    using enc_le.simps(2) [of 3 n] by simp
  then have "take 1 ?b = [0xe5]"
    using w(1,2) by (simp add: header_bytes_def outbound_new_def header_init_def)
  then have ne: "(1000, ?b) \<noteq> message_of demo_packet" "(1000, ?b) \<noteq> message_of out"
    unfolding demo_wire(2) by (auto simp: message_of_def w(2) dest: arg_cong [of _ _ "take 1"])
  let ?l = "?l2\<lparr>dl_pipe := ?b, dl_given := [16, 8]\<rparr>\<lparr>dl_client := c, dl_pipe := [], dl_routed := rs\<rparr>"
  have "dl_server ?l = t" "map content (dl_routed ?l) = [(1000, ?b)]" using c(2) by simp_all
  with c(1) s(4-7) ne show ?thesis by metis
qed

end
