(* ===== verification/CrashHandler.thy ===== *)
theory CrashHandler
  imports Prelude
begin

text \<open>
  The crash handler (\<^verbatim>\<open>source/impl/exception_handler.cpp\<close>): the directory of the dumps, the
  process's filter for unhandled exceptions, and the filter itself. The functions of Windows are
  arguments by their results. \<open>ch_filter\<close> is the filter Windows has, a number, with \<open>0\<close> for none;
  \<open>own_filter\<close> is the program's.
\<close>

record crash_handler =
  ch_dir :: string
  ch_previous :: nat
  ch_filter :: nat

definition own_filter :: nat where "own_filter = 1"

text \<open>Whether the last character is a slash, as \<open>size() - 1\<close> and \<open>find_last_of\<close> compare.\<close>

definition ends_in_slash :: "string \<Rightarrow> bool" where
  "ends_in_slash d \<longleftrightarrow> d \<noteq> [] \<and> last d = CHR ''/''"

text \<open>The function \<open>begin_dump\<close>, with the directories it creates: \<open>exists\<close> answers for the data
  pointer of the argument.\<close>

definition begin_dump ::
  "(string \<Rightarrow> bool) \<Rightarrow> string \<Rightarrow> crash_handler \<Rightarrow> string list \<times> crash_handler" where
  "begin_dump exists_dir dir h =
     (let d = (if dir = [] then ''./'' else dir);
          created = (if dir \<noteq> [] \<and> \<not> exists_dir dir then [dir] else []);
          d' = (if ends_in_slash d then d else d @ ''/'')
      in (created, h\<lparr>ch_dir := d', ch_previous := ch_filter h, ch_filter := own_filter\<rparr>))"

definition end_dump :: "crash_handler \<Rightarrow> crash_handler" where
  "end_dump h = h\<lparr>ch_filter := ch_previous h\<rparr>"

datatype disposition = Continue_search | Execute_handler

text \<open>What the filter asks of Windows: the library, the function in it, the file, the dump; the
  result has the file it wrote to, if any, and how many handles it left open.\<close>

definition unhandled_exception_filter ::
  "bool \<Rightarrow> bool \<Rightarrow> (string \<Rightarrow> bool) \<Rightarrow> bool \<Rightarrow> string \<Rightarrow> crash_handler \<Rightarrow> disposition \<times> string option \<times> nat" where
  "unhandled_exception_filter library proc create_file write_ok now h =
     (if \<not> library then (Continue_search, None, 0)
      else if \<not> proc then (Continue_search, None, 0)
      else
        let file = ch_dir h @ now @ ''.dmp''
        in if \<not> create_file file then (Continue_search, None, 0)
           else
             let opened = (1 :: nat); closed = opened - 1
             in (if write_ok then Execute_handler else Continue_search, Some file, closed))"

text \<open>The directory ends in one slash that was there or was added, so a dump is a file in it; the
  handler is executed exactly when a dump was written, and no handle stays open.\<close>

lemma begin_dump_dir:
  "ends_in_slash (ch_dir (snd (begin_dump exists_dir dir h)))"
  "ends_in_slash dir \<Longrightarrow> ch_dir (snd (begin_dump exists_dir dir h)) = dir"
  by (simp_all add: begin_dump_def ends_in_slash_def Let_def)

lemma filter_executes_iff:
  "fst (unhandled_exception_filter library proc create_file write_ok now h) = Execute_handler \<longleftrightarrow>
     library \<and> proc \<and> create_file (ch_dir h @ now @ ''.dmp'') \<and> write_ok"
  "snd (snd (unhandled_exception_filter library proc create_file write_ok now h)) = 0"
  by (simp_all add: unhandled_exception_filter_def Let_def)

text \<open>One \<open>begin_dump\<close> is undone by \<open>end_dump\<close>; after a second one the first filter is lost and the
  program's own stays.\<close>

lemma end_dump_restores:
  "ch_filter (end_dump (snd (begin_dump exists_dir dir h))) = ch_filter h"
  "ch_filter (end_dump (snd (begin_dump exists_dir' dir' (snd (begin_dump exists_dir dir h))))) = own_filter"
  by (simp_all add: begin_dump_def end_dump_def Let_def)

end
