(* ===== verification/Spec2Isabelle.thy ===== *)
theory Spec2Isabelle
  imports ServerProps ClientProps LinkProgress StreamAcceptor Timer GameServer OdbcPool ObjectPool SingletonPool SpinLock
    QuickLZProps DownlinkProps CrashHandler
begin

text \<open>
  A verification library for the game server of this repository: its network library
  (\<^verbatim>\<open>source/impl/network\<close>), the application on it (\<^verbatim>\<open>project/server\<close>), the test client
  (\<^verbatim>\<open>project/dummy\<close>), and the database, timer, log and pool libraries of \<^verbatim>\<open>source/impl\<close>.

  \<^bold>\<open>The program.\<close> An acceptor makes a \<open>tcp_session\<close> for every connection. The connection reads a
  16-byte header, then the body, and routes the packet to the application's handler, which keeps
  the registry of connections by account id and answers with packets; answers are queued and
  written one at a time (\<open>send\<close>) or written at once (\<open>fast_send\<close>). A keep-alive sweep closes
  silent users. All of a connection's handlers run on its strand. The client opens connections
  of its own, retries until one is open, and sends the same packets from timers. The process
  is a Windows service or a console program with options from its command line; it logs
  through one instance. Stored procedures run over a pool of ODBC connections.

  \<^bold>\<open>Theories and code.\<close>
  \<^item> \<open>Prelude\<close>: machine integers, buffers with explicit bounds, little-endian integers, text.
    \<open>Store\<close>: the contract of a keyed store (locale \<open>keyed_store\<close>), interpreted for the user set,
    the registry and the timers.
  \<^item> \<open>Packet\<close>: \<open>packet/{header,inbound,outbound}.h\<close>; \<open>Messages\<close>: the structs of
    \<open>project/server/packet.h\<close> with their memory image; \<open>PacketPool\<close>: the packet pools of
    \<open>primitive_session\<close> (locale \<open>packet_pool\<close>, interpreted for the server's and the client's).
  \<^item> \<open>ServerSession\<close>: \<open>tcp_session.ipp\<close> and \<open>primitive_session\<close>, one definition per handler.
    \<open>SessionStep\<close>: the connection as a step relation with its invariant; \<open>SessionProps\<close>: reading,
    writing, closing, framing.
  \<^item> \<open>StreamSession\<close>, \<open>WebSocket\<close>, \<open>StreamAcceptor\<close>: \<open>ssl_session.ipp\<close>, \<open>ws_session.ipp\<close>,
    \<open>wss_session.ipp\<close> and \<open>ssl_acceptor.ipp\<close>, which no translation unit includes and which call members
    (\<open>is_encode\<close>, \<open>encode_type\<close>, \<open>ws_encode\<close>, the WebSocket handshake parser) that no file declares;
    these are parameters. \<open>StreamStep\<close>: the three classes as one family of step relations with its
    invariant; \<open>StreamProps\<close>: frames.
  \<^item> \<open>SessionManager\<close>: \<open>session_manager.cpp\<close>; \<open>ServerHandler\<close>: \<open>handler.ipp\<close> and \<open>handler.cpp\<close> on a
    \<open>world\<close> of all connections; \<open>Acceptor\<close>: \<open>acceptor.ipp\<close>; \<open>ServerStep\<close>, \<open>ServerInv\<close>, \<open>ServerProps\<close>:
    the running server as a step relation, its invariants and what every packet does.
  \<^item> \<open>ClientSession\<close>, \<open>ClientHandler\<close>, \<open>ClientProps\<close>: \<open>tcp_session.cpp\<close>, \<open>base_session.cpp\<close>,
    \<open>base_handler.cpp\<close>, \<open>tcp_handler.ipp\<close>, \<open>tcp_client.ipp\<close> and \<open>player.h\<close> of the client.
  \<^item> \<open>Link\<close>, \<open>LinkProgress\<close>: a client's and a server's connection joined by a byte stream, from the
    client to the server; \<open>Downlink\<close>, \<open>DownlinkProps\<close>: the stream back, with several writes in flight.
  \<^item> \<open>Timer\<close>: \<open>repeat_task\<close>, \<open>timed_task\<close> and \<open>timed_task_expansion\<close>.
  \<^item> \<open>LogTool\<close>: \<open>log_tool\<close> and its macros; \<open>Service\<close>: \<open>service_interface\<close> and
    \<open>base_server_instance\<close> of \<open>common.cpp\<close>; \<open>GameServer\<close>: \<open>game_server.cpp\<close> and \<open>run\<close>, the instance
    with its acceptor and handler.
  \<^item> \<open>SpinLock\<close>: \<open>spin_lock\<close> and its guard, with threads interleaved at single actions; \<open>Helpers\<close>: the
    other helpers of \<open>util.cpp\<close> and the macros of \<open>type.h\<close>; \<open>CrashHandler\<close>:
    \<open>exception_handler.cpp\<close>.
  \<^item> \<open>QuickLZ\<close>: \<open>util/quicklz/quicklz.cpp\<close> at its compiled settings (level 1, 64-bit, no streaming);
    \<open>QuickLZFormat\<close>: compressed texts as literals and copies with their control words;
    \<open>QuickLZCompress\<close>, \<open>QuickLZWriter\<close>: matches, table and the loops of the compressor;
    \<open>QuickLZReader\<close>: those of the decompressor; \<open>QuickLZProps\<close>: both composed. The wrappers are in \<open>Helpers\<close>.
  \<^item> \<open>ObjectPool\<close>: \<open>util/memory_pool\<close> (locales \<open>object_source\<close> and \<open>buffered_source\<close>, interpreted for
    the plain and the buffered pool over any boost pool that keeps its promises); \<open>SingletonPool\<close>:
    the allocator the packet classes inherit.
  \<^item> \<open>OdbcCommand\<close>, \<open>OdbcBuffer\<close>, \<open>OdbcHandler\<close>, \<open>OdbcExec\<close>: \<open>command\<close>, \<open>fetch_buffer\<close> and \<open>handler\<close> of
    \<open>odbc.cpp\<close>; \<open>OdbcProcedure\<close>: \<open>stored_procedure\<close>; \<open>OdbcPool\<close>: \<open>handler_wrapper\<close> and \<open>pool\<close>;
    \<open>OdbcProps\<close>, \<open>OdbcColumns\<close>: handles, parameters, columns and rows; \<open>OdbcDemo\<close>: the example
    driver of the witnesses.

  \<^bold>\<open>State and effects.\<close> A class is a record, a handler a function on it. What the runtime does is a
  parameter or a step: an operation in flight is an element of \<open>reads\<close>, \<open>writes\<close> or a posted
  function, and a rule of the step relation completes it with any result the runtime may give.
  A critical section is one step, which \<open>guarded_sections_serial\<close> proves of the spin lock. An exception that leaves a function and an access outside a
  buffer are values (\<open>None\<close>, \<open>Faulted\<close>, the field \<open>fault\<close>). Machine integers keep their width
  where it matters (packet sizes, ids, option values); addresses are numbers. Unread heap or
  allocator state is an argument that says whether an allocation succeeds.

  \<^bold>\<open>What the lemmas show.\<close>
  \<^item> Wire format and protocol: encoding is inverted by decoding for every body of 1 to 65519
    bytes; every struct survives the trip; exactly which size fields leave the receive buffer.
  \<^item> Connection: in every reachable state at most one read is in flight and an open connection
    has one; queued writes are serialised, in order, and never stall; the leave is reported
    once; packets sent as one byte stream are routed one by one.
  \<^item> TLS and WebSocket: the same reading, writing and closing; packets masked into frames are
    routed one by one; reading over TLS is reading over a plain socket; a frame of 64-bit length
    is undefined behaviour.
  \<^item> Server: each connection in it runs its own machine (a refinement); the user set and the
    registry stay well formed; and per packet the effect on both.
  \<^item> Client: one connection attempt under way until the first success; composed with the
    server, a sent struct reaches the server's handler as the same struct. Joined by a byte stream
    that delivers in pieces of any length, the two connections route exactly what was accepted
    for sending, in order, as far as it got, and as long as both are open all of it can arrive. The
    same order holds from the server to the client as long as the handler sends through the
    queue; with \<open>fast_send\<close> a run delivers a packet that nobody sent.
  \<^item> Compression: the compressor stays within its buffers and the decompressor restores every
    text within the library's limit; sizes and headers; what a forged text makes it read.
  \<^item> Timers, service, log, pools, lock: a running task always waits, a one-shot task runs at most
    once, the service's reports are true, a record goes to exactly one file, a pooled object
    has one user, and interleaved sections under a guard are sections run one after the other.
  \<^item> Database: no handle leaks or is freed twice whatever the driver answers; a procedure is
    executed at most six times; a served result set arrives whole and typed; exactly which
    answers make the code read outside a buffer.
  \<^item> Several theorems are runs on which the code does what it does not mean to; they are
    reachable states of the same step relations.

  \<^bold>\<open>Bounds and fuel.\<close> \<open>feed\<close> takes the number of reads it may complete; the theorems that use it give
  two per packet, a header and a body, which is what the code needs, and show that every byte
  is consumed; \<open>feed_frames\<close> needs at most three per frame. \<open>route_poll\<close> takes the number of rounds; as many as packets wait are enough. The
  retry loops of a procedure end by their counters (termination proofs). The loops of QuickLZ end by their
  position in the text; shifting out the marks of a control word, which does not end on zero, is a partial
  function. The compressor is given 400 bytes more than the text, as its wrapper gives it. The loop over rows
  and the console loop may run forever and are partial functions; \<open>exec_rows_returns_rows\<close>
  and \<open>console_loop_iff\<close> say when they end.

  \<^bold>\<open>Not modelled.\<close>
  \<^item> The TLS context (\<open>context.h\<close>), whose definitions are not in the repository, and the
    cryptography of TLS: a TLS stream delivers what a socket delivers.
  \<^item> Crypto++, a third-party library copied into the repository which the program never calls, and what the
    preprocessor removes of QuickLZ (the other levels, streaming, other processors).
  \<^item> The text and rotation of log files, the time slept between retries, and the address
    look-up \<open>get_host_ip\<close>.
\<close>

section \<open>From the client to the server\<close>

lemma msg_at_prefix:
  assumes "msg_wf m" "slice b 0 (msg_sizeof m) = msg_bytes m"
  shows "msg_at (msg_id m) b = Some m"
  using msg_at_blit [OF assms(1), of b] blit_slice_same [of b 0 "msg_sizeof m"] assms(2) by simp

lemma h_send_connected:
  assumes "h_connected cl" "\<not> h_closing cl" "h_session cl = Some i" "c_connected (conns cl i)"
    and "mem \<or> h_outbound_pool cl \<noteq> []"
  shows "\<exists>p out. encode p (msg_id m) (Some (struct_buffer m)) (msg_sizeof m) = Some out \<and>
    c_strand (conns (send_message mem m cl) i) = c_strand (conns cl i) @ [CT_send out]"
proof -
  obtain p ps where a: "h_alloc_outbound mem (h_outbound_pool cl) = (Some p, ps)"
    using c_out_pool.alloc_succeeds [OF assms(5)]
    by (cases "h_alloc_outbound mem (h_outbound_pool cl)") auto
  obtain out where "encode p (msg_id m) (Some (struct_buffer m)) (msg_sizeof m) = Some out"
    using encode_Some [of "msg_sizeof m" p] msg_sizeof_bounds [of m] by (auto simp: Let_def)
  then show ?thesis
    using assms a
    by (intro exI [of _ p] exI [of _ out])
      (simp add: send_message_def h_send_def h_on_send_def c_on_send_def Let_def)
qed

text \<open>C36. A message of the client reaches the server's handler: sending a protocol struct on a
  connected client queues one packet on its connection, and when the packet's bytes arrive at
  an open server connection between two packets, the connection consumes them exactly and
  routes one packet, which the handler's cast for its id reads as the same struct.\<close>

theorem client_message_reaches_handler:
  assumes "h_connected cl" and "\<not> h_closing cl" and "h_session cl = Some i"
    and "c_connected (conns cl i)" and "mem \<or> h_outbound_pool cl \<noteq> []" and "msg_wf m"
    and "reachable s" and "is_connected s" and "fault s = None" and "reads s = [Read_header]"
  shows "\<exists>out. c_strand (conns (send_message mem m cl) i) = c_strand (conns cl i) @ [CT_send out] \<and>
    (\<exists>u p. feed 2 (wire out) s = (u, []) \<and> is_connected u \<and> fault u = None \<and> reads u = [Read_header] \<and>
       trace u = trace s @ [Obs_route p] \<and> msg_at (hdr_id (header_ptr p)) (in_raw p) = Some m)"
proof -
  obtain p0 out where out: "encode p0 (msg_id m) (Some (struct_buffer m)) (msg_sizeof m) = Some out"
    "c_strand (conns (send_message mem m cl) i) = c_strand (conns cl i) @ [CT_send out]"
    using h_send_connected [OF assms(1-5), of m] by blast
  have b: "0 < msg_sizeof m" "msg_sizeof m \<le> 65519" using msg_sizeof_bounds [of m] by auto
  have "idle s" using assms(7-10) reachable_inv by (simp add: idle_def)
  from feed_packet [OF this b out(1), of 0 "[]"] obtain u p where
    u: "feed (Suc (Suc 0)) (wire out) s = (u, [])" "idle u" "trace u = trace s @ [Obs_route p]"
      "content p = (msg_id m, slice (struct_buffer m) 0 (msg_sizeof m))"
    by auto
  have "unat (in_body_size p) = msg_sizeof m"
    using u(4) by (simp add: content_def) (metis length_slice)
  then have "slice (in_raw p) 0 (msg_sizeof m) = msg_bytes m" "hdr_id (header_ptr p) = msg_id m"
    using u(4) slice_struct_buffer [OF assms(6)] by (simp_all add: content_def)
  then have "msg_at (hdr_id (header_ptr p)) (in_raw p) = Some m"
    using msg_at_prefix [OF assms(6)] by simp
  with out(2) u show ?thesis by (auto simp: idle_def numeral_2_eq_2)
qed

definition demo_client :: client where
  "demo_client = (client_new (\<lambda>_. True) 7)\<lparr>h_connected := True, h_closing := False,
     h_session := Some 0, conns := (\<lambda>_. demo_conn\<lparr>c_connected := True\<rparr>)\<rparr>"

theorem client_message_reaches_handler_witness:
  "\<exists>out. c_strand (conns (access_server True demo_client) 0) = [CT_send out] \<and>
    (\<exists>u p. feed 2 (wire out) demo_session = (u, []) \<and>
       msg_at (hdr_id (header_ptr p)) (in_raw p) = Some (CS_SERVER_ACCESS 7))"
proof -
  have "player_compid demo_client = 7" by (simp add: demo_client_def client_new_def)
  moreover have "c_strand (conns demo_client 0) = []"
    by (simp add: demo_client_def demo_conn_fields)
  ultimately show ?thesis
    using client_message_reaches_handler [of demo_client 0 True "CS_SERVER_ACCESS 7" demo_session]
      reachable_demo demo_session_fields
    by (simp add: access_server_def) (auto simp: demo_client_def)
qed

end
